(* ===== verification/Prelude.thy ===== *)
theory Prelude
  imports Main "HOL-Library.Word"
begin

text \<open>
  Shared vocabulary of the development: the Rust integer types as words of their width, byte
  strings, the \<open>Result\<close> type, the standard-library functions that the AetherLink crates call on
  integers and slices, the proof collections, and the generic lemmas about little-endian fields,
  slices and word arithmetic that the component theories share.  Machine arithmetic is the wrapping
  arithmetic of a release build; the component theories show that the wrap-around is never reached
  where the code relies on it.
\<close>

unbundle bit_operations_syntax

section \<open>Types\<close>

type_synonym u8 = "8 word"
type_synonym u16 = "16 word"
type_synonym u32 = "32 word"
type_synonym u64 = "64 word"
type_synonym bytes = "u8 list"

datatype ('a, 'e) result = Ok 'a | Err 'e

section \<open>Integer functions of the Rust standard library\<close>

definition div_ceil :: "'a::len word \<Rightarrow> 'a word \<Rightarrow> 'a word" where
  "div_ceil a b = (if 0 < a mod b then a div b + 1 else a div b)"

definition saturating_sub :: "'a::len word \<Rightarrow> 'a word \<Rightarrow> 'a word" where
  "saturating_sub a b = (if b \<le> a then a - b else 0)"

definition saturating_mul :: "'a::len word \<Rightarrow> 'a word \<Rightarrow> 'a word" where
  "saturating_mul a b = (if unat a * unat b < 2 ^ LENGTH('a) then a * b else - 1)"

definition checked_add :: "'a::len word \<Rightarrow> 'a word \<Rightarrow> 'a word option" where
  "checked_add a b = (if unat a + unat b < 2 ^ LENGTH('a) then Some (a + b) else None)"

definition count_ones :: "'a::len word \<Rightarrow> nat" where
  "count_ones w = length (filter (bit w) [0..<LENGTH('a)])"

definition is_power_of_two :: "'a::len word \<Rightarrow> bool" where
  "is_power_of_two w \<longleftrightarrow> count_ones w = 1"

section \<open>Little-endian fields\<close>

fun le_bytes :: "nat \<Rightarrow> nat \<Rightarrow> bytes" where
  "le_bytes 0 v = []"
| "le_bytes (Suc n) v = of_nat (v mod 256) # le_bytes n (v div 256)"

fun le_value :: "bytes \<Rightarrow> nat" where
  "le_value [] = 0"
| "le_value (b # bs) = unat b + 256 * le_value bs"

definition to_le_bytes :: "'a::len word \<Rightarrow> bytes" where
  "to_le_bytes w = le_bytes (LENGTH('a) div 8) (unat w)"

definition from_le_bytes :: "bytes \<Rightarrow> 'a::len word" where
  "from_le_bytes bs = of_nat (le_value bs)"

section \<open>Slices\<close>

text \<open>\<open>sub_slice xs i j\<close> is \<open>xs[i..j]\<close>; the uses below are within range.\<close>

definition sub_slice :: "'a list \<Rightarrow> nat \<Rightarrow> nat \<Rightarrow> 'a list" where
  "sub_slice xs i j = take (j - i) (drop i xs)"

text \<open>\<open>chunks n xs\<close> is \<open>slice::chunks\<close> for \<open>n > 0\<close>: pieces of \<open>n\<close>, the last one possibly short.\<close>

function chunks :: "nat \<Rightarrow> 'a list \<Rightarrow> 'a list list" where
  "chunks n xs = (if n = 0 \<or> xs = [] then [] else take n xs # chunks n (drop n xs))"
  by pat_completeness auto
termination
  by (relation "measure (\<lambda>(n, xs). length xs)") auto

declare chunks.simps [simp del]

text \<open>\<open>write_at xs off ys\<close> is a positional write: a gap past the end is filled with zeros.\<close>

definition write_at :: "bytes \<Rightarrow> nat \<Rightarrow> bytes \<Rightarrow> bytes" where
  "write_at xs off ys =
     take off xs @ replicate (off - length xs) 0 @ ys @ drop (off + length ys) xs"

section \<open>Proof collections\<close>

named_theorems wire_simps \<open>evaluation and round-trip rules of the wire encodings\<close>
named_theorems geom_simps \<open>word arithmetic of the chunk geometry, moved to the naturals\<close>

section \<open>Results\<close>

lemma result_ok_or_err: "(\<exists>x. r = Ok x) \<or> (\<exists>e. r = Err e)"
  by (cases r) auto

section \<open>Lemmas on words\<close>

lemma unat_less_exp: "unat (w :: 'a::len word) < 2 ^ LENGTH('a)"
  by (rule unsigned_less)

lemma nat_div_ceil:
  fixes a b :: nat
  assumes "0 < b"
  shows "(a + b - 1) div b = (if 0 < a mod b then a div b + 1 else a div b)"
proof -
  define q r where "q = a div b" and "r = a mod b"
  have a: "a = b * q + r" and lt: "r < b"
    using assms by (simp_all add: q_def r_def)
  have "(a + b - 1) div b = (if 0 < r then q + 1 else q)"
    using lt unfolding a by (intro div_nat_eqI) (auto simp: algebra_simps)
  then show ?thesis
    by (simp add: q_def r_def)
qed

lemma unat_div_ceil [geom_simps]:
  fixes a b :: "'a::len word"
  assumes "0 < unat b"
  shows "unat (div_ceil a b) = (unat a + unat b - 1) div unat b"
proof -
  have "unat a div unat b + 1 < 2 ^ LENGTH('a)" if r: "0 < unat a mod unat b"
  proof -
    have "unat b \<noteq> 1"
      using r by auto
    moreover have "unat a \<noteq> 0"
      using r by (metis less_irrefl mod_0)
    ultimately have "unat a div unat b < unat a"
      using assms by (intro div_less_dividend) auto
    then show ?thesis
      using unat_less_exp [of a] by linarith
  qed
  then show ?thesis
    using nat_div_ceil [OF assms, of "unat a"]
    by (simp add: div_ceil_def word_less_nat_alt unat_mod_distrib unat_div_distrib
        unat_word_ariths)
qed

lemma saturating_sub_nat [geom_simps]: "unat (saturating_sub a b) = unat a - unat b"
  by (simp add: saturating_sub_def word_le_nat_alt unat_sub)

lemma unat_saturating_mul [geom_simps]:
  fixes a b :: "'a::len word"
  shows "unat (saturating_mul a b) = min (unat a * unat b) (2 ^ LENGTH('a) - 1)"
proof (cases "unat a * unat b < 2 ^ LENGTH('a)")
  case True
  then show ?thesis
    by (simp add: saturating_mul_def unat_word_ariths)
next
  case False
  then show ?thesis
    by (simp add: saturating_mul_def unsigned_minus_1_eq_mask mask_eq_exp_minus_1)
qed

lemma checked_add_nat:
  fixes a b :: "'a::len word"
  shows "checked_add a b = Some c \<longleftrightarrow>
     unat a + unat b < 2 ^ LENGTH('a) \<and> unat c = unat a + unat b"
  by (auto simp: checked_add_def unat_word_ariths word_unat_eq_iff)

lemma unat_mult_exact:
  fixes a b :: "'a::len word"
  assumes "unat a * unat b < 2 ^ LENGTH('a)"
  shows "unat (a * b) = unat a * unat b"
  using assms by (simp add: unat_word_ariths)

lemma unat_add_exact:
  fixes a b :: "'a::len word"
  assumes "unat a + unat b < 2 ^ LENGTH('a)"
  shows "unat (a + b) = unat a + unat b"
  using assms by (simp add: unat_word_ariths)

lemma unat_sub_exact: "unat b \<le> unat a \<Longrightarrow> unat (a - b) = unat a - unat b"
  by (simp add: unat_sub word_le_nat_alt)

lemma unat_min [geom_simps]: "unat (min a b) = min (unat a) (unat b)"
  by (simp add: min_def word_le_nat_alt)

lemma unat_max [geom_simps]: "unat (max a b) = max (unat a) (unat b)"
  by (simp add: max_def word_le_nat_alt)

lemma unat_u32_as_u64 [geom_simps]: "unat (ucast (w :: u32) :: u64) = unat w"
proof -
  have "unat w < 2 ^ 64"
    using unat_less_exp [of w] by simp
  then show ?thesis
    by (simp add: unsigned_ucast_eq take_bit_nat_eq_self)
qed

lemma unat_of_nat_u64 [geom_simps]: "n < 2 ^ 64 \<Longrightarrow> unat (of_nat n :: u64) = n"
  by (simp add: unat_of_nat)

lemma unat_of_nat_u32 [geom_simps]: "n < 2 ^ 32 \<Longrightarrow> unat (of_nat n :: u32) = n"
  by (simp add: unat_of_nat)

section \<open>Lemmas on little-endian fields\<close>

lemma length_le_bytes [simp]: "length (le_bytes n v) = n"
  by (induction n arbitrary: v) auto

lemma length_to_le_bytes [wire_simps]:
  "length (to_le_bytes (w :: 'a::len word)) = LENGTH('a) div 8"
  by (simp add: to_le_bytes_def)

lemma le_value_less: "le_value bs < 256 ^ length bs"
proof (induction bs)
  case (Cons b bs)
  have "unat b < 256"
    using unat_less_exp [of b] by simp
  with Cons show ?case by simp
qed simp

lemma le_value_le_bytes: "le_value (le_bytes n v) = v mod 256 ^ n"
proof (induction n arbitrary: v)
  case (Suc n)
  have "unat (of_nat (v mod 256) :: u8) = v mod 256"
    by (simp add: unat_of_nat)
  with Suc show ?case
    by (simp add: mod_mult2_eq)
qed simp

lemma le_bytes_le_value: "le_bytes (length bs) (le_value bs) = bs"
proof (induction bs)
  case (Cons b bs)
  have "unat b < 256"
    using unat_less_exp [of b] by simp
  with Cons show ?case by simp
qed simp

lemma from_to_le_bytes [wire_simps]:
  assumes "LENGTH('a::len) mod 8 = 0"
  shows "from_le_bytes (to_le_bytes (w :: 'a word)) = w"
proof -
  have "(256::nat) ^ (LENGTH('a) div 8) = 2 ^ (8 * (LENGTH('a) div 8))"
    by (simp add: power_mult)
  also have "8 * (LENGTH('a) div 8) = LENGTH('a)"
    using assms by auto
  finally have "unat w < 256 ^ (LENGTH('a) div 8)"
    using unat_less_exp [of w] by simp
  then show ?thesis
    by (simp add: from_le_bytes_def to_le_bytes_def le_value_le_bytes)
qed

lemma to_from_le_bytes:
  assumes "LENGTH('a::len) = 8 * length bs"
  shows "to_le_bytes (from_le_bytes bs :: 'a word) = bs"
proof -
  have "le_value bs < 2 ^ LENGTH('a)"
    using le_value_less [of bs] assms by (simp add: power_mult)
  then have "unat (of_nat (le_value bs) :: 'a word) = le_value bs"
    by (simp add: unat_of_nat)
  then show ?thesis
    using assms by (simp add: from_le_bytes_def to_le_bytes_def le_bytes_le_value)
qed

section \<open>Lemmas on slices\<close>

lemma length_sub_slice [simp]: "length (sub_slice xs i j) = min (j - i) (length xs - i)"
  by (simp add: sub_slice_def)

lemma sub_slice_drop: "i \<le> j \<Longrightarrow> sub_slice xs i j @ drop j xs = drop i xs"
  by (metis append_take_drop_id drop_drop le_add_diff_inverse2 sub_slice_def)

lemma sub_slice_full: "j = length xs \<Longrightarrow> sub_slice xs 0 j = xs"
  by (simp add: sub_slice_def)

lemma sub_slice_append1 [wire_simps]:
  "length xs = i \<Longrightarrow> sub_slice (xs @ ys) i j = take (j - i) ys"
  by (simp add: sub_slice_def)

lemma sub_slice_join:
  "i \<le> j \<Longrightarrow> j \<le> k \<Longrightarrow> sub_slice xs i k = sub_slice xs i j @ sub_slice xs j k"
  using take_add [of "j - i" "k - j" "drop i xs"] by (simp add: sub_slice_def)

lemma sub_slice_1: "i < length xs \<Longrightarrow> sub_slice xs i (Suc i) = [xs ! i]"
  by (simp add: sub_slice_def take_Suc hd_drop_conv_nth)

lemma chunks_Nil [simp]: "chunks n [] = []"
  by (simp add: chunks.simps)

lemma chunks_unfold: "0 < n \<Longrightarrow> xs \<noteq> [] \<Longrightarrow> chunks n xs = take n xs # chunks n (drop n xs)"
  by (subst chunks.simps) simp

lemma concat_chunks: "0 < n \<Longrightarrow> concat (chunks n xs) = xs"
  by (induction n xs rule: chunks.induct) (subst chunks.simps, simp)

lemma chunks_nonempty: "p \<in> set (chunks n xs) \<Longrightarrow> p \<noteq> [] \<and> length p \<le> n"
proof (induction n xs rule: chunks.induct)
  case (1 n xs)
  show ?case
  proof (cases "n = 0 \<or> xs = []")
    case True
    then have "chunks n xs = []" by (simp add: chunks.simps)
    with "1.prems" show ?thesis by simp
  next
    case False
    then have "p = take n xs \<or> p \<in> set (chunks n (drop n xs))"
      using "1.prems" by (simp add: chunks_unfold)
    with False "1.IH" show ?thesis by auto
  qed
qed

lemma chunks_concat:
  assumes "0 < n" and "\<And>x. x \<in> set xs \<Longrightarrow> length x = n"
  shows "chunks n (concat xs) = xs"
  using assms
proof (induction xs)
  case (Cons x xs)
  then have "length x = n" and "x @ concat xs \<noteq> []" by auto
  with Cons show ?case by (simp add: chunks_unfold)
qed simp

section \<open>Lemmas on lists\<close>

lemma length_filter_list_update:
  assumes "i < length xs" "\<not> P (xs ! i)" "P v"
  shows "length (filter P (xs[i := v])) = Suc (length (filter P xs))"
  using assms
proof (induction xs arbitrary: i)
  case (Cons x xs)
  then show ?case by (cases i) auto
qed simp

lemma length_filter_full_iff: "length (filter P xs) = length xs \<longleftrightarrow> (\<forall>x \<in> set xs. P x)"
  by (metis filter_id_conv length_filter_less less_irrefl)

lemma foldl_append: "foldl (@) acc xss = acc @ concat xss"
  by (induction xss arbitrary: acc) auto

lemma concat_inject_fixed:
  assumes "concat xs = concat ys" "length xs = length ys"
    and "\<And>x. x \<in> set xs \<union> set ys \<Longrightarrow> length x = n"
  shows "xs = ys"
  using assms(2,1,3)
proof (induction xs ys rule: list_induct2)
  case (Cons x xs y ys)
  then have "length x = length y" by auto
  with Cons show ?case by auto
qed simp

section \<open>Lemmas on positional writes\<close>

lemma length_write_at: "length (write_at xs off ys) = max (length xs) (off + length ys)"
  by (auto simp: write_at_def)

lemma write_at_within:
  "off + length ys \<le> length xs \<Longrightarrow>
   write_at xs off ys = take off xs @ ys @ drop (off + length ys) xs"
  by (simp add: write_at_def)

lemma sub_slice_write_at_same:
  assumes "off + length ys \<le> length xs"
  shows "sub_slice (write_at xs off ys) off (off + length ys) = ys"
  using assms by (simp add: write_at_within sub_slice_def)

lemma sub_slice_write_at_other:
  assumes "off + length ys \<le> length xs" and "j \<le> off \<or> off + length ys \<le> i"
  shows "sub_slice (write_at xs off ys) i j = sub_slice xs i j"
proof (rule nth_equalityI)
  show "length (sub_slice (write_at xs off ys) i j) = length (sub_slice xs i j)"
    using assms(1) by (simp add: length_write_at)
next
  fix k assume "k < length (sub_slice (write_at xs off ys) i j)"
  then have k: "k < j - i" "i + k < length xs"
    using assms(1) by (auto simp: length_write_at)
  show "sub_slice (write_at xs off ys) i j ! k = sub_slice xs i j ! k"
    using assms k by (auto simp: sub_slice_def write_at_within nth_append)
qed

section \<open>Interface: invariants of step functions\<close>

text \<open>
  A component whose operations are steps on a state, and a predicate that every step keeps: it holds
  after every sequence of steps, and so does everything the predicate implies.
\<close>

locale invariant_system =
  fixes step :: "'a \<Rightarrow> 's \<Rightarrow> 's" and inv :: "'s \<Rightarrow> bool"
  assumes inv_step: "inv s \<Longrightarrow> inv (step a s)"
begin

lemma inv_run: "inv s \<Longrightarrow> inv (fold step as s)"
  by (induction as arbitrary: s) (auto intro: inv_step)

lemma inv_prefix: "inv s \<Longrightarrow> as = bs @ cs \<Longrightarrow> inv (fold step bs s) \<and> inv (fold step as s)"
  by (simp add: inv_run)

end

end
