(* ===== verification/Errors.thy ===== *)
theory Errors
  imports Prelude
begin

text \<open>
  The error values of the two library crates.  \<open>wire_error\<close> is \<open>aetherlink_proto::Error\<close>,
  \<open>core_error\<close> is \<open>aetherlink_core::Error\<close>.  A message that the source builds with
  \<open>format!\<close> is kept as its template and its numeric and string arguments (type \<open>msg_text\<close>); the
  rendering of operating-system errors and of whole messages inside a template is left out.  A
  \<open>usize\<close> is a natural number: it only ever counts bytes or files held in memory.
\<close>

section \<open>Errors of the wire-protocol crate\<close>

datatype wire_error =
    ShortHeader nat
  | BadMagic u16
  | UnsupportedVersion u8
  | UnknownMessageType u8
  | UnknownFlags u16
  | ReservedNotZero
  | FrameTooLarge u32
  | KeepaliveWithPayload u32
  | InvalidChunkSize u32
  | ChunkOutOfRange u64 u64
  | OffsetOutOfRange u64 u64
  | ChunkHashConflict u64
  | BitmapLengthMismatch nat nat
  | BitmapPaddingSet
  | ManifestTooLarge nat
  | DuplicateFileId u64
  | DuplicatePath string
  | UnsafePath string string

section \<open>Message texts and errors of the engine crate\<close>

datatype text_arg = TNum nat | TStr string

datatype msg_text = Fmt string "text_arg list" | Display wire_error

datatype core_error =
    Protocol msg_text
  | Tls msg_text
  | Io msg_text
  | Wire wire_error
  | ChunkVerificationFailed u64
  | Incomplete msg_text
  | PeerAborted msg_text

text \<open>The \<open>?\<close> operator on a result of the protocol crate: \<open>From<aetherlink_proto::Error>\<close>.\<close>

fun lift_wire :: "('a, wire_error) result \<Rightarrow> ('a, core_error) result" where
  "lift_wire (Ok x) = Ok x"
| "lift_wire (Err e) = Err (Wire e)"

lemma lift_wire_eq_Ok [simp]: "lift_wire r = Ok x \<longleftrightarrow> r = Ok x"
  by (cases r) auto

lemma lift_wire_eq_Err [simp]: "lift_wire r = Err e \<longleftrightarrow> (\<exists>w. r = Err w \<and> e = Wire w)"
  by (cases r) auto

end
