(* ===== verification/Frame.thy ===== *)
theory Frame
  imports Errors
begin

text \<open>
  The fixed 32-byte frame header of \<open>aetherlink-proto/src/frame.rs\<close>: message types, flags, the
  encoder that fills a caller's buffer, the decoder with every check in the order of the source, and
  the overflow-checked end offset.  The lemmas show that the decoder accepts exactly the encodings of
  well-formed headers.
\<close>

section \<open>Constants and types\<close>

definition MAGIC :: u16 where "MAGIC = 0xAE10"
definition PROTOCOL_VERSION :: u8 where "PROTOCOL_VERSION = 1"
definition HEADER_LEN :: nat where "HEADER_LEN = 32"
definition DEFAULT_FRAME_PAYLOAD :: u32 where "DEFAULT_FRAME_PAYLOAD = 256 * 1024"
definition MAX_FRAME_PAYLOAD :: u32 where "MAX_FRAME_PAYLOAD = 8 * 1024 * 1024"

datatype msg_type = Control | FileData | FileEnd | Keepalive

fun msg_type_as_u8 :: "msg_type \<Rightarrow> u8" where
  "msg_type_as_u8 Control = 0"
| "msg_type_as_u8 FileData = 1"
| "msg_type_as_u8 FileEnd = 2"
| "msg_type_as_u8 Keepalive = 3"

definition msg_type_from_u8 :: "u8 \<Rightarrow> (msg_type, wire_error) result" where
  "msg_type_from_u8 v =
     (if v = 0 then Ok Control
      else if v = 1 then Ok FileData
      else if v = 2 then Ok FileEnd
      else if v = 3 then Ok Keepalive
      else Err (UnknownMessageType v))"

datatype flags = Flags (flag_bits: u16)

definition FLAGS_NONE :: flags where "FLAGS_NONE = Flags 0"
definition END_OF_FILE :: flags where "END_OF_FILE = Flags (push_bit 0 1)"
definition FLAGS_KNOWN :: u16 where "FLAGS_KNOWN = push_bit 0 1"

definition flags_contains :: "flags \<Rightarrow> flags \<Rightarrow> bool" where
  "flags_contains f g \<longleftrightarrow> flag_bits f AND flag_bits g = flag_bits g"

definition flags_union :: "flags \<Rightarrow> flags \<Rightarrow> flags" where
  "flags_union f g = Flags (flag_bits f OR flag_bits g)"

record frame_header =
  fh_msg_type :: msg_type
  fh_flags :: flags
  fh_file_id :: u64
  fh_offset :: u64
  fh_length :: u32

section \<open>Operations\<close>

definition frame_new :: "msg_type \<Rightarrow> u64 \<Rightarrow> u64 \<Rightarrow> u32 \<Rightarrow> frame_header" where
  "frame_new t file_id offset len =
     \<lparr>fh_msg_type = t, fh_flags = FLAGS_NONE, fh_file_id = file_id, fh_offset = offset,
      fh_length = len\<rparr>"

definition with_flags :: "frame_header \<Rightarrow> flags \<Rightarrow> frame_header" where
  "with_flags h f = h\<lparr>fh_flags := f\<rparr>"

text \<open>\<open>out[i..i + src.len()].copy_from_slice(src)\<close>.\<close>

definition copy_from_slice :: "bytes \<Rightarrow> nat \<Rightarrow> bytes \<Rightarrow> bytes" where
  "copy_from_slice out i src = take i out @ src @ drop (i + length src) out"

definition encode :: "frame_header \<Rightarrow> bytes \<Rightarrow> bytes" where
  "encode h out0 =
     (let out = copy_from_slice out0 0 (to_le_bytes MAGIC);
          out = out[2 := PROTOCOL_VERSION];
          out = out[3 := msg_type_as_u8 (fh_msg_type h)];
          out = copy_from_slice out 4 (to_le_bytes (flag_bits (fh_flags h)));
          out = copy_from_slice out 6 (to_le_bytes (0 :: u16));
          out = copy_from_slice out 8 (to_le_bytes (fh_file_id h));
          out = copy_from_slice out 16 (to_le_bytes (fh_offset h));
          out = copy_from_slice out 24 (to_le_bytes (fh_length h))
      in copy_from_slice out 28 (to_le_bytes (0 :: u32)))"

definition to_bytes :: "frame_header \<Rightarrow> bytes" where
  "to_bytes h = encode h (replicate HEADER_LEN 0)"

definition decode :: "bytes \<Rightarrow> (frame_header, wire_error) result" where
  "decode buf =
     (if length buf < HEADER_LEN then Err (ShortHeader (length buf)) else
      let magic = (from_le_bytes [buf ! 0, buf ! 1] :: u16) in
      if magic \<noteq> MAGIC then Err (BadMagic magic) else
      let version = buf ! 2 in
      if version \<noteq> PROTOCOL_VERSION then Err (UnsupportedVersion version) else
      case msg_type_from_u8 (buf ! 3) of
        Err e \<Rightarrow> Err e
      | Ok t \<Rightarrow>
      let raw_flags = (from_le_bytes [buf ! 4, buf ! 5] :: u16) in
      if raw_flags AND NOT FLAGS_KNOWN \<noteq> 0 then Err (UnknownFlags raw_flags) else
      if (from_le_bytes [buf ! 6, buf ! 7] :: u16) \<noteq> 0
         \<or> (from_le_bytes [buf ! 28, buf ! 29, buf ! 30, buf ! 31] :: u32) \<noteq> 0
      then Err ReservedNotZero else
      let len = (from_le_bytes [buf ! 24, buf ! 25, buf ! 26, buf ! 27] :: u32) in
      if MAX_FRAME_PAYLOAD < len then Err (FrameTooLarge len) else
      if t = Keepalive \<and> len \<noteq> 0 then Err (KeepaliveWithPayload len) else
      Ok \<lparr>fh_msg_type = t, fh_flags = Flags raw_flags,
          fh_file_id = from_le_bytes (sub_slice buf 8 16),
          fh_offset = from_le_bytes (sub_slice buf 16 24),
          fh_length = len\<rparr>)"

definition end_offset :: "frame_header \<Rightarrow> u64 option" where
  "end_offset h = checked_add (fh_offset h) (ucast (fh_length h))"

text \<open>Specification: the headers a peer may put on the wire.\<close>

definition wf_header :: "frame_header \<Rightarrow> bool" where
  "wf_header h \<longleftrightarrow>
     flag_bits (fh_flags h) AND NOT FLAGS_KNOWN = 0
     \<and> fh_length h \<le> MAX_FRAME_PAYLOAD
     \<and> (fh_msg_type h = Keepalive \<longrightarrow> fh_length h = 0)"

section \<open>Fixed-width fields\<close>

text \<open>
  The contract of one fixed-width field: an encoder of constant width and its decoder are inverse to
  each other on strings of that width.  A field is read back from the middle of a buffer without
  looking at its neighbours.
\<close>

locale fixed_field =
  fixes enc :: "'v \<Rightarrow> bytes" and dec :: "bytes \<Rightarrow> 'v" and width :: nat
  assumes length_enc: "length (enc v) = width"
    and dec_enc: "dec (enc v) = v"
    and enc_dec: "length bs = width \<Longrightarrow> enc (dec bs) = bs"
begin

lemma dec_eq_iff: "length bs = width \<Longrightarrow> dec bs = v \<longleftrightarrow> bs = enc v"
  using dec_enc enc_dec by auto

lemma read_back: "i = length pre \<Longrightarrow> j = i + width \<Longrightarrow> dec (sub_slice (pre @ enc v @ rest) i j) = v"
  by (simp add: sub_slice_def length_enc dec_enc)

lemma enc_inject: "enc v = enc w \<longleftrightarrow> v = w"
  using dec_enc by metis

end

interpretation u16_field: fixed_field "to_le_bytes :: u16 \<Rightarrow> bytes" from_le_bytes 2
  by unfold_locales (simp_all add: wire_simps to_from_le_bytes)

interpretation u32_field: fixed_field "to_le_bytes :: u32 \<Rightarrow> bytes" from_le_bytes 4
  by unfold_locales (simp_all add: wire_simps to_from_le_bytes)

interpretation u64_field: fixed_field "to_le_bytes :: u64 \<Rightarrow> bytes" from_le_bytes 8
  by unfold_locales (simp_all add: wire_simps to_from_le_bytes)

lemmas field_lengths = u16_field.length_enc u32_field.length_enc u64_field.length_enc

section \<open>Lemmas\<close>

lemma msg_type_from_u8_iff: "msg_type_from_u8 v = Ok t \<longleftrightarrow> v = msg_type_as_u8 t"
  by (cases t) (auto simp: msg_type_from_u8_def)

text \<open>Writes that advance through a buffer leave the written prefix and the untouched rest.\<close>

lemma copy_first: "copy_from_slice out 0 src = src @ drop (length src) out"
  by (simp add: copy_from_slice_def)

lemma copy_next:
  "length pre = i \<Longrightarrow>
   copy_from_slice (pre @ drop i out) i src = (pre @ src) @ drop (i + length src) out"
  by (simp add: copy_from_slice_def add.commute)

lemma store_next:
  "length pre = i \<Longrightarrow> i < length out \<Longrightarrow>
   (pre @ drop i out)[i := v] = (pre @ [v]) @ drop (i + 1) out"
  by (simp add: list_update_append Cons_nth_drop_Suc [symmetric])

text \<open>The encoder overwrites the whole buffer: its result is the concatenation of the fields.\<close>

lemma encode_layout:
  assumes "length out = HEADER_LEN"
  shows "encode h out =
     to_le_bytes MAGIC @ [PROTOCOL_VERSION, msg_type_as_u8 (fh_msg_type h)]
     @ to_le_bytes (flag_bits (fh_flags h)) @ to_le_bytes (0 :: u16)
     @ to_le_bytes (fh_file_id h) @ to_le_bytes (fh_offset h) @ to_le_bytes (fh_length h)
     @ to_le_bytes (0 :: u32)"
  using assms
  by (simp add: encode_def HEADER_LEN_def Let_def field_lengths copy_first copy_next store_next
      del: append_assoc)

lemma to_bytes_layout:
  "to_bytes h =
     to_le_bytes MAGIC @ [PROTOCOL_VERSION, msg_type_as_u8 (fh_msg_type h)]
     @ to_le_bytes (flag_bits (fh_flags h)) @ to_le_bytes (0 :: u16)
     @ to_le_bytes (fh_file_id h) @ to_le_bytes (fh_offset h) @ to_le_bytes (fh_length h)
     @ to_le_bytes (0 :: u32)"
  by (simp add: to_bytes_def encode_layout)

lemma length_to_bytes [simp]: "length (to_bytes h) = HEADER_LEN"
  by (simp add: to_bytes_layout field_lengths HEADER_LEN_def)

lemma header_split:
  assumes "HEADER_LEN \<le> length buf"
  shows "take HEADER_LEN buf =
     sub_slice buf 0 2 @ [buf ! 2, buf ! 3] @ sub_slice buf 4 6 @ sub_slice buf 6 8
     @ sub_slice buf 8 16 @ sub_slice buf 16 24 @ sub_slice buf 24 28 @ sub_slice buf 28 32"
proof -
  have "take HEADER_LEN buf = sub_slice buf 0 32"
    by (simp add: sub_slice_def HEADER_LEN_def)
  also have "\<dots> = sub_slice buf 0 2 @ sub_slice buf 2 3 @ sub_slice buf 3 4 @ sub_slice buf 4 6
     @ sub_slice buf 6 8 @ sub_slice buf 8 16 @ sub_slice buf 16 24 @ sub_slice buf 24 28
     @ sub_slice buf 28 32"
    by (simp flip: sub_slice_join)
  finally show ?thesis
    using assms sub_slice_1 [of 2 buf] sub_slice_1 [of 3 buf] by (simp add: HEADER_LEN_def)
qed


lemma bytes_of_slices:
  assumes "HEADER_LEN \<le> length buf"
  shows "[buf ! 0, buf ! Suc 0] = sub_slice buf 0 2" "[buf ! 4, buf ! 5] = sub_slice buf 4 6"
    "[buf ! 6, buf ! 7] = sub_slice buf 6 8"
    "[buf ! 24, buf ! 25, buf ! 26, buf ! 27] = sub_slice buf 24 28"
    "[buf ! 28, buf ! 29, buf ! 30, buf ! 31] = sub_slice buf 28 32"
proof -
  have one: "sub_slice buf i (Suc i) = [buf ! i]" if "i < 32" for i
    using assms that by (simp add: sub_slice_1 HEADER_LEN_def)
  show "[buf ! 0, buf ! Suc 0] = sub_slice buf 0 2" "[buf ! 4, buf ! 5] = sub_slice buf 4 6"
    "[buf ! 6, buf ! 7] = sub_slice buf 6 8"
    using sub_slice_join [of 0 1 2 buf] sub_slice_join [of 4 5 6 buf] sub_slice_join [of 6 7 8 buf]
      one [of 0] one [of 1] one [of 4] one [of 5] one [of 6] one [of 7]
    by (simp_all add: numeral_2_eq_2)
  show "[buf ! 24, buf ! 25, buf ! 26, buf ! 27] = sub_slice buf 24 28"
    using sub_slice_join [of 24 25 28 buf] sub_slice_join [of 25 26 28 buf]
      sub_slice_join [of 26 27 28 buf] one [of 24] one [of 25] one [of 26] one [of 27] by simp
  show "[buf ! 28, buf ! 29, buf ! 30, buf ! 31] = sub_slice buf 28 32"
    using sub_slice_join [of 28 29 32 buf] sub_slice_join [of 29 30 32 buf]
      sub_slice_join [of 30 31 32 buf] one [of 28] one [of 29] one [of 30] one [of 31] by simp
qed

text \<open>The decoder, field by field: what each check demands of the buffer.\<close>

lemma decode_Ok_fields:
  "decode buf = Ok h \<longleftrightarrow>
     HEADER_LEN \<le> length buf \<and> from_le_bytes (sub_slice buf 0 2) = MAGIC
     \<and> buf ! 2 = PROTOCOL_VERSION \<and> buf ! 3 = msg_type_as_u8 (fh_msg_type h)
     \<and> from_le_bytes (sub_slice buf 4 6) = flag_bits (fh_flags h)
     \<and> from_le_bytes (sub_slice buf 6 8) = (0 :: u16)
     \<and> from_le_bytes (sub_slice buf 8 16) = fh_file_id h
     \<and> from_le_bytes (sub_slice buf 16 24) = fh_offset h
     \<and> from_le_bytes (sub_slice buf 24 28) = fh_length h
     \<and> from_le_bytes (sub_slice buf 28 32) = (0 :: u32) \<and> wf_header h" (is "?L \<longleftrightarrow> ?R")
proof (cases "HEADER_LEN \<le> length buf")
  case True
  note s = bytes_of_slices [OF True]
  show ?thesis
  proof
    assume ?L
    then show ?R
      using True
      by (auto simp: decode_def Let_def s wf_header_def msg_type_from_u8_iff not_less
          split: if_splits result.splits)
  next
    assume R: ?R
    then have "msg_type_from_u8 (buf ! 3) = Ok (fh_msg_type h)"
      by (simp add: msg_type_from_u8_iff)
    with R True show ?L
      by (auto simp: decode_def Let_def s wf_header_def not_less)
  qed
qed (simp add: decode_def)

lemma decode_accepts:
  "decode buf = Ok h \<longleftrightarrow> wf_header h \<and> take HEADER_LEN buf = to_bytes h"
proof (cases "HEADER_LEN \<le> length buf")
  case True
  then have lens: "length (sub_slice buf 0 2) = 2" "length (sub_slice buf 4 6) = 2"
    "length (sub_slice buf 6 8) = 2" "length (sub_slice buf 8 16) = 8"
    "length (sub_slice buf 16 24) = 8" "length (sub_slice buf 24 28) = 4"
    "length (sub_slice buf 28 32) = 4"
    by (auto simp: HEADER_LEN_def)
  have "take HEADER_LEN buf = to_bytes h \<longleftrightarrow>
     sub_slice buf 0 2 = to_le_bytes MAGIC \<and> buf ! 2 = PROTOCOL_VERSION
     \<and> buf ! 3 = msg_type_as_u8 (fh_msg_type h)
     \<and> sub_slice buf 4 6 = to_le_bytes (flag_bits (fh_flags h))
     \<and> sub_slice buf 6 8 = to_le_bytes (0 :: u16) \<and> sub_slice buf 8 16 = to_le_bytes (fh_file_id h)
     \<and> sub_slice buf 16 24 = to_le_bytes (fh_offset h)
     \<and> sub_slice buf 24 28 = to_le_bytes (fh_length h)
     \<and> sub_slice buf 28 32 = to_le_bytes (0 :: u32)"
    by (simp add: header_split [OF True] to_bytes_layout lens field_lengths append_eq_append_conv
        del: length_sub_slice)
  with True show ?thesis
    by (auto simp: decode_Ok_fields u16_field.dec_eq_iff u32_field.dec_eq_iff
        u64_field.dec_eq_iff lens simp del: length_sub_slice)
next
  case False
  then have "take HEADER_LEN buf \<noteq> to_bytes h"
    by (metis length_take length_to_bytes min.absorb_iff2 min.commute)
  with False show ?thesis
    by (simp add: decode_def)
qed

section \<open>Properties\<close>

text \<open>
  C19: the decoder accepts a buffer and returns header \<open>h\<close> exactly when \<open>h\<close> is a header the
  protocol allows and the first 32 bytes are its encoding.  So decoding inverts encoding, the encoding
  is canonical, and an accepted length never exceeds the 8 MiB bound on the payload allocation.
\<close>

theorem decode_exact:
  "decode buf = Ok h \<longleftrightarrow> wf_header h \<and> take HEADER_LEN buf = to_bytes h"
  by (rule decode_accepts)

text \<open>
  Encoding into any caller-supplied 32-byte buffer overwrites all of it, so the frame that is
  followed by its payload on the stream decodes to the header that was encoded.
\<close>

theorem encode_decode:
  assumes "wf_header h" and "length out = HEADER_LEN"
  shows "decode (encode h out @ payload) = Ok h"
proof -
  have "encode h out = to_bytes h"
    using assms(2) by (simp add: encode_layout to_bytes_layout)
  with assms(1) show ?thesis
    by (simp add: decode_accepts)
qed

theorem encode_decode_witness:
  "wf_header (frame_new FileData 7 65536 3) \<and> length (replicate 32 (255 :: u8)) = HEADER_LEN
   \<and> decode (encode (frame_new FileData 7 65536 3) (replicate 32 255) @ [1, 2, 3]) =
     Ok (frame_new FileData 7 65536 3)"
proof -
  have h: "wf_header (frame_new FileData 7 65536 3)" "length (replicate 32 (255 :: u8)) = HEADER_LEN"
    by (simp_all add: wf_header_def frame_new_def FLAGS_NONE_def MAX_FRAME_PAYLOAD_def HEADER_LEN_def)
  from encode_decode [OF h, of "[1, 2, 3]"] h show ?thesis by blast
qed

text \<open>
  The end offset of a frame is the exact sum of offset and length when it fits 64 bits and
  \<open>None\<close> otherwise; it never wraps around.
\<close>

theorem end_offset_exact:
  "end_offset h =
     (let e = unat (fh_offset h) + unat (fh_length h) in if e < 2 ^ 64 then Some (of_nat e) else None)"
  by (simp add: end_offset_def checked_add_def geom_simps Let_def)

end
