(* ===== verification/Chunk.thy ===== *)
theory Chunk
  imports Frame
begin

text \<open>
  Chunk geometry and the file root of \<open>aetherlink-proto/src/chunk.rs\<close>.  BLAKE3 is a third-party
  crate: it is the argument \<open>blake3\<close> of every definition that hashes.  The lemmas show that the
  chunks of a layout tile the file, that \<open>index_of\<close> inverts \<open>range\<close>, that no product or
  difference in the geometry wraps around, and that \<open>ChunkHashSet\<close> computes the in-order root
  whatever order the hashes arrive in.
\<close>

section \<open>Constants and types\<close>

definition DEFAULT_CHUNK_SIZE :: u32 where "DEFAULT_CHUNK_SIZE = 4 * 1024 * 1024"
definition MIN_CHUNK_SIZE :: u32 where "MIN_CHUNK_SIZE = 64 * 1024"
definition MAX_CHUNK_SIZE :: u32 where "MAX_CHUNK_SIZE = 64 * 1024 * 1024"

text \<open>The bytes of the string literal \<open>"aetherlink.file-root.v1"\<close>.\<close>

definition ascii_bytes :: "string \<Rightarrow> bytes" where
  "ascii_bytes s = map of_char s"

definition ROOT_DOMAIN :: bytes where
  "ROOT_DOMAIN = ascii_bytes ''aetherlink.file-root.v1''"

text \<open>A \<open>[u8; 32]\<close>: the length is a law of the hash function, stated where it is needed.\<close>

type_synonym hash = bytes

record chunk_layout =
  cl_file_size :: u64
  cl_chunk_size :: u32
  cl_count :: u64

section \<open>Chunk layout\<close>

definition layout_new :: "u64 \<Rightarrow> u32 \<Rightarrow> (chunk_layout, wire_error) result" where
  "layout_new file_size chunk_size =
     (if \<not> (MIN_CHUNK_SIZE \<le> chunk_size \<and> chunk_size \<le> MAX_CHUNK_SIZE)
      then Err (InvalidChunkSize chunk_size)
      else if \<not> is_power_of_two chunk_size then Err (InvalidChunkSize chunk_size)
      else let cs = (ucast chunk_size :: u64) in
        Ok \<lparr>cl_file_size = file_size, cl_chunk_size = chunk_size,
            cl_count = div_ceil file_size cs\<rparr>)"

definition layout_range :: "chunk_layout \<Rightarrow> u64 \<Rightarrow> (u64 \<times> u32, wire_error) result" where
  "layout_range l index =
     (if cl_count l \<le> index then Err (ChunkOutOfRange index (cl_count l))
      else let offset = index * ucast (cl_chunk_size l);
               len = (ucast (min (cl_file_size l - offset) (ucast (cl_chunk_size l))) :: u32)
           in Ok (offset, len))"

definition index_of :: "chunk_layout \<Rightarrow> u64 \<Rightarrow> (u64, wire_error) result" where
  "index_of l offset =
     (if cl_file_size l \<le> offset then Err (OffsetOutOfRange offset (cl_file_size l))
      else Ok (offset div ucast (cl_chunk_size l)))"

section \<open>Hashing\<close>

definition hash_chunk :: "(bytes \<Rightarrow> hash) \<Rightarrow> bytes \<Rightarrow> hash" where
  "hash_chunk blake3 bs = blake3 bs"

text \<open>\<open>Hasher::update\<close> appends to the hashed input, \<open>finalize\<close> hashes what was appended.\<close>

definition root_from_chunk_hashes :: "(bytes \<Rightarrow> hash) \<Rightarrow> hash list \<Rightarrow> hash" where
  "root_from_chunk_hashes blake3 hs =
     (let hasher = ROOT_DOMAIN;
          hasher = hasher @ to_le_bytes (of_nat (length hs) :: u64);
          hasher = foldl (@) hasher hs
      in blake3 hasher)"

record chunk_hash_set =
  hs_hashes :: "hash option list"
  hs_filled :: u64

definition hash_set_new :: "u64 \<Rightarrow> chunk_hash_set" where
  "hash_set_new n = \<lparr>hs_hashes = replicate (unat n) None, hs_filled = 0\<rparr>"

definition hash_set_insert ::
    "chunk_hash_set \<Rightarrow> u64 \<Rightarrow> hash \<Rightarrow> (chunk_hash_set, wire_error) result" where
  "hash_set_insert s index h =
     (if length (hs_hashes s) \<le> unat index
      then Err (ChunkOutOfRange index (of_nat (length (hs_hashes s))))
      else case hs_hashes s ! unat index of
        Some existing \<Rightarrow> if existing = h then Ok s else Err (ChunkHashConflict index)
      | None \<Rightarrow> Ok \<lparr>hs_hashes = (hs_hashes s)[unat index := Some h],
                    hs_filled = hs_filled s + 1\<rparr>)"

definition hash_set_is_complete :: "chunk_hash_set \<Rightarrow> bool" where
  "hash_set_is_complete s \<longleftrightarrow> hs_filled s = of_nat (length (hs_hashes s))"

definition hash_set_root :: "(bytes \<Rightarrow> hash) \<Rightarrow> chunk_hash_set \<Rightarrow> hash option" where
  "hash_set_root blake3 s =
     (if \<not> hash_set_is_complete s then None
      else Some (root_from_chunk_hashes blake3 (map the (hs_hashes s))))"

text \<open>A sequence of insertions, as the stream workers perform them.\<close>

fun hash_set_insert_all ::
    "chunk_hash_set \<Rightarrow> (u64 \<times> hash) list \<Rightarrow> (chunk_hash_set, wire_error) result" where
  "hash_set_insert_all s [] = Ok s"
| "hash_set_insert_all s ((i, h) # xs) =
     (case hash_set_insert s i h of Err e \<Rightarrow> Err e | Ok s' \<Rightarrow> hash_set_insert_all s' xs)"

section \<open>Invariants\<close>

text \<open>Two inputs with the same hash: the case that every statement about hashes leaves open.\<close>

definition collision :: "(bytes \<Rightarrow> hash) \<Rightarrow> bool" where
  "collision blake3 \<longleftrightarrow> (\<exists>x y. x \<noteq> y \<and> blake3 x = blake3 y)"

text \<open>What \<open>ChunkLayout::new\<close> establishes.\<close>

definition layout_ok :: "chunk_layout \<Rightarrow> bool" where
  "layout_ok l \<longleftrightarrow> layout_new (cl_file_size l) (cl_chunk_size l) = Ok l"

definition hash_set_ok :: "chunk_hash_set \<Rightarrow> bool" where
  "hash_set_ok s \<longleftrightarrow> length (hs_hashes s) < 2 ^ 64
     \<and> unat (hs_filled s) = length (filter (\<lambda>x. x \<noteq> None) (hs_hashes s))"

section \<open>Lemmas on the geometry\<close>

text \<open>The layout read on natural numbers: chunk size, number of chunks, file size.\<close>

abbreviation csize :: "chunk_layout \<Rightarrow> nat" where "csize l \<equiv> unat (cl_chunk_size l)"
abbreviation ccount :: "chunk_layout \<Rightarrow> nat" where "ccount l \<equiv> unat (cl_count l)"
abbreviation fsize :: "chunk_layout \<Rightarrow> nat" where "fsize l \<equiv> unat (cl_file_size l)"

lemma layout_new_ok: "layout_new fs cs = Ok l \<Longrightarrow>
    layout_ok l \<and> cl_file_size l = fs \<and> cl_chunk_size l = cs"
  by (auto simp: layout_ok_def layout_new_def Let_def split: if_splits)

lemma layout_okD:
  assumes "layout_ok l"
  shows "2 ^ 16 \<le> csize l" "csize l \<le> 2 ^ 26" "0 < csize l" "is_power_of_two (cl_chunk_size l)"
    "ccount l = (fsize l + csize l - 1) div csize l"
proof -
  have a: "MIN_CHUNK_SIZE \<le> cl_chunk_size l" "cl_chunk_size l \<le> MAX_CHUNK_SIZE"
    "is_power_of_two (cl_chunk_size l)"
    "cl_count l = div_ceil (cl_file_size l) (ucast (cl_chunk_size l))"
    using assms by (cases l, auto simp: layout_ok_def layout_new_def Let_def split: if_splits)+
  show b: "2 ^ 16 \<le> csize l" "csize l \<le> 2 ^ 26" "is_power_of_two (cl_chunk_size l)"
    using a by (simp_all add: MIN_CHUNK_SIZE_def MAX_CHUNK_SIZE_def word_le_nat_alt)
  from b(1) show "0 < csize l"
    by simp
  then show "ccount l = (fsize l + csize l - 1) div csize l"
    by (simp add: a geom_simps)
qed

text \<open>Specification of the geometry: start and length of chunk \<open>i\<close>, and its bytes in the file.\<close>

definition chunk_start :: "chunk_layout \<Rightarrow> nat \<Rightarrow> nat" where
  "chunk_start l i = i * csize l"

definition chunk_len :: "chunk_layout \<Rightarrow> nat \<Rightarrow> nat" where
  "chunk_len l i = min (csize l) (fsize l - chunk_start l i)"

definition chunk_of :: "chunk_layout \<Rightarrow> bytes \<Rightarrow> nat \<Rightarrow> bytes" where
  "chunk_of l d i = sub_slice d (chunk_start l i) (chunk_start l i + chunk_len l i)"

lemma nat_less_div_ceil: "0 < c \<Longrightarrow> i < (f + c - 1) div c \<longleftrightarrow> i * c < (f :: nat)"
  using less_eq_div_iff_mult_less_eq [of c "Suc i" "f + c - 1"] by (auto simp: less_eq_Suc_le)

lemma nat_div_eq_iff: "0 < c \<Longrightarrow> n div c = q \<longleftrightarrow> q * c \<le> n \<and> n < q * c + (c :: nat)"
  using div_times_less_eq_dividend [of n c] dividend_less_div_times [of c n]
  by (auto intro!: div_nat_eqI simp: algebra_simps)

lemma index_less_count: "layout_ok l \<Longrightarrow> i < ccount l \<longleftrightarrow> chunk_start l i < fsize l"
  by (simp add: layout_okD(5) nat_less_div_ceil [OF layout_okD(3)] chunk_start_def
      del: One_nat_def)

lemma chunk_len_bounds:
  assumes "layout_ok l" and "i < ccount l"
  shows "0 < chunk_len l i" "chunk_len l i \<le> csize l"
    "chunk_start l i + chunk_len l i \<le> fsize l"
  using assms layout_okD(3) [OF assms(1)] by (auto simp: index_less_count chunk_len_def)

lemma chunk_next: "chunk_start l i + csize l = chunk_start l (Suc i)"
  by (simp add: chunk_start_def)

lemma chunk_end_le: "chunk_start l i + chunk_len l i \<le> chunk_start l (Suc i)"
  by (simp add: chunk_start_def chunk_len_def)

lemma chunk_start_mono: "i \<le> j \<Longrightarrow> chunk_start l i \<le> chunk_start l j"
  by (simp add: chunk_start_def)

lemma chunks_disjoint:
  assumes "i \<noteq> j"
  shows "chunk_start l j + chunk_len l j \<le> chunk_start l i
     \<or> chunk_start l i + chunk_len l i \<le> chunk_start l j"
proof (cases "i < j")
  case True
  then show ?thesis
    using chunk_end_le [of l i] chunk_start_mono [of "Suc i" j l] by linarith
next
  case False
  with assms show ?thesis
    using chunk_end_le [of l j] chunk_start_mono [of "Suc j" i l] by linarith
qed

text \<open>The machine arithmetic of \<open>range\<close> computes exactly the specified geometry.\<close>

lemma layout_range_Ok:
  assumes "layout_ok l"
  shows "layout_range l i = Ok (off, len) \<longleftrightarrow>
     unat i < ccount l \<and> unat off = chunk_start l (unat i) \<and> unat len = chunk_len l (unat i)"
proof (cases "unat i < ccount l")
  case False
  then show ?thesis
    by (simp add: layout_range_def word_le_nat_alt)
next
  case True
  note b = layout_okD [OF assms] chunk_len_bounds [OF assms True]
  have lt: "unat i * csize l < 2 ^ 64"
    using True assms unat_less_exp [of "cl_file_size l"] by (simp add: index_less_count chunk_start_def)
  define offset where "offset = i * (ucast (cl_chunk_size l) :: u64)"
  define m where "m = min (cl_file_size l - offset) (ucast (cl_chunk_size l))"
  have off: "unat offset = chunk_start l (unat i)"
    using lt by (simp add: offset_def unat_mult_exact geom_simps chunk_start_def)
  have m: "unat m = chunk_len l (unat i)"
    using off b True assms
    by (simp add: m_def geom_simps unat_sub_exact chunk_len_def index_less_count min.commute)
  then have "unat m < 2 ^ 32"
    using b by simp
  then have "unat (ucast m :: u32) = chunk_len l (unat i)"
    by (simp add: unsigned_ucast_eq take_bit_nat_eq_self m)
  moreover have "layout_range l i = Ok (offset, ucast m)"
    using True by (simp add: layout_range_def word_le_nat_alt Let_def offset_def m_def)
  ultimately show ?thesis
    using True off by (auto simp: word_unat_eq_iff)
qed

lemma layout_range_Err:
  "layout_range l i = Err e \<longleftrightarrow> ccount l \<le> unat i \<and> e = ChunkOutOfRange i (cl_count l)"
  by (auto simp: layout_range_def word_le_nat_alt Let_def)

lemma layout_range_exists:
  assumes "layout_ok l" and "unat i < ccount l"
  obtains off len where "layout_range l i = Ok (off, len)" "unat off = chunk_start l (unat i)"
    "unat len = chunk_len l (unat i)"
  using assms layout_range_Err [of l i] layout_range_Ok [OF assms(1), of i]
  by (cases "layout_range l i") auto

lemma index_of_Ok:
  assumes "layout_ok l"
  shows "index_of l off = Ok i \<longleftrightarrow>
     unat i < ccount l \<and> chunk_start l (unat i) \<le> unat off
     \<and> unat off < chunk_start l (unat i) + chunk_len l (unat i)"
proof -
  have c: "0 < csize l" by (rule layout_okD [OF assms])
  have "index_of l off = Ok i \<longleftrightarrow> unat off < fsize l \<and> unat off div csize l = unat i"
    by (auto simp: index_of_def word_le_nat_alt unat_div_distrib geom_simps word_unat_eq_iff)
  also have "unat off div csize l = unat i \<longleftrightarrow>
     unat i * csize l \<le> unat off \<and> unat off < unat i * csize l + csize l"
    using c by (rule nat_div_eq_iff)
  finally show ?thesis
    using assms c by (auto simp: index_less_count chunk_len_def chunk_start_def)
qed

lemma length_chunk_of:
  assumes "layout_ok l" "i < ccount l" "length d = fsize l"
  shows "length (chunk_of l d i) = chunk_len l i"
  using assms chunk_len_bounds [OF assms(1,2)] by (simp add: chunk_of_def)

lemma chunk_of_take: "length d = fsize l \<Longrightarrow> chunk_of l d i = take (csize l) (drop (chunk_start l i) d)"
  by (simp add: chunk_of_def sub_slice_def chunk_len_def min_def)

lemma concat_chunk_of_take:
  "length d = fsize l \<Longrightarrow> concat (map (chunk_of l d) [0..<k]) = take (chunk_start l k) d"
proof (induction k)
  case (Suc k)
  then show ?case
    using take_add [of "chunk_start l k" "csize l" d]
    by (simp add: chunk_of_take chunk_next [symmetric])
qed (simp add: chunk_start_def)

lemma concat_chunk_of:
  assumes "layout_ok l" and "length d = fsize l"
  shows "concat (map (chunk_of l d) [0..<ccount l]) = d"
proof -
  have "fsize l \<le> chunk_start l (ccount l)"
    using index_less_count [OF assms(1), of "ccount l"] by simp
  with assms(2) show ?thesis
    by (simp add: concat_chunk_of_take)
qed

section \<open>Lemmas on the file root and the hash set\<close>

lemma root_eq: "root_from_chunk_hashes blake3 hs =
    blake3 (ROOT_DOMAIN @ to_le_bytes (of_nat (length hs) :: u64) @ concat hs)"
  by (simp add: root_from_chunk_hashes_def Let_def foldl_append)

lemma root_input_inject:
  assumes "length hs < 2 ^ 64" "length hs' < 2 ^ 64"
    and "\<And>h. h \<in> set hs \<union> set hs' \<Longrightarrow> length h = 32"
    and "ROOT_DOMAIN @ to_le_bytes (of_nat (length hs) :: u64) @ concat hs =
         ROOT_DOMAIN @ to_le_bytes (of_nat (length hs') :: u64) @ concat hs'"
  shows "hs = hs'"
proof -
  have "(of_nat (length hs) :: u64) = of_nat (length hs')" and c: "concat hs = concat hs'"
    using assms(4) by (simp_all add: append_eq_append_conv field_lengths u64_field.enc_inject)
  then have "length hs = length hs'"
    using assms(1,2) by (metis unat_of_nat_u64)
  with c show ?thesis
    by (rule concat_inject_fixed) (rule assms(3))
qed

lemma hash_set_new_ok: "hash_set_ok (hash_set_new n)"
  by (simp add: hash_set_ok_def hash_set_new_def unsigned_less [where ?'b = 64, simplified])

lemma filter_some_le: "length (filter (\<lambda>x. x \<noteq> None) (hs_hashes s)) \<le> length (hs_hashes s)"
  by (rule length_filter_le)

lemma hash_set_complete_iff:
  assumes "hash_set_ok s"
  shows "hash_set_is_complete s \<longleftrightarrow> None \<notin> set (hs_hashes s)"
proof -
  have "hash_set_is_complete s \<longleftrightarrow> unat (hs_filled s) = length (hs_hashes s)"
    using assms by (auto simp: hash_set_is_complete_def hash_set_ok_def word_unat_eq_iff unat_of_nat)
  also have "\<dots> \<longleftrightarrow> (\<forall>x \<in> set (hs_hashes s). x \<noteq> None)"
    using assms by (simp add: hash_set_ok_def length_filter_full_iff)
  finally show ?thesis
    by auto
qed

lemma hash_set_insert_ok:
  assumes "hash_set_ok s" and "hash_set_insert s i h = Ok s'"
  shows "hash_set_ok s' \<and> unat i < length (hs_hashes s) \<and> hs_hashes s ! unat i \<in> {None, Some h}
     \<and> hs_hashes s' = (hs_hashes s)[unat i := Some h]"
proof (cases "hs_hashes s ! unat i")
  case None
  with assms(2) have i: "unat i < length (hs_hashes s)"
    and s': "s' = \<lparr>hs_hashes = (hs_hashes s)[unat i := Some h], hs_filled = hs_filled s + 1\<rparr>"
    by (auto simp: hash_set_insert_def split: if_splits)
  have f: "length (filter (\<lambda>x. x \<noteq> None) ((hs_hashes s)[unat i := Some h])) =
      Suc (length (filter (\<lambda>x. x \<noteq> None) (hs_hashes s)))"
    using i None by (intro length_filter_list_update) auto
  have "Suc (unat (hs_filled s)) \<le> length ((hs_hashes s)[unat i := Some h])"
    using assms(1) f by (metis hash_set_ok_def length_filter_le)
  then have "unat (hs_filled s + 1) = Suc (unat (hs_filled s))"
    using assms(1) by (simp add: hash_set_ok_def unat_word_ariths)
  with assms(1) i None f show ?thesis
    by (simp add: s' hash_set_ok_def)
next
  case (Some x)
  with assms have "s' = s" "x = h" "unat i < length (hs_hashes s)"
    by (auto simp: hash_set_insert_def split: if_splits)
  with assms Some show ?thesis
    by (metis insertCI list_update_id)
qed

text \<open>Insertions of committed hashes, in any order and with repetitions, fill exactly their slots.\<close>

definition filled_slots :: "hash list \<Rightarrow> nat set \<Rightarrow> hash option list" where
  "filled_slots hs seen = map (\<lambda>k. if k \<in> seen then Some (hs ! k) else None) [0..<length hs]"

lemma hash_set_insert_committed:
  assumes "hash_set_ok s" "hs_hashes s = filled_slots hs seen" "unat i < length hs"
  shows "\<exists>s'. hash_set_insert s i (hs ! unat i) = Ok s' \<and> hash_set_ok s'
     \<and> hs_hashes s' = filled_slots hs (insert (unat i) seen)"
proof -
  have slot: "hs_hashes s ! unat i = (if unat i \<in> seen then Some (hs ! unat i) else None)"
    and len: "length (hs_hashes s) = length hs"
    using assms by (simp_all add: filled_slots_def)
  then obtain s' where s': "hash_set_insert s i (hs ! unat i) = Ok s'"
    using assms(3) by (auto simp: hash_set_insert_def split: if_splits)
  have "(filled_slots hs seen)[unat i := Some (hs ! unat i)] = filled_slots hs (insert (unat i) seen)"
    using assms(3) by (intro nth_equalityI) (auto simp: filled_slots_def nth_list_update)
  with hash_set_insert_ok [OF assms(1) s'] assms(2) s' show ?thesis
    by auto
qed

lemma hash_set_insert_all_committed:
  assumes "hash_set_ok s" "hs_hashes s = filled_slots hs seen"
    and "\<forall>(i, h) \<in> set xs. unat i < length hs \<and> h = hs ! unat i"
  shows "\<exists>s'. hash_set_insert_all s xs = Ok s' \<and> hash_set_ok s'
     \<and> hs_hashes s' = filled_slots hs (seen \<union> unat ` fst ` set xs)"
  using assms
proof (induction xs arbitrary: s seen)
  case (Cons x xs)
  obtain i h where x: "x = (i, h)" by force
  with Cons.prems have "unat i < length hs" "h = hs ! unat i" by auto
  then obtain s1 where s1: "hash_set_insert s i h = Ok s1" "hash_set_ok s1"
      "hs_hashes s1 = filled_slots hs (insert (unat i) seen)"
    using hash_set_insert_committed Cons.prems(1,2) by blast
  with Cons.IH [OF s1(2,3)] Cons.prems(3) show ?case
    by (auto simp: x)
qed simp

lemma hash_set_root_filled:
  assumes "hash_set_ok s" "hs_hashes s = filled_slots hs seen"
  shows "hash_set_root blake3 s =
     (if {..<length hs} \<subseteq> seen then Some (root_from_chunk_hashes blake3 hs) else None)"
proof (cases "{..<length hs} \<subseteq> seen")
  case True
  then have all: "filled_slots hs seen = map Some hs"
    by (intro nth_equalityI) (auto simp: filled_slots_def)
  then show ?thesis
    using True assms hash_set_complete_iff [OF assms(1)]
    by (simp add: hash_set_root_def comp_def)
next
  case False
  then have "None \<in> set (filled_slots hs seen)"
    by (force simp: filled_slots_def)
  with False assms hash_set_complete_iff [OF assms(1)] show ?thesis
    by (simp add: hash_set_root_def)
qed

section \<open>Accepted chunk sizes\<close>

lemma unat_power2: "k < LENGTH('a) \<Longrightarrow> unat (2 ^ k :: 'a::len word) = 2 ^ k"
  using unat_of_nat [of "2 ^ k", where ?'a = 'a] by (simp add: take_bit_eq_mod)

lemma count_ones_one: "count_ones (w :: 'a::len word) = 1 \<longleftrightarrow> (\<exists>k < LENGTH('a). w = 2 ^ k)"
proof
  assume "count_ones w = 1"
  then obtain k where f: "filter (bit w) [0..<LENGTH('a)] = [k]"
    by (auto simp: count_ones_def length_Suc_conv)
  have "j = k" if "bit w j" for j
  proof -
    have "j \<in> set (filter (bit w) [0..<LENGTH('a)])"
      using that bit_imp_le_length [of w j] by simp
    then show ?thesis by (simp add: f)
  qed
  moreover have k: "k < LENGTH('a)" "bit w k"
  proof -
    have "k \<in> set (filter (bit w) [0..<LENGTH('a)])"
      by (simp add: f)
    then show "k < LENGTH('a)" "bit w k" by simp_all
  qed
  ultimately have "bit w j \<longleftrightarrow> j = k" for j
    by blast
  with k(1) have "w = 2 ^ k"
    by (simp add: bit_eq_iff bit_exp_iff)
  with k show "\<exists>k < LENGTH('a). w = 2 ^ k" by blast
next
  assume "\<exists>k < LENGTH('a). w = 2 ^ k"
  then obtain k where k: "k < LENGTH('a)" "w = 2 ^ k" by blast
  then have "filter (bit w) [0..<LENGTH('a)] = filter (\<lambda>j. j = k) [0..<LENGTH('a)]"
    by (intro filter_cong) (auto simp: bit_simps)
  moreover have "{j. j = k} \<inter> set [0..<LENGTH('a)] = {k}"
    using k by auto
  ultimately show "count_ones w = 1"
    by (simp add: count_ones_def distinct_length_filter)
qed

section \<open>Properties\<close>

text \<open>
  C22: the chunks a layout describes tile the file: reading the byte ranges that \<open>range\<close> returns for
  the indices \<open>0..count\<close> in order gives back the file, with no gap, overlap or wrap-around.
\<close>

theorem chunks_tile_file:
  fixes d :: bytes
  assumes "layout_new (of_nat (length d)) cs = Ok l" and "length d < 2 ^ 64"
  shows "concat (map (\<lambda>i. case layout_range l (of_nat i) of
       Ok (off, len) \<Rightarrow> sub_slice d (unat off) (unat off + unat len) | Err _ \<Rightarrow> [])
     [0..<unat (cl_count l)]) = d"
proof -
  have ok: "layout_ok l" and len: "length d = fsize l"
    using layout_new_ok [OF assms(1)] assms(2) by (simp_all add: geom_simps)
  have "(case layout_range l (of_nat i) of
       Ok (off, len) \<Rightarrow> sub_slice d (unat off) (unat off + unat len) | Err _ \<Rightarrow> []) = chunk_of l d i"
    if "i < ccount l" for i
  proof -
    have i: "unat (of_nat i :: u64) = i"
      using that unat_less_exp [of "cl_count l"] by (simp add: geom_simps)
    with that ok obtain off n where "layout_range l (of_nat i) = Ok (off, n)"
        "unat off = chunk_start l i" "unat n = chunk_len l i"
      using layout_range_exists [of l "of_nat i"] by metis
    then show ?thesis by (simp add: chunk_of_def)
  qed
  then have "map (\<lambda>i. case layout_range l (of_nat i) of
       Ok (off, len) \<Rightarrow> sub_slice d (unat off) (unat off + unat len) | Err _ \<Rightarrow> [])
     [0..<ccount l] = map (chunk_of l d) [0..<ccount l]"
    by simp
  then show ?thesis by (simp only: concat_chunk_of [OF ok len])
qed

theorem chunks_tile_file_witness:
  "\<exists>l. layout_new (of_nat (length [1, 2, 3 :: u8])) 65536 = Ok l
     \<and> length [1, 2, 3 :: u8] < 2 ^ 64
     \<and> concat (map (\<lambda>i. case layout_range l (of_nat i) of
         Ok (off, len) \<Rightarrow> sub_slice [1, 2, 3 :: u8] (unat off) (unat off + unat len) | Err _ \<Rightarrow> [])
       [0..<unat (cl_count l)]) = [1, 2, 3]"
proof -
  have "is_power_of_two (65536 :: u32)"
    by code_simp
  then obtain l where l: "layout_new (of_nat (length [1, 2, 3 :: u8])) 65536 = Ok l"
    by (auto simp: layout_new_def MIN_CHUNK_SIZE_def MAX_CHUNK_SIZE_def Let_def)
  have len: "length [1, 2, 3 :: u8] < 2 ^ 64" by simp
  from chunks_tile_file [OF l len] l len show ?thesis by blast
qed

text \<open>
  \<open>index_of\<close> finds chunk \<open>i\<close> for a byte offset exactly when the range of chunk \<open>i\<close> contains
  that offset.
\<close>

theorem index_of_inverts_range:
  assumes "layout_new fs cs = Ok l"
  shows "index_of l off = Ok i \<longleftrightarrow>
     (\<exists>start len. layout_range l i = Ok (start, len)
        \<and> unat start \<le> unat off \<and> unat off < unat start + unat len)"
proof -
  have ok: "layout_ok l" using layout_new_ok [OF assms] by simp
  show ?thesis
  proof
    assume i: "index_of l off = Ok i"
    then obtain start len where "layout_range l i = Ok (start, len)"
        "unat start = chunk_start l (unat i)" "unat len = chunk_len l (unat i)"
      using layout_range_exists [OF ok, of i] by (metis index_of_Ok [OF ok])
    with i show "\<exists>start len. layout_range l i = Ok (start, len)
        \<and> unat start \<le> unat off \<and> unat off < unat start + unat len"
      by (simp add: index_of_Ok [OF ok])
  next
    assume "\<exists>start len. layout_range l i = Ok (start, len)
        \<and> unat start \<le> unat off \<and> unat off < unat start + unat len"
    then show "index_of l off = Ok i"
      using layout_range_Ok [OF ok] by (auto simp: index_of_Ok [OF ok])
  qed
qed

theorem index_of_inverts_range_witness:
  "\<exists>l. layout_new 10485760 4194304 = Ok l
     \<and> (\<exists>start len. layout_range l 2 = Ok (start, len)
          \<and> unat start \<le> unat (10000000 :: u64) \<and> unat (10000000 :: u64) < unat start + unat len)"
proof -
  have "is_power_of_two (4194304 :: u32)"
    by code_simp
  then obtain l where l: "layout_new 10485760 4194304 = Ok l"
    and e: "cl_file_size l = 10485760" "cl_chunk_size l = 4194304"
    by (auto simp: layout_new_def MIN_CHUNK_SIZE_def MAX_CHUNK_SIZE_def Let_def)
  have "index_of l 10000000 = Ok 2"
    by (simp add: index_of_def e)
  with index_of_inverts_range [OF l] l show ?thesis by blast
qed

text \<open>
  C32: chunk hashes recorded in any order, with repetitions, are all accepted; the root is available
  exactly when every slot has been filled, and it is then the root over the hashes in index order.
\<close>

theorem root_out_of_order:
  assumes "length hs < 2 ^ 64"
    and "\<forall>(i, h) \<in> set xs. unat i < length hs \<and> h = hs ! unat i"
  shows "\<exists>s. hash_set_insert_all (hash_set_new (of_nat (length hs))) xs = Ok s
     \<and> hash_set_root blake3 s =
         (if {..<length hs} \<subseteq> unat ` fst ` set xs then Some (root_from_chunk_hashes blake3 hs)
          else None)"
proof -
  have "hs_hashes (hash_set_new (of_nat (length hs))) = filled_slots hs {}"
    using assms(1) by (simp add: hash_set_new_def filled_slots_def geom_simps map_replicate_const)
  from hash_set_insert_all_committed [OF hash_set_new_ok this assms(2)]
  obtain s where s: "hash_set_insert_all (hash_set_new (of_nat (length hs))) xs = Ok s"
      "hash_set_ok s" "hs_hashes s = filled_slots hs (unat ` fst ` set xs)"
    by auto
  from hash_set_root_filled [OF s(2,3), of blake3] s(1) show ?thesis by blast
qed

theorem root_out_of_order_witness:
  "\<exists>s. hash_set_insert_all (hash_set_new (of_nat (length [[1], [2 :: u8]])))
          [(1, [2]), (0, [1]), (1, [2])] = Ok s
     \<and> hash_set_root (\<lambda>x. x) s = Some (root_from_chunk_hashes (\<lambda>x. x) [[1], [2]])"
proof -
  have h: "length [[1], [2 :: u8]] < 2 ^ 64"
    "\<forall>(i, h) \<in> set [(1 :: u64, [2 :: u8]), (0, [1]), (1, [2])].
       unat i < length [[1], [2 :: u8]] \<and> h = [[1], [2]] ! unat i"
    by simp_all
  have "{..<length [[1], [2 :: u8]]} \<subseteq> unat ` fst ` set [(1 :: u64, [2 :: u8]), (0, [1]), (1, [2])]"
    by auto
  with root_out_of_order [OF h, of "\<lambda>x. x"] show ?thesis
    by presburger
qed

text \<open>
  C33: the root commits to the ordered list of chunk hashes: two different lists of 32-byte hashes
  with the same root exhibit a collision of the hash function, on the two inputs shown.
\<close>

theorem root_binds_chunk_hashes:
  assumes "root_from_chunk_hashes blake3 hs = root_from_chunk_hashes blake3 hs'"
    and "length hs < 2 ^ 64" "length hs' < 2 ^ 64" "\<forall>h \<in> set hs \<union> set hs'. length h = 32"
    and "hs \<noteq> hs'"
  shows "let x = ROOT_DOMAIN @ to_le_bytes (of_nat (length hs) :: u64) @ concat hs;
             y = ROOT_DOMAIN @ to_le_bytes (of_nat (length hs') :: u64) @ concat hs'
         in x \<noteq> y \<and> blake3 x = blake3 y"
  using assms root_input_inject [of hs hs'] by (auto simp: Let_def root_eq)

theorem root_binds_chunk_hashes_witness:
  "\<exists>x y. x \<noteq> y \<and> (\<lambda>_. replicate 32 (0 :: u8)) x = (\<lambda>_ :: bytes. replicate 32 0) y"
  using root_binds_chunk_hashes [of "\<lambda>_. replicate 32 0" "[]" "[replicate 32 0]"]
  by (auto simp: Let_def root_from_chunk_hashes_def)

text \<open>
  A layout exists exactly for the chunk sizes that are powers of two between 64 KiB and 64 MiB,
  and it then has the given sizes and the number of chunks rounded up, zero for an empty file.
\<close>

theorem layout_new_accepts:
  "layout_new fs cs = Ok l \<longleftrightarrow>
     (\<exists>k. 16 \<le> k \<and> k \<le> 26 \<and> cs = 2 ^ k \<and> cl_file_size l = fs \<and> cl_chunk_size l = cs
        \<and> unat (cl_count l) = (unat fs + 2 ^ k - 1) div 2 ^ k)"
proof -
  have band: "MIN_CHUNK_SIZE \<le> 2 ^ k \<and> (2 :: u32) ^ k \<le> MAX_CHUNK_SIZE \<longleftrightarrow> 16 \<le> k \<and> k \<le> 26"
    if "k < 32" for k
    using that power_increasing_iff [of "2 :: nat" 16 k] power_increasing_iff [of "2 :: nat" k 26]
    by (simp add: MIN_CHUNK_SIZE_def MAX_CHUNK_SIZE_def word_le_nat_alt unat_power2)
  have new: "layout_new fs cs = Ok l \<longleftrightarrow>
      MIN_CHUNK_SIZE \<le> cs \<and> cs \<le> MAX_CHUNK_SIZE \<and> (\<exists>k < 32. cs = 2 ^ k)
      \<and> cl_file_size l = fs \<and> cl_chunk_size l = cs \<and> cl_count l = div_ceil fs (ucast cs)"
    using count_ones_one [of cs]
    by (cases l) (auto simp: layout_new_def is_power_of_two_def Let_def)
  have cnt: "cl_count l = div_ceil fs (ucast (2 ^ k :: u32)) \<longleftrightarrow>
      unat (cl_count l) = (unat fs + 2 ^ k - 1) div 2 ^ k" if "k < 32" for k
    using that by (simp add: word_unat_eq_iff unat_div_ceil geom_simps unat_power2)
  show ?thesis
  proof
    assume "layout_new fs cs = Ok l"
    with new obtain k where "k < 32" "cs = 2 ^ k" by blast
    with band [of k] cnt [of k] new \<open>layout_new fs cs = Ok l\<close>
    show "\<exists>k. 16 \<le> k \<and> k \<le> 26 \<and> cs = 2 ^ k \<and> cl_file_size l = fs \<and> cl_chunk_size l = cs
        \<and> unat (cl_count l) = (unat fs + 2 ^ k - 1) div 2 ^ k"
      by metis
  next
    assume "\<exists>k. 16 \<le> k \<and> k \<le> 26 \<and> cs = 2 ^ k \<and> cl_file_size l = fs \<and> cl_chunk_size l = cs
        \<and> unat (cl_count l) = (unat fs + 2 ^ k - 1) div 2 ^ k"
    then obtain k where k: "k < 32" "16 \<le> k \<and> k \<le> 26" "cs = 2 ^ k"
        "cl_file_size l = fs" "cl_chunk_size l = cs"
        "unat (cl_count l) = (unat fs + 2 ^ k - 1) div 2 ^ k"
      by force
    then show "layout_new fs cs = Ok l"
      unfolding new using band [OF k(1)] cnt [OF k(1)] by metis
  qed
qed

end
