(* ===== verification/Manifest.thy ===== *)
theory Manifest
  imports Chunk
begin

text \<open>
  The transfer manifest of \<open>aetherlink-proto/src/manifest.rs\<close>: the path sanitizer that every
  peer-supplied path passes through, and the validation of a whole manifest.  A Rust \<open>str\<close> is the
  list of its UTF-8 bytes (an Isabelle \<open>char\<close> is one byte); \<open>chars\<close> decodes it to code points
  where the source iterates over characters.  A \<open>Path\<close> is the list of its normal components.
\<close>

section \<open>String functions of the Rust standard library\<close>

text \<open>\<open>str::chars\<close>: the code points of a well-formed UTF-8 string.\<close>

fun chars :: "string \<Rightarrow> nat list" where
  "chars [] = []"
| "chars (a # s) =
     (if of_char a < (128 :: nat) then of_char a # chars s
      else if of_char a < (224 :: nat) then
        (case s of b # t \<Rightarrow> (of_char a mod 32 * 64 + of_char b mod 64) # chars t | _ \<Rightarrow> [])
      else if of_char a < (240 :: nat) then
        (case s of b # c # t \<Rightarrow>
           (of_char a mod 16 * 4096 + of_char b mod 64 * 64 + of_char c mod 64) # chars t
         | _ \<Rightarrow> [])
      else
        (case s of b # c # d # t \<Rightarrow>
           (of_char a mod 8 * 262144 + of_char b mod 64 * 4096 + of_char c mod 64 * 64
              + of_char d mod 64) # chars t
         | _ \<Rightarrow> []))"

text \<open>\<open>char::is_control\<close>: the Unicode category Cc.\<close>

definition is_control :: "nat \<Rightarrow> bool" where
  "is_control c \<longleftrightarrow> c < 32 \<or> (127 \<le> c \<and> c < 160)"

fun split_on :: "char \<Rightarrow> string \<Rightarrow> string list" where
  "split_on c [] = [[]]"
| "split_on c (x # xs) =
     (if x = c then [] # split_on c xs
      else (x # hd (split_on c xs)) # tl (split_on c xs))"

fun join_with :: "char \<Rightarrow> string list \<Rightarrow> string" where
  "join_with c [] = []"
| "join_with c [p] = p"
| "join_with c (p # ps) = p @ c # join_with c ps"

definition to_ascii_lowercase :: "char \<Rightarrow> char" where
  "to_ascii_lowercase c =
     (let n = (of_char c :: nat) in if 65 \<le> n \<and> n \<le> 90 then char_of (n + 32) else c)"

definition eq_ignore_ascii_case :: "string \<Rightarrow> string \<Rightarrow> bool" where
  "eq_ignore_ascii_case a b \<longleftrightarrow> map to_ascii_lowercase a = map to_ascii_lowercase b"

definition ends_with :: "string \<Rightarrow> char \<Rightarrow> bool" where
  "ends_with s c \<longleftrightarrow> s \<noteq> [] \<and> last s = c"

text \<open>\<open>format!("{b:02x}")\<close>.\<close>

definition hex_digit :: "nat \<Rightarrow> char" where
  "hex_digit n = ''0123456789abcdef'' ! n"

definition hex_byte :: "u8 \<Rightarrow> string" where
  "hex_byte b = [hex_digit (unat b div 16), hex_digit (unat b mod 16)]"

section \<open>The manifest\<close>

definition MAX_COMPONENT_LEN :: nat where "MAX_COMPONENT_LEN = 255"
definition MAX_PATH_LEN :: nat where "MAX_PATH_LEN = 1024"
definition MAX_FILES_PER_MANIFEST :: nat where "MAX_FILES_PER_MANIFEST = 20000"

datatype session_id = SessionId (session_bytes: bytes)

definition session_id_to_hex :: "session_id \<Rightarrow> string" where
  "session_id_to_hex s = concat (map hex_byte (session_bytes s))"

record file_metadata =
  fm_file_id :: u64
  fm_relative_path :: string
  fm_size_bytes :: u64
  fm_mime_type :: string
  fm_root_hash :: hash
  fm_modified_unix_ms :: "64 word"
  fm_created_unix_ms :: "64 word"

definition file_layout :: "file_metadata \<Rightarrow> u32 \<Rightarrow> (chunk_layout, wire_error) result" where
  "file_layout f chunk_size = layout_new (fm_size_bytes f) chunk_size"

record manifest =
  mf_session_id :: session_id
  mf_chunk_size :: u32
  mf_files :: "file_metadata list"

definition total_bytes :: "manifest \<Rightarrow> u64" where
  "total_bytes m = sum_list (map fm_size_bytes (mf_files m))"

definition manifest_file :: "manifest \<Rightarrow> u64 \<Rightarrow> file_metadata option" where
  "manifest_file m file_id = find (\<lambda>f. fm_file_id f = file_id) (mf_files m)"

section \<open>Path sanitizer\<close>

definition RESERVED :: "string list" where
  "RESERVED =
     [''CON'', ''PRN'', ''AUX'', ''NUL'', ''COM1'', ''COM2'', ''COM3'', ''COM4'', ''COM5'',
      ''COM6'', ''COM7'', ''COM8'', ''COM9'', ''LPT1'', ''LPT2'', ''LPT3'', ''LPT4'', ''LPT5'',
      ''LPT6'', ''LPT7'', ''LPT8'', ''LPT9'']"

definition is_reserved_device_name :: "string \<Rightarrow> bool" where
  "is_reserved_device_name component \<longleftrightarrow>
     (let stem = hd (split_on (CHR ''.'') component)
      in list_ex (\<lambda>r. eq_ignore_ascii_case r stem) RESERVED)"

text \<open>The loop over the components: \<open>parts\<close> accumulates the ones that are kept.\<close>

fun sanitize_parts :: "string \<Rightarrow> string list \<Rightarrow> string list \<Rightarrow> (string list, wire_error) result" where
  "sanitize_parts raw parts [] = Ok parts"
| "sanitize_parts raw parts (c # cs) =
     (if c = [] \<or> c = ''.'' then sanitize_parts raw parts cs
      else if c = ''..'' then Err (UnsafePath raw ''contains a parent-directory traversal'')
      else if MAX_COMPONENT_LEN < length c then Err (UnsafePath raw ''has an over-long component'')
      else if ends_with c (CHR ''.'') \<or> ends_with c (CHR '' '')
      then Err (UnsafePath raw ''has a component ending in a dot or space'')
      else if is_reserved_device_name c then Err (UnsafePath raw ''uses a reserved device name'')
      else sanitize_parts raw (parts @ [c]) cs)"

definition sanitize_relative_path :: "string \<Rightarrow> (string, wire_error) result" where
  "sanitize_relative_path raw =
     (if raw = [] then Err (UnsafePath raw ''empty'')
      else if MAX_PATH_LEN < length raw then Err (UnsafePath raw ''exceeds maximum length'')
      else if CHR 0x00 \<in> set raw then Err (UnsafePath raw ''contains a NUL byte'')
      else if list_ex is_control (chars raw)
      then Err (UnsafePath raw ''contains a control character'')
      else if CHR 0x5C \<in> set raw then Err (UnsafePath raw ''contains a backslash separator'')
      else if hd raw = CHR ''/'' then Err (UnsafePath raw ''is absolute'')
      else if 2 \<le> length raw \<and> raw ! 1 = CHR '':''
      then Err (UnsafePath raw ''contains a drive letter'')
      else case sanitize_parts raw [] (split_on (CHR ''/'') raw) of
        Err e \<Rightarrow> Err e
      | Ok parts \<Rightarrow> if parts = [] then Err (UnsafePath raw ''resolves to nothing'')
                    else Ok (join_with (CHR ''/'') parts))"

section \<open>Manifest validation\<close>

fun validate_files ::
    "u64 set \<Rightarrow> string set \<Rightarrow> string list \<Rightarrow> file_metadata list \<Rightarrow> (string list, wire_error) result" where
  "validate_files seen_ids seen_paths sanitized [] = Ok sanitized"
| "validate_files seen_ids seen_paths sanitized (f # fs) =
     (if fm_file_id f \<in> seen_ids then Err (DuplicateFileId (fm_file_id f))
      else case sanitize_relative_path (fm_relative_path f) of
        Err e \<Rightarrow> Err e
      | Ok path \<Rightarrow>
          if path \<in> seen_paths then Err (DuplicatePath path)
          else validate_files (insert (fm_file_id f) seen_ids) (insert path seen_paths)
                 (sanitized @ [path]) fs)"

definition validate :: "manifest \<Rightarrow> (string list, wire_error) result" where
  "validate m =
     (if MAX_FILES_PER_MANIFEST < length (mf_files m)
      then Err (ManifestTooLarge (length (mf_files m)))
      else case layout_new 0 (mf_chunk_size m) of
        Err e \<Rightarrow> Err e
      | Ok _ \<Rightarrow> validate_files {} {} [] (mf_files m))"

section \<open>Paths\<close>

text \<open>
  \<open>Path::join\<close> on component lists: an absolute argument replaces the base; \<open>components()\<close> drops
  empty and \<open>.\<close> components and keeps \<open>..\<close>.
\<close>

type_synonym path = "string list"

definition path_components :: "string \<Rightarrow> path" where
  "path_components s = filter (\<lambda>c. c \<noteq> [] \<and> c \<noteq> ''.'') (split_on (CHR ''/'') s)"

definition path_join :: "path \<Rightarrow> string \<Rightarrow> path" where
  "path_join base s =
     (if s \<noteq> [] \<and> hd s = CHR ''/'' then path_components s else base @ path_components s)"

section \<open>Lemmas on splitting and joining\<close>

lemma split_on_nonempty [simp]: "split_on c s \<noteq> []"
  by (cases s) auto

lemma split_on_no_sep: "p \<in> set (split_on c s) \<Longrightarrow> c \<notin> set p"
proof (induction s arbitrary: p)
  case (Cons x xs)
  have "hd (split_on c xs) \<in> set (split_on c xs)" "set (tl (split_on c xs)) \<subseteq> set (split_on c xs)"
    by (simp_all add: list.set_sel(2) subsetI)
  with Cons show ?case
    by (auto split: if_splits)
qed simp

lemma split_on_subset: "p \<in> set (split_on c s) \<Longrightarrow> set p \<subseteq> set s"
proof (induction s arbitrary: p)
  case (Cons x xs)
  obtain q qs where q: "split_on c xs = q # qs"
    by (metis neq_Nil_conv split_on_nonempty)
  have "set r \<subseteq> set xs" if "r \<in> set (q # qs)" for r
    using Cons.IH that q by metis
  with Cons.prems show ?case
    by (fastforce simp: q split: if_splits)
qed simp

lemma split_on_single: "c \<notin> set p \<Longrightarrow> split_on c p = [p]"
  by (induction p) auto

lemma split_on_append: "c \<notin> set p \<Longrightarrow> split_on c (p @ c # s) = p # split_on c s"
  by (induction p) auto

lemma split_join:
  "ps \<noteq> [] \<Longrightarrow> \<forall>p \<in> set ps. c \<notin> set p \<Longrightarrow> split_on c (join_with c ps) = ps"
  by (induction c ps rule: join_with.induct) (auto simp: split_on_single split_on_append)

lemma set_join: "set (join_with c ps) \<subseteq> insert c (\<Union> (set ` set ps))"
  by (induction c ps rule: join_with.induct) auto

lemma join_hd: "p \<noteq> [] \<Longrightarrow> hd (join_with c (p # ps)) = hd p \<and> join_with c (p # ps) \<noteq> []"
  by (cases ps) auto

lemma length_join_split: "length (join_with c (split_on c s)) = length s"
proof (induction s)
  case (Cons x xs)
  obtain p ps where "split_on c xs = p # ps"
    by (metis neq_Nil_conv split_on_nonempty)
  with Cons show ?case
    by (cases ps) auto
qed simp

lemma length_join_filter: "length (join_with c (filter P ps)) \<le> length (join_with c ps)"
proof (induction ps)
  case (Cons p ps)
  then show ?case
    by (cases ps; cases "filter P ps") (auto split: if_splits)
qed simp

section \<open>Lemmas on the sanitizer\<close>

text \<open>What the loop keeps and what it demands of every kept component.\<close>

abbreviation kept :: "string \<Rightarrow> bool" where "kept c \<equiv> c \<noteq> [] \<and> c \<noteq> ''.''"

definition safe_component :: "string \<Rightarrow> bool" where
  "safe_component c \<longleftrightarrow> c \<noteq> [] \<and> c \<noteq> ''.'' \<and> c \<noteq> ''..'' \<and> length c \<le> MAX_COMPONENT_LEN
     \<and> last c \<noteq> CHR ''.'' \<and> last c \<noteq> CHR '' '' \<and> \<not> is_reserved_device_name c"

definition safe_prefix :: "string \<Rightarrow> bool" where
  "safe_prefix raw \<longleftrightarrow> raw \<noteq> [] \<and> length raw \<le> MAX_PATH_LEN \<and> CHR 0x00 \<notin> set raw
     \<and> \<not> list_ex is_control (chars raw) \<and> CHR 0x5C \<notin> set raw \<and> hd raw \<noteq> CHR ''/''
     \<and> \<not> (2 \<le> length raw \<and> raw ! 1 = CHR '':'')"

lemma sanitize_parts_Ok:
  "sanitize_parts raw parts cs = Ok ps \<longleftrightarrow>
     ps = parts @ filter kept cs \<and> (\<forall>c \<in> set cs. kept c \<longrightarrow> safe_component c)"
  by (induction raw parts cs rule: sanitize_parts.induct)
     (auto simp: safe_component_def ends_with_def not_less)

lemma sanitize_Ok:
  "sanitize_relative_path raw = Ok p \<longleftrightarrow>
     safe_prefix raw \<and> path_components raw \<noteq> []
     \<and> (\<forall>c \<in> set (path_components raw). safe_component c)
     \<and> p = join_with (CHR ''/'') (path_components raw)"
proof (cases "sanitize_parts raw [] (split_on (CHR ''/'') raw)")
  case (Ok ps)
  then have "ps = path_components raw" "\<forall>c \<in> set (path_components raw). safe_component c"
    by (auto simp: sanitize_parts_Ok path_components_def)
  with Ok show ?thesis
    by (auto simp: sanitize_relative_path_def safe_prefix_def)
next
  case (Err e)
  then have "\<not> (\<forall>c \<in> set (path_components raw). safe_component c)"
    using sanitize_parts_Ok [of raw "[]" "split_on (CHR ''/'') raw" "path_components raw"]
    by (auto simp: path_components_def)
  with Err show ?thesis
    by (simp add: sanitize_relative_path_def safe_prefix_def)
qed

lemma sanitize_split:
  assumes "sanitize_relative_path raw = Ok p"
  shows "split_on (CHR ''/'') p = path_components raw"
  using assms
  by (auto simp: sanitize_Ok path_components_def intro!: split_join dest: split_on_no_sep)

lemma sanitize_components:
  assumes "sanitize_relative_path raw = Ok p"
  shows "path_components p = path_components raw"
proof -
  have "\<forall>c \<in> set (path_components raw). kept c"
    by (simp add: path_components_def)
  then show ?thesis
    using sanitize_split [OF assms] by (simp add: path_components_def [of p] filter_id_conv)
qed

lemma sanitize_first:
  assumes "sanitize_relative_path raw = Ok p"
  shows "p \<noteq> []" "hd p \<noteq> CHR ''/''"
proof -
  obtain c cs where cs: "path_components raw = c # cs" "p = join_with (CHR ''/'') (c # cs)"
    using assms by (auto simp: sanitize_Ok neq_Nil_conv)
  then have "c \<in> set (path_components raw)"
    by simp
  then have "c \<in> set (split_on (CHR ''/'') raw)" and "c \<noteq> []"
    by (simp_all add: path_components_def)
  then have "hd c \<noteq> CHR ''/''"
    using split_on_no_sep by (metis hd_in_set)
  with cs \<open>c \<noteq> []\<close> show "p \<noteq> []" "hd p \<noteq> CHR ''/''"
    using join_hd by metis+
qed

lemma sanitize_bytes:
  assumes "sanitize_relative_path raw = Ok p"
  shows "set p \<subseteq> insert (CHR ''/'') (set raw)" "length p \<le> length raw"
proof -
  have p: "p = join_with (CHR ''/'') (path_components raw)"
    using assms by (simp add: sanitize_Ok)
  have "\<Union> (set ` set (path_components raw)) \<subseteq> set raw"
    using split_on_subset by (fastforce simp: path_components_def)
  then show "set p \<subseteq> insert (CHR ''/'') (set raw)"
    unfolding p using set_join by fastforce
  show "length p \<le> length raw"
    unfolding p path_components_def
    using length_join_filter [of _ kept] length_join_split by metis
qed

lemma path_join_sanitized:
  assumes "sanitize_relative_path raw = Ok p"
  shows "path_join base p = base @ path_components raw"
  using sanitize_first [OF assms] sanitize_components [OF assms] by (simp add: path_join_def)

text \<open>Reserved names have three or four bytes before the first dot.\<close>

lemma not_reserved_short:
  assumes "length (hd (split_on (CHR ''.'') c)) < 3"
  shows "\<not> is_reserved_device_name c"
proof -
  have "\<forall>r \<in> set RESERVED. 3 \<le> length r"
    by (simp add: RESERVED_def)
  moreover have "length r = length s" if "eq_ignore_ascii_case r s" for r s
    using that by (metis eq_ignore_ascii_case_def length_map)
  ultimately show ?thesis
    using assms by (fastforce simp: is_reserved_device_name_def list_ex_iff)
qed

lemmas sanitize_eval = sanitize_Ok safe_prefix_def is_control_def MAX_PATH_LEN_def
  path_components_def safe_component_def MAX_COMPONENT_LEN_def not_reserved_short

section \<open>Lemmas on validation\<close>

lemma validate_files_Ok:
  "validate_files ids paths acc fs = Ok ps \<longleftrightarrow>
     (\<exists>qs. ps = acc @ qs \<and> map (sanitize_relative_path \<circ> fm_relative_path) fs = map Ok qs
        \<and> distinct (map fm_file_id fs) \<and> set (map fm_file_id fs) \<inter> ids = {}
        \<and> distinct qs \<and> set qs \<inter> paths = {})"
proof (induction fs arbitrary: ids paths acc)
  case (Cons f fs)
  show ?case
  proof (cases "sanitize_relative_path (fm_relative_path f)")
    case (Ok path)
    show ?thesis
    proof (cases "fm_file_id f \<in> ids \<or> path \<in> paths")
      case True
      with Ok show ?thesis by (auto simp: map_eq_Cons_conv)
    next
      case False
      have "map (sanitize_relative_path \<circ> fm_relative_path) (f # fs) = map Ok qs \<longleftrightarrow>
          (\<exists>qs'. qs = path # qs' \<and> map (sanitize_relative_path \<circ> fm_relative_path) fs = map Ok qs')"
        for qs
        by (cases qs) (auto simp: Ok)
      with Ok False Cons.IH show ?thesis
        by (simp del: list.map(2)) (auto 0 4)
    qed
  next
    case (Err e)
    then show ?thesis by (auto simp: map_eq_Cons_conv)
  qed
qed auto

section \<open>Properties\<close>



text \<open>
  C20: joining a sanitized path to the output directory always yields a strict descendant of that
  directory: the directory's components followed by at least one component, none of which is empty,
  \<open>.\<close>, \<open>..\<close>, over-long, a reserved device name, ends in a dot or a space, or contains a slash, a
  backslash or a NUL byte.  The whole path is no longer than the limit.
\<close>

theorem sanitized_path_contained:
  assumes "sanitize_relative_path raw = Ok p"
  shows "\<exists>cs. path_join output_dir p = output_dir @ cs \<and> cs \<noteq> []
     \<and> (\<forall>c \<in> set cs. safe_component c \<and> set c \<inter> {CHR ''/'', CHR 0x5C, CHR 0x00} = {})
     \<and> length p \<le> MAX_PATH_LEN"
proof -
  have "safe_prefix raw" and ne: "path_components raw \<noteq> []"
    and safe: "\<forall>c \<in> set (path_components raw). safe_component c"
    using assms by (auto simp: sanitize_Ok)
  moreover have "set c \<inter> {CHR ''/'', CHR 0x5C, CHR 0x00} = {}" if "c \<in> set (path_components raw)" for c
  proof -
    have "c \<in> set (split_on (CHR ''/'') raw)"
      using that by (simp add: path_components_def)
    then have "CHR ''/'' \<notin> set c" "set c \<subseteq> set raw"
      by (rule split_on_no_sep, rule split_on_subset)
    with \<open>safe_prefix raw\<close> show ?thesis
      by (auto simp: safe_prefix_def)
  qed
  ultimately show ?thesis
    using path_join_sanitized [OF assms] sanitize_bytes(2) [OF assms]
    by (auto simp: safe_prefix_def)
qed

theorem sanitized_path_contained_witness:
  "sanitize_relative_path ''a/b'' = Ok ''a/b''
   \<and> (\<exists>cs. path_join [''home'', ''out''] ''a/b'' = [''home'', ''out''] @ cs \<and> cs \<noteq> [])"
proof -
  have h: "sanitize_relative_path ''a/b'' = Ok ''a/b''"
    by (simp add: sanitize_eval)
  from sanitized_path_contained [OF h, of "[''home'', ''out'']"] h show ?thesis
    by blast
qed

text \<open>
  A path made of ASCII bytes that was sanitized once is accepted again unchanged, with one
  exception: if its second byte is a colon, the second pass rejects it as a drive letter.  The first
  pass only looks at the second byte of the raw string, so \<open>./C:/x\<close> is accepted and becomes the
  drive path \<open>C:/x\<close> that the check means to refuse.
\<close>

theorem sanitize_twice:
  assumes "sanitize_relative_path raw = Ok p" and "\<forall>c \<in> set raw. of_char c < (128 :: nat)"
  shows "sanitize_relative_path p =
     (if 2 \<le> length p \<and> p ! 1 = CHR '':'' then Err (UnsafePath p ''contains a drive letter'')
      else Ok p)"
proof -
  have raw: "safe_prefix raw" and p: "p = join_with (CHR ''/'') (path_components raw)"
    using assms(1) by (simp_all add: sanitize_Ok)
  have ascii: "chars s = map of_char s" if "\<forall>c \<in> set s. of_char c < (128 :: nat)" for s
    using that by (induction s) auto
  note b = sanitize_bytes [OF assms(1)]
  have "chars p = map of_char p" "chars raw = map of_char raw"
    using b(1) assms(2) by (auto intro!: ascii)
  then have ctl: "\<not> list_ex is_control (chars p)"
    using raw b(1) by (fastforce simp: safe_prefix_def list_ex_iff is_control_def)
  have pre: "p \<noteq> []" "length p \<le> MAX_PATH_LEN" "CHR 0x00 \<notin> set p" "CHR 0x5C \<notin> set p"
      "hd p \<noteq> CHR ''/''"
    using raw b sanitize_first [OF assms(1)] by (auto simp: safe_prefix_def)
  show ?thesis
  proof (cases "2 \<le> length p \<and> p ! 1 = CHR '':''")
    case True
    with pre ctl show ?thesis
      by (simp add: sanitize_relative_path_def)
  next
    case False
    with pre ctl have "safe_prefix p"
      by (simp add: safe_prefix_def)
    then have "sanitize_relative_path p = Ok p"
      unfolding sanitize_Ok sanitize_components [OF assms(1)]
      using assms(1) [unfolded sanitize_Ok] by blast
    with False show ?thesis by simp
  qed
qed

theorem sanitize_twice_witness:
  "sanitize_relative_path ''./C:/x'' = Ok ''C:/x''
   \<and> sanitize_relative_path ''C:/x'' = Err (UnsafePath ''C:/x'' ''contains a drive letter'')"
proof -
  have h: "sanitize_relative_path ''./C:/x'' = Ok ''C:/x''"
    by (simp add: sanitize_eval)
  from sanitize_twice [OF h] h show ?thesis
    by simp
qed

text \<open>
  A manifest validates to a list of paths exactly when it has at most 20000 files, an accepted
  chunk size, pairwise distinct file ids, and every path sanitizes to the corresponding element of
  the list, which has no repetition: two entries never resolve to one file.
\<close>

theorem validate_exact:
  "validate m = Ok ps \<longleftrightarrow>
     length (mf_files m) \<le> MAX_FILES_PER_MANIFEST
     \<and> (\<exists>l. layout_new 0 (mf_chunk_size m) = Ok l)
     \<and> map (sanitize_relative_path \<circ> fm_relative_path) (mf_files m) = map Ok ps
     \<and> distinct (map fm_file_id (mf_files m)) \<and> distinct ps"
proof (cases "layout_new 0 (mf_chunk_size m)")
  case (Ok l)
  have "validate m = Ok ps \<longleftrightarrow>
      length (mf_files m) \<le> MAX_FILES_PER_MANIFEST \<and> validate_files {} {} [] (mf_files m) = Ok ps"
    by (simp add: validate_def Ok)
  with Ok show ?thesis
    by (simp add: validate_files_Ok)
next
  case (Err e)
  then show ?thesis
    by (simp add: validate_def)
qed

end
