(* ===== verification/Control_Channel.thy ===== *)
theory Control_Channel
  imports Manifest
begin

text \<open>
  The control channel of \<open>aetherlink-core/src/control.rs\<close>: message types, and the framing that
  writes a message as a header and a payload and reads it back.  The protobuf encoding is generated by
  the \<open>prost\<close> derive macro, which is not part of the sources: \<open>encode_to_vec\<close> and
  \<open>ControlMessage::decode\<close> are the arguments \<open>enc\<close> and \<open>dec\<close>.  A byte stream is the list of
  bytes still to arrive and whether it ends in a failure rather than a close.
\<close>

section \<open>Byte streams\<close>

datatype io_kind = UnexpectedEof | OtherIo

record in_stream =
  in_data :: bytes
  in_broken :: bool

definition read_exact :: "in_stream \<Rightarrow> nat \<Rightarrow> (bytes \<times> in_stream, io_kind) result" where
  "read_exact r n =
     (if n \<le> length (in_data r) then Ok (take n (in_data r), r\<lparr>in_data := drop n (in_data r)\<rparr>)
      else Err (if in_broken r then OtherIo else UnexpectedEof))"

record out_stream =
  out_data :: bytes
  out_open :: bool

definition write_all :: "out_stream \<Rightarrow> bytes \<Rightarrow> (out_stream, io_kind) result" where
  "write_all w bs =
     (if out_open w then Ok (w\<lparr>out_data := out_data w @ bs\<rparr>) else Err OtherIo)"

text \<open>\<open>From<std::io::Error> for Error\<close>.\<close>

definition io_error :: core_error where
  "io_error = Io (Fmt ''{e}'' [])"

section \<open>Messages\<close>

record file_entry =
  fe_file_id :: u64
  fe_relative_path :: string
  fe_size_bytes :: u64
  fe_mime_type :: string
  fe_root_hash :: bytes
  fe_chunk_hashes :: bytes
  fe_modified_unix_ms :: "64 word"
  fe_created_unix_ms :: "64 word"

record hello =
  he_protocol_version :: u32
  he_session_id :: bytes
  he_stream_count :: u32

record manifest_offer =
  mo_chunk_size :: u32
  mo_files :: "file_entry list"

record file_progress =
  fp_file_id :: u64
  fp_have_bitmap :: bytes

record manifest_accept =
  ma_accepted_file_ids :: "u64 list"
  ma_progress :: "file_progress list"

record transfer_complete =
  tc_bytes_written :: u64

record abort_msg =
  ab_reason :: msg_text

datatype body =
    Hello hello
  | Offer manifest_offer
  | Accept manifest_accept
  | Complete transfer_complete
  | Abort abort_msg

record control_message =
  cm_body :: "body option"

definition control_message_new :: "body \<Rightarrow> control_message" where
  "control_message_new b = \<lparr>cm_body = Some b\<rparr>"

definition into_body :: "control_message \<Rightarrow> (body, core_error) result" where
  "into_body m =
     (case cm_body m of
        Some b \<Rightarrow> Ok b
      | None \<Rightarrow> Err (Protocol (Fmt ''control message has no body'' [])))"

section \<open>Framing\<close>

definition write_control ::
    "(control_message \<Rightarrow> bytes) \<Rightarrow> out_stream \<Rightarrow> control_message \<Rightarrow> (out_stream, core_error) result" where
  "write_control enc w msg =
     (let payload = enc msg in
      if unat MAX_FRAME_PAYLOAD < length payload
      then Err (Protocol (Fmt ''control message of {} bytes exceeds the frame maximum''
             [TNum (length payload)]))
      else let header = frame_new Control 0 0 (of_nat (length payload)) in
        case write_all w (to_bytes header) of
          Err e \<Rightarrow> Err io_error
        | Ok w1 \<Rightarrow> (case write_all w1 payload of Err e \<Rightarrow> Err io_error | Ok w2 \<Rightarrow> Ok w2))"

definition read_control ::
    "(bytes \<Rightarrow> control_message option) \<Rightarrow> in_stream \<Rightarrow> (body \<times> in_stream, core_error) result" where
  "read_control dec r =
     (case read_exact r HEADER_LEN of
        Err e \<Rightarrow> Err io_error
      | Ok (header_buf, r1) \<Rightarrow>
      case decode header_buf of
        Err e \<Rightarrow> Err (Wire e)
      | Ok header \<Rightarrow>
      if fh_msg_type header \<noteq> Control
      then Err (Protocol (Fmt ''expected a control frame, got {:?}'' []))
      else case read_exact r1 (unat (fh_length header)) of
        Err e \<Rightarrow> Err io_error
      | Ok (payload, r2) \<Rightarrow>
      case dec payload of
        None \<Rightarrow> Err (Protocol (Fmt ''decoding control message: {e}'' []))
      | Some m \<Rightarrow> (case into_body m of Err e \<Rightarrow> Err e | Ok b \<Rightarrow> Ok (b, r2)))"

text \<open>Specification: the bytes of one control frame.\<close>

definition control_frame :: "(control_message \<Rightarrow> bytes) \<Rightarrow> control_message \<Rightarrow> bytes" where
  "control_frame enc m = to_bytes (frame_new Control 0 0 (of_nat (length (enc m)))) @ enc m"

definition fits_frame :: "(control_message \<Rightarrow> bytes) \<Rightarrow> control_message \<Rightarrow> bool" where
  "fits_frame enc m \<longleftrightarrow> length (enc m) \<le> unat MAX_FRAME_PAYLOAD"

text \<open>Reading a sequence of messages, as the two ends do on stream 0.\<close>

fun read_controls ::
    "(bytes \<Rightarrow> control_message option) \<Rightarrow> nat \<Rightarrow> in_stream \<Rightarrow> (body list \<times> in_stream, core_error) result" where
  "read_controls dec 0 r = Ok ([], r)"
| "read_controls dec (Suc n) r =
     (case read_control dec r of
        Err e \<Rightarrow> Err e
      | Ok (b, r') \<Rightarrow>
          (case read_controls dec n r' of Err e \<Rightarrow> Err e | Ok (bs, r'') \<Rightarrow> Ok (b # bs, r'')))"

section \<open>Lemmas\<close>

lemma read_exact_append [simp]:
  "in_data r = xs @ ys \<Longrightarrow> length xs = n \<Longrightarrow> read_exact r n = Ok (xs, r\<lparr>in_data := ys\<rparr>)"
  by (simp add: read_exact_def)

lemma read_exact_Ok:
  "read_exact r n = Ok (bs, r') \<longleftrightarrow>
     length bs = n \<and> in_data r = bs @ in_data r' \<and> in_broken r' = in_broken r"
proof
  assume "read_exact r n = Ok (bs, r')"
  then show "length bs = n \<and> in_data r = bs @ in_data r' \<and> in_broken r' = in_broken r"
    by (auto simp: read_exact_def split: if_splits)
next
  assume a: "length bs = n \<and> in_data r = bs @ in_data r' \<and> in_broken r' = in_broken r"
  then have "r\<lparr>in_data := in_data r'\<rparr> = r'"
    by (cases r, cases r') simp
  with a show "read_exact r n = Ok (bs, r')"
    by simp
qed

lemma MAX_FRAME_nat: "unat MAX_FRAME_PAYLOAD = 8 * 1024 * 1024"
  by (simp add: MAX_FRAME_PAYLOAD_def)

lemma control_header_wf:
  assumes "fits_frame enc m"
  shows "wf_header (frame_new Control 0 0 (of_nat (length (enc m))))"
    and "unat (of_nat (length (enc m)) :: u32) = length (enc m)"
proof -
  show u: "unat (of_nat (length (enc m)) :: u32) = length (enc m)"
    using assms by (intro unat_of_nat_u32) (simp add: fits_frame_def MAX_FRAME_nat)
  show "wf_header (frame_new Control 0 0 (of_nat (length (enc m))))"
    using assms by (simp add: wf_header_def frame_new_def FLAGS_NONE_def word_le_nat_alt u fits_frame_def)
qed

lemma write_control_Ok:
  assumes "fits_frame enc m" and "out_open w"
  shows "write_control enc w m = Ok (w\<lparr>out_data := out_data w @ control_frame enc m\<rparr>)"
  using assms by (simp add: write_control_def Let_def fits_frame_def write_all_def control_frame_def)

lemma read_control_frame:
  assumes "fits_frame enc m" "dec (enc m) = Some m" "cm_body m = Some b"
    and "in_data r = control_frame enc m @ rest"
  shows "read_control dec r = Ok (b, r\<lparr>in_data := rest\<rparr>)"
proof -
  let ?h = "frame_new Control 0 0 (of_nat (length (enc m)))"
  have "read_exact r HEADER_LEN = Ok (to_bytes ?h, r\<lparr>in_data := enc m @ rest\<rparr>)"
    using assms(4) by (simp add: control_frame_def)
  moreover have "decode (to_bytes ?h) = Ok ?h"
    using control_header_wf(1) [OF assms(1)] by (simp add: decode_accepts)
  ultimately show ?thesis
    using control_header_wf(2) [OF assms(1)] assms(2,3)
    by (simp add: read_control_def into_body_def frame_new_def)
qed

lemma read_control_Ok:
  "read_control dec r = Ok (b, r') \<longleftrightarrow>
     (\<exists>h payload. in_data r = to_bytes h @ payload @ in_data r' \<and> in_broken r' = in_broken r
        \<and> wf_header h \<and> fh_msg_type h = Control \<and> length payload = unat (fh_length h)
        \<and> dec payload = Some \<lparr>cm_body = Some b\<rparr>)" (is "?L \<longleftrightarrow> ?R")
proof
  assume ?L
  then obtain buf r1 h payload m where
    r1: "read_exact r HEADER_LEN = Ok (buf, r1)" and h: "decode buf = Ok h"
    and c: "fh_msg_type h = Control" and p: "read_exact r1 (unat (fh_length h)) = Ok (payload, r')"
    and m: "dec payload = Some m" "into_body m = Ok b"
    by (auto simp: read_control_def split: result.splits option.splits if_splits)
  have "m = \<lparr>cm_body = Some b\<rparr>"
    using m(2) by (cases m) (auto simp: into_body_def split: option.splits)
  moreover have "buf = to_bytes h" "wf_header h"
    using h r1 by (auto simp: decode_accepts read_exact_Ok)
  ultimately show ?R
    using r1 c p m(1) by (auto simp: read_exact_Ok)
next
  assume ?R
  then obtain h payload where a: "in_data r = to_bytes h @ payload @ in_data r'"
    "in_broken r' = in_broken r" "wf_header h" "fh_msg_type h = Control"
    "length payload = unat (fh_length h)" "dec payload = Some \<lparr>cm_body = Some b\<rparr>"
    by blast
  have "read_exact r HEADER_LEN = Ok (to_bytes h, r\<lparr>in_data := payload @ in_data r'\<rparr>)"
    using a(1) by simp
  moreover have "decode (to_bytes h) = Ok h"
    using a(3) by (simp add: decode_accepts)
  moreover have "read_exact (r\<lparr>in_data := payload @ in_data r'\<rparr>) (unat (fh_length h)) = Ok (payload, r')"
    using a(2,5) by (simp add: read_exact_Ok)
  ultimately show ?L
    using a(4,6) by (simp add: read_control_def into_body_def)
qed

lemma read_controls_frames:
  assumes "\<forall>m \<in> set ms. fits_frame enc m \<and> dec (enc m) = Some m \<and> cm_body m \<noteq> None"
    and "in_data r = concat (map (control_frame enc) ms) @ rest"
  shows "read_controls dec (length ms) r = Ok (map (the \<circ> cm_body) ms, r\<lparr>in_data := rest\<rparr>)"
  using assms
proof (induction ms arbitrary: r)
  case (Cons m ms)
  then obtain b where b: "cm_body m = Some b" by auto
  have "read_control dec r =
      Ok (b, r\<lparr>in_data := concat (map (control_frame enc) ms) @ rest\<rparr>)"
    using Cons.prems b by (intro read_control_frame) auto
  with Cons b show ?case by simp
qed simp

section \<open>Properties\<close>

text \<open>
  C24: a message written to an open stream as a control frame is read back unchanged at the other
  end, and the reader consumes exactly that frame.  This rests on the round-trip law of the
  protobuf encoding for that message and on the message fitting a frame.
\<close>

theorem control_roundtrip:
  assumes "dec (enc m) = Some m" and "cm_body m = Some b"
    and "length (enc m) \<le> unat MAX_FRAME_PAYLOAD" and "out_open w" and "out_data w = []"
  shows "\<exists>w'. write_control enc w m = Ok w'
     \<and> read_control dec \<lparr>in_data = out_data w' @ rest, in_broken = br\<rparr> =
         Ok (b, \<lparr>in_data = rest, in_broken = br\<rparr>)"
proof -
  have f: "fits_frame enc m"
    using assms(3) by (simp add: fits_frame_def)
  show ?thesis
    using write_control_Ok [OF f assms(4)] assms(5) f assms(1,2)
      read_control_frame [of enc m dec b "\<lparr>in_data = control_frame enc m @ rest, in_broken = br\<rparr>" rest]
    by simp
qed

theorem control_roundtrip_witness:
  "\<exists>w'. write_control (\<lambda>_. [8, 1]) \<lparr>out_data = [], out_open = True\<rparr>
         (control_message_new (Complete \<lparr>tc_bytes_written = 9\<rparr>)) = Ok w'
     \<and> read_control (\<lambda>_. Some (control_message_new (Complete \<lparr>tc_bytes_written = 9\<rparr>)))
         \<lparr>in_data = out_data w' @ [7], in_broken = False\<rparr> =
         Ok (Complete \<lparr>tc_bytes_written = 9\<rparr>, \<lparr>in_data = [7], in_broken = False\<rparr>)"
  by (rule control_roundtrip) (simp_all add: control_message_new_def MAX_FRAME_PAYLOAD_def)

text \<open>
  A control message is accepted exactly when the stream starts with a well-formed control
  header, followed by as many payload bytes as the header says, which decode to a message with a
  body; every other stream is an error, and the payload buffer never exceeds 8 MiB.
\<close>

theorem read_control_exact:
  "read_control dec r = Ok (b, r') \<longleftrightarrow>
     (\<exists>h payload. in_data r = to_bytes h @ payload @ in_data r' \<and> in_broken r' = in_broken r
        \<and> wf_header h \<and> fh_msg_type h = Control \<and> length payload = unat (fh_length h)
        \<and> dec payload = Some \<lparr>cm_body = Some b\<rparr>)"
  by (rule read_control_Ok)

end
