(* ===== verification/Storage.thy ===== *)
theory Storage
  imports Control_Channel
begin

text \<open>
  File access: \<open>aetherlink-core/src/io.rs\<close> and the disk part of \<open>platform.rs\<close>.  The file system
  is a map from paths to contents; the operating system is the argument \<open>os\<close>, which says for every
  call whether it fails, how pre-allocation answers, and how much of a failing write reaches the file.
  The lemmas show that a source file's chunks hash to what the manifest commits to, that pages are only
  released behind the hashing cursor, that pre-allocation sets the length and keeps the common prefix,
  and that a chunk reaches the file only after its hash matched.
\<close>

section \<open>Operating system and file system\<close>

type_synonym fs = "path \<rightharpoonup> bytes"

datatype os_call =
    OpenRead path | Stat path | MapFile path
  | CreateDirs path | OpenWrite path | SetLen path
  | WriteAt path nat | ReadAt path nat | SyncAll path | SyncData path
  | CreateFile path | WriteFile path | Rename path path | ReadFile path | RemoveFile path

datatype errno = EOPNOTSUPP | ENOSYS | ENOTSUP | EINVAL | OtherErrno

record os_env =
  os_fails :: "os_call \<Rightarrow> bool"
  os_fallocate :: "path \<Rightarrow> u64 \<Rightarrow> errno option"
  os_partial :: "path \<Rightarrow> nat \<Rightarrow> nat"
  os_page_size :: int

text \<open>\<open>ftruncate\<close>: cut or extend with zeros.\<close>

definition resize :: "nat \<Rightarrow> bytes \<Rightarrow> bytes" where
  "resize n xs = take n xs @ replicate (n - length xs) 0"

definition content :: "fs \<Rightarrow> path \<Rightarrow> bytes" where
  "content fs p = (case fs p of Some c \<Rightarrow> c | None \<Rightarrow> [])"

section \<open>Platform calls\<close>

datatype reserve_error = Unsupported | Failed errno

text \<open>Linux and Android: \<open>fallocate\<close> in its default mode extends the length as well.\<close>

definition reserve_blocks :: "os_env \<Rightarrow> fs \<Rightarrow> path \<Rightarrow> u64 \<Rightarrow> (fs, reserve_error) result" where
  "reserve_blocks os fs p sz =
     (case os_fallocate os p sz of
        None \<Rightarrow> Ok (fs(p \<mapsto> resize (max (unat sz) (length (content fs p))) (content fs p)))
      | Some e \<Rightarrow> if e = EOPNOTSUPP \<or> e = ENOSYS then Err Unsupported else Err (Failed e))"

text \<open>macOS and iOS: one contiguous extent is asked for first, then any blocks.\<close>

fun reserve_blocks_darwin_loop :: "(nat \<Rightarrow> errno option) \<Rightarrow> nat list \<Rightarrow> errno \<Rightarrow> (unit, reserve_error) result" where
  "reserve_blocks_darwin_loop fcntl [] err =
     (if err = ENOTSUP \<or> err = EINVAL then Err Unsupported else Err (Failed err))"
| "reserve_blocks_darwin_loop fcntl (flags # rest) err =
     (case fcntl flags of
        None \<Rightarrow> Ok ()
      | Some e \<Rightarrow> reserve_blocks_darwin_loop fcntl rest e)"

definition set_len :: "os_env \<Rightarrow> fs \<Rightarrow> path \<Rightarrow> u64 \<Rightarrow> (unit, core_error) result \<times> fs" where
  "set_len os fs p sz =
     (if os_fails os (SetLen p) then (Err (Io (Fmt ''setting file length: {e}'' [])), fs)
      else (Ok (), fs(p \<mapsto> resize (unat sz) (content fs p))))"

definition preallocate :: "os_env \<Rightarrow> fs \<Rightarrow> path \<Rightarrow> u64 \<Rightarrow> (unit, core_error) result \<times> fs" where
  "preallocate os fs p sz =
     (if sz = 0 then (Ok (), fs)
      else case reserve_blocks os fs p sz of
        Ok fs' \<Rightarrow> set_len os fs' p sz
      | Err Unsupported \<Rightarrow> set_len os fs p sz
      | Err (Failed e) \<Rightarrow>
          (Err (Io (Fmt ''pre-allocating {size} bytes: {e}'' [TNum (unat sz)])), fs))"

definition page_size :: "int \<Rightarrow> u64" where
  "page_size raw = (if 0 < raw then of_int raw else 4096)"

section \<open>The file being sent\<close>

definition RELEASE_BATCH_BYTES :: u64 where "RELEASE_BATCH_BYTES = 32 * 1024 * 1024"
definition HASH_PASS_RELEASE_THRESHOLD :: u64 where "HASH_PASS_RELEASE_THRESHOLD = 128 * 1024 * 1024"

record source_file =
  sf_map :: bytes
  sf_layout :: chunk_layout
  sf_page_size :: u64

definition source_open :: "os_env \<Rightarrow> fs \<Rightarrow> path \<Rightarrow> u32 \<Rightarrow> (source_file, core_error) result" where
  "source_open os fs p chunk_size =
     (case fs p of
        None \<Rightarrow> Err (Io (Fmt ''opening {}: {e}'' []))
      | Some c \<Rightarrow>
      if os_fails os (OpenRead p) then Err (Io (Fmt ''opening {}: {e}'' []))
      else if os_fails os (Stat p) then Err (Io (Fmt ''stat {}: {e}'' []))
      else let sz = of_nat (length c) in
      case layout_new sz chunk_size of
        Err e \<Rightarrow> Err (Wire e)
      | Ok l \<Rightarrow>
      if os_fails os (MapFile p) then Err (Io (Fmt ''mapping {}: {e}'' []))
      else Ok \<lparr>sf_map = take (unat sz) c, sf_layout = l,
               sf_page_size = page_size (os_page_size os)\<rparr>)"

definition source_size :: "source_file \<Rightarrow> u64" where
  "source_size f = cl_file_size (sf_layout f)"

definition source_chunk :: "source_file \<Rightarrow> u64 \<Rightarrow> (bytes, core_error) result" where
  "source_chunk f index =
     (case layout_range (sf_layout f) index of
        Err e \<Rightarrow> Err (Wire e)
      | Ok (offset, len) \<Rightarrow> Ok (sub_slice (sf_map f) (unat offset) (unat offset + unat len)))"

text \<open>
  \<open>release_range\<close>: the page range given to \<open>madvise\<close>, as its start and length, or \<open>None\<close>
  when the byte range covers no whole page.
\<close>

definition release_range :: "source_file \<Rightarrow> u64 \<Rightarrow> u64 \<Rightarrow> (u64 \<times> u64) option" where
  "release_range f start fin =
     (let ps = sf_page_size f;
          first_whole_page = div_ceil start ps * ps;
          last_whole_page = fin div ps * ps
      in if last_whole_page \<le> first_whole_page then None
         else Some (first_whole_page, last_whole_page - first_whole_page))"

definition end_of_chunk :: "source_file \<Rightarrow> u64 \<Rightarrow> u64" where
  "end_of_chunk f index =
     min (saturating_mul index (ucast (cl_chunk_size (sf_layout f)))) (cl_file_size (sf_layout f))"

text \<open>
  The hashing pass: the loop over \<open>0..count\<close> with the hashes so far, the released offset and the
  list of byte ranges handed to \<open>release_range\<close>.
\<close>

fun chunk_hashes_loop ::
    "(bytes \<Rightarrow> hash) \<Rightarrow> source_file \<Rightarrow> bool \<Rightarrow> u64 \<Rightarrow> hash list \<times> u64 \<times> (u64 \<times> u64) list \<Rightarrow> u64 list
     \<Rightarrow> (hash list \<times> u64 \<times> (u64 \<times> u64) list, core_error) result" where
  "chunk_hashes_loop blake3 f release_pages batch st [] = Ok st"
| "chunk_hashes_loop blake3 f release_pages batch (out, released_to, rel) (index # is) =
     (case layout_range (sf_layout f) index of
        Err e \<Rightarrow> Err (Wire e)
      | Ok (offset, len) \<Rightarrow>
      case source_chunk f index of
        Err e \<Rightarrow> Err e
      | Ok bs \<Rightarrow>
      let out' = out @ [hash_chunk blake3 bs];
          fin = offset + ucast len in
      if release_pages \<and> batch \<le> saturating_sub fin released_to
      then chunk_hashes_loop blake3 f release_pages batch (out', fin, rel @ [(released_to, fin)]) is
      else chunk_hashes_loop blake3 f release_pages batch (out', released_to, rel) is)"

definition chunk_hashes ::
    "(bytes \<Rightarrow> hash) \<Rightarrow> source_file \<Rightarrow> bool \<Rightarrow> (hash list \<times> (u64 \<times> u64) list, core_error) result" where
  "chunk_hashes blake3 f release_pages0 =
     (let release_pages = release_pages0 \<and> HASH_PASS_RELEASE_THRESHOLD < cl_file_size (sf_layout f);
          batch = max RELEASE_BATCH_BYTES (ucast (cl_chunk_size (sf_layout f)))
      in case chunk_hashes_loop blake3 f release_pages batch ([], 0, [])
                (map of_nat [0..<unat (cl_count (sf_layout f))]) of
           Err e \<Rightarrow> Err e
         | Ok (out, released_to, rel) \<Rightarrow> Ok (out, rel))"

section \<open>The file being received\<close>

record sink_file =
  sk_path :: path
  sk_layout :: chunk_layout

definition sink_create ::
    "os_env \<Rightarrow> fs \<Rightarrow> path \<Rightarrow> u64 \<Rightarrow> u32 \<Rightarrow> (sink_file, core_error) result \<times> fs" where
  "sink_create os fs p sz chunk_size =
     (if p \<noteq> [] \<and> os_fails os (CreateDirs (butlast p))
      then (Err (Io (Fmt ''creating {}: {e}'' [])), fs)
      else if os_fails os (OpenWrite p) then (Err (Io (Fmt ''creating {}: {e}'' [])), fs)
      else let fs1 = (case fs p of None \<Rightarrow> fs(p \<mapsto> []) | Some _ \<Rightarrow> fs) in
        case preallocate os fs1 p sz of
          (Err e, fs2) \<Rightarrow> (Err e, fs2)
        | (Ok _, fs2) \<Rightarrow>
            (case layout_new sz chunk_size of
               Err e \<Rightarrow> (Err (Wire e), fs2)
             | Ok l \<Rightarrow> (Ok \<lparr>sk_path = p, sk_layout = l\<rparr>, fs2)))"

definition sink_sync :: "os_env \<Rightarrow> sink_file \<Rightarrow> (unit, core_error) result" where
  "sink_sync os s =
     (if os_fails os (SyncAll (sk_path s)) then Err (Io (Fmt ''syncing {}: {e}'' [])) else Ok ())"

definition read_chunk :: "os_env \<Rightarrow> fs \<Rightarrow> sink_file \<Rightarrow> u64 \<Rightarrow> (bytes, core_error) result" where
  "read_chunk os fs s index =
     (case layout_range (sk_layout s) index of
        Err e \<Rightarrow> Err (Wire e)
      | Ok (offset, len) \<Rightarrow>
      let c = content fs (sk_path s) in
      if os_fails os (ReadAt (sk_path s) (unat offset)) \<or> length c < unat offset + unat len
      then Err (Io (Fmt ''reading chunk {index}: {e}'' [TNum (unat index)]))
      else Ok (sub_slice c (unat offset) (unat offset + unat len)))"

definition verify_and_write ::
    "os_env \<Rightarrow> (bytes \<Rightarrow> hash) \<Rightarrow> fs \<Rightarrow> path \<Rightarrow> u64 \<Rightarrow> bytes \<Rightarrow> hash \<Rightarrow> (unit, core_error) result \<times> fs" where
  "verify_and_write os blake3 fs p offset bs expected =
     (let actual = hash_chunk blake3 bs in
      if actual \<noteq> expected then (Err (ChunkVerificationFailed offset), fs)
      else if os_fails os (WriteAt p (unat offset))
      then (Err (Io (Fmt ''writing at offset {offset}: {e}'' [TNum (unat offset)])),
            fs(p \<mapsto> write_at (content fs p) (unat offset)
                        (take (os_partial os p (unat offset)) bs)))
      else (Ok (), fs(p \<mapsto> write_at (content fs p) (unat offset) bs)))"

section \<open>Lemmas on the platform calls\<close>

lemma length_resize [simp]: "length (resize n xs) = n"
  by (simp add: resize_def)

lemma resize_resize: "n \<le> m \<Longrightarrow> length xs \<le> m \<Longrightarrow> resize n (resize m xs) = resize n xs"
  by (simp add: resize_def min_def)

lemma resize_id: "n = length xs \<Longrightarrow> resize n xs = xs"
  by (simp add: resize_def)

lemma content_upd [simp]: "content (fs(p \<mapsto> c)) q = (if q = p then c else content fs q)"
  by (simp add: content_def)

lemma preallocate_Ok:
  assumes "preallocate os fs p sz = (Ok (), fs')"
  shows "fs' = (if sz = 0 then fs else fs(p \<mapsto> resize (unat sz) (content fs p)))"
proof (cases "sz = 0")
  case False
  with assms show ?thesis
    by (auto simp: preallocate_def reserve_blocks_def set_len_def resize_resize
        split: result.splits option.splits reserve_error.splits if_splits)
qed (use assms in \<open>simp add: preallocate_def\<close>)

lemma preallocate_other: "preallocate os fs p sz = (r, fs') \<Longrightarrow> q \<noteq> p \<Longrightarrow> fs' q = fs q"
  by (auto simp: preallocate_def reserve_blocks_def set_len_def
      split: result.splits option.splits reserve_error.splits if_splits)

section \<open>Lemmas on source files\<close>

lemma page_bounds:
  assumes "0 < (ps :: nat)"
  shows "(\<exists>k. s \<le> k * ps \<and> Suc k * ps \<le> e) \<longleftrightarrow> (s + ps - 1) div ps * ps < e div ps * ps"
proof
  assume "\<exists>k. s \<le> k * ps \<and> Suc k * ps \<le> e"
  then obtain k where k: "s \<le> k * ps" "Suc k * ps \<le> e" by blast
  have "(s + ps - 1) div ps \<le> k"
    using k(1) assms by (metis nat_less_div_ceil not_le)
  moreover have "Suc k \<le> e div ps"
    using k(2) assms by (simp add: less_eq_div_iff_mult_less_eq)
  ultimately show "(s + ps - 1) div ps * ps < e div ps * ps"
    using assms by simp
next
  assume a: "(s + ps - 1) div ps * ps < e div ps * ps"
  have "s \<le> (s + ps - 1) div ps * ps"
    using assms nat_less_div_ceil [of ps "(s + ps - 1) div ps" s] by simp
  moreover have "Suc ((s + ps - 1) div ps) * ps \<le> e"
    using a assms by (metis Suc_leI less_eq_div_iff_mult_less_eq mult_less_cancel2)
  ultimately show "\<exists>k. s \<le> k * ps \<and> Suc k * ps \<le> e" by blast
qed

definition source_ok :: "source_file \<Rightarrow> bool" where
  "source_ok f \<longleftrightarrow> layout_ok (sf_layout f) \<and> length (sf_map f) = fsize (sf_layout f)"

lemma source_open_ok:
  assumes "source_open os fs p cs = Ok f" and "fs p = Some c" and "length c < 2 ^ 64"
  shows "source_ok f \<and> sf_map f = c \<and> cl_chunk_size (sf_layout f) = cs
     \<and> cl_file_size (sf_layout f) = of_nat (length c)"
proof -
  have l: "layout_new (of_nat (length c)) cs = Ok (sf_layout f)"
    and m: "sf_map f = take (unat (of_nat (length c) :: u64)) c"
    using assms(1,2) by (auto simp: source_open_def Let_def split: if_splits result.splits)
  have "unat (of_nat (length c) :: u64) = length c"
    using assms(3) by (rule unat_of_nat_u64)
  with layout_new_ok [OF l] m show ?thesis
    by (simp add: source_ok_def)
qed

lemma source_chunk_Ok:
  assumes "source_ok f" and "unat i < ccount (sf_layout f)"
  shows "source_chunk f i = Ok (chunk_of (sf_layout f) (sf_map f) (unat i))"
proof -
  obtain off len where "layout_range (sf_layout f) i = Ok (off, len)"
      "unat off = chunk_start (sf_layout f) (unat i)" "unat len = chunk_len (sf_layout f) (unat i)"
    using layout_range_exists assms by (metis source_ok_def)
  then show ?thesis
    by (simp add: source_chunk_def chunk_of_def)
qed

text \<open>Ranges that start where the previous one ended.\<close>

fun contiguous_from :: "u64 \<Rightarrow> (u64 \<times> u64) list \<Rightarrow> u64 \<Rightarrow> bool" where
  "contiguous_from a [] b \<longleftrightarrow> a = b"
| "contiguous_from a ((s, e) # rs) b \<longleftrightarrow> s = a \<and> s \<le> e \<and> contiguous_from e rs b"

lemma contiguous_snoc:
  "contiguous_from a (rs @ [(s, e)]) b \<longleftrightarrow> contiguous_from a rs s \<and> s \<le> e \<and> e = b"
  by (induction rs arbitrary: a) auto

lemma contiguous_le: "contiguous_from a rs b \<Longrightarrow> a \<le> b \<and> (\<forall>r \<in> set rs. snd r \<le> b)"
proof (induction rs arbitrary: a)
  case (Cons r rs)
  then show ?case by (cases r) fastforce
qed simp

text \<open>The state of the hashing pass before chunk \<open>k\<close>.\<close>

definition hash_pass_inv ::
    "(bytes \<Rightarrow> hash) \<Rightarrow> source_file \<Rightarrow> u64 \<Rightarrow> nat \<Rightarrow> hash list \<times> u64 \<times> (u64 \<times> u64) list \<Rightarrow> bool" where
  "hash_pass_inv blake3 f batch k st \<longleftrightarrow>
     (case st of (out, rt, rel) \<Rightarrow>
        out = map (blake3 \<circ> chunk_of (sf_layout f) (sf_map f)) [0..<k]
        \<and> unat rt \<le> min (chunk_start (sf_layout f) k) (fsize (sf_layout f))
        \<and> contiguous_from 0 rel rt
        \<and> (\<forall>(s, e) \<in> set rel. unat batch \<le> unat e - unat s))"

lemma chunk_hashes_loop_inv:
  assumes "source_ok f"
    and "hash_pass_inv blake3 f batch k st" and "k \<le> n" and "n \<le> ccount (sf_layout f)"
  shows "\<exists>st'. chunk_hashes_loop blake3 f rp batch st (map of_nat [k..<n]) = Ok st'
     \<and> hash_pass_inv blake3 f batch n st' \<and> (\<not> rp \<longrightarrow> snd (snd st') = snd (snd st))"
  using assms(3,2)
proof (induction k arbitrary: st rule: inc_induct)
  case base
  then show ?case by simp
next
  case (step k)
  obtain out rt rel where st: "st = (out, rt, rel)" by (cases st)
  let ?l = "sf_layout f"
  have ok: "layout_ok ?l" and k: "k < ccount ?l"
    using assms(1,4) step.hyps by (auto simp: source_ok_def)
  have k64: "unat (of_nat k :: u64) = k"
    using k unat_less_exp [of "cl_count ?l"] by (simp add: unat_of_nat_u64)
  obtain off len where r: "layout_range ?l (of_nat k) = Ok (off, len)"
      "unat off = chunk_start ?l k" "unat len = chunk_len ?l k"
    using layout_range_exists [OF ok, of "of_nat k"] k k64 by metis
  note b = chunk_len_bounds [OF ok k]
  define fin where "fin = off + ucast len"
  have fin: "unat fin = min (chunk_start ?l (Suc k)) (fsize ?l)"
  proof -
    have "unat fin = chunk_start ?l k + chunk_len ?l k"
      using r b unat_less_exp [of "cl_file_size ?l"]
      by (simp add: fin_def unat_add_exact geom_simps)
    then show ?thesis
      using k chunk_next [of ?l k] index_less_count [OF ok, of k]
      by (simp add: chunk_len_def min_def) arith
  qed
  have c: "source_chunk f (of_nat k) = Ok (chunk_of ?l (sf_map f) k)"
    using source_chunk_Ok [OF assms(1), of "of_nat k"] k k64 by simp
  have rt: "unat rt \<le> unat fin"
    using step.prems fin by (auto simp: hash_pass_inv_def st chunk_start_def)
  define st1 where "st1 = (if rp \<and> batch \<le> saturating_sub fin rt
      then (out @ [blake3 (chunk_of ?l (sf_map f) k)], fin, rel @ [(rt, fin)])
      else (out @ [blake3 (chunk_of ?l (sf_map f) k)], rt, rel))"
  have unfold: "chunk_hashes_loop blake3 f rp batch st (map of_nat [k..<n]) =
      chunk_hashes_loop blake3 f rp batch st1 (map of_nat [Suc k..<n])"
    using step.hyps r c
    by (simp add: st upt_conv_Cons st1_def fin_def hash_chunk_def Let_def)
  have "hash_pass_inv blake3 f batch (Suc k) st1"
    using step.prems fin rt
    by (auto simp: hash_pass_inv_def st st1_def contiguous_snoc word_le_nat_alt geom_simps
        chunk_start_def)
  with step.IH [of st1] show ?case
    unfolding unfold by (auto simp: st1_def st split: if_splits)
qed

lemma chunk_hashes_spec:
  assumes "source_ok f"
  shows "\<exists>rel. chunk_hashes blake3 f rp =
      Ok (map (blake3 \<circ> chunk_of (sf_layout f) (sf_map f)) [0..<ccount (sf_layout f)], rel)
    \<and> (\<exists>b. contiguous_from 0 rel b \<and> unat b \<le> fsize (sf_layout f))
    \<and> (\<forall>(s, e) \<in> set rel. 32 * 1024 * 1024 \<le> unat e - unat s)
    \<and> (\<not> rp \<or> fsize (sf_layout f) \<le> 128 * 1024 * 1024 \<longrightarrow> rel = [])"
proof -
  define batch where "batch = max RELEASE_BATCH_BYTES (ucast (cl_chunk_size (sf_layout f)))"
  define rp' where "rp' \<longleftrightarrow> rp \<and> HASH_PASS_RELEASE_THRESHOLD < cl_file_size (sf_layout f)"
  have "hash_pass_inv blake3 f batch 0 ([], 0, [])"
    by (simp add: hash_pass_inv_def)
  then obtain out rt rel where
    loop: "chunk_hashes_loop blake3 f rp' batch ([], 0, []) (map of_nat [0..<ccount (sf_layout f)]) =
        Ok (out, rt, rel)"
    and inv: "hash_pass_inv blake3 f batch (ccount (sf_layout f)) (out, rt, rel)"
    and none: "\<not> rp' \<longrightarrow> rel = []"
    using chunk_hashes_loop_inv [OF assms, of blake3 batch 0 "([], 0, [])" "ccount (sf_layout f)" rp']
    by auto
  have "chunk_hashes blake3 f rp = Ok (out, rel)"
    using loop by (simp add: chunk_hashes_def Let_def batch_def rp'_def)
  moreover have "32 * 1024 * 1024 \<le> unat batch"
    by (simp add: batch_def geom_simps RELEASE_BATCH_BYTES_def)
  moreover have "\<not> rp' \<longleftrightarrow> \<not> rp \<or> fsize (sf_layout f) \<le> 128 * 1024 * 1024"
    by (simp add: rp'_def HASH_PASS_RELEASE_THRESHOLD_def word_less_nat_alt not_less)
  ultimately show ?thesis
    using inv none by (fastforce simp: hash_pass_inv_def)
qed

section \<open>Interface: a store of chunks\<close>

text \<open>
  What the receiver relies on: chunks are placed at their own positions, independently of each other,
  and the chunks determine the content.
\<close>

locale chunk_store =
  fixes fits :: "'l \<Rightarrow> 's \<Rightarrow> bool" and num :: "'l \<Rightarrow> nat"
    and put :: "'l \<Rightarrow> nat \<Rightarrow> bytes \<Rightarrow> 's \<Rightarrow> 's" and piece :: "'l \<Rightarrow> 's \<Rightarrow> nat \<Rightarrow> bytes"
  assumes put_fits: "fits l s \<Longrightarrow> i < num l \<Longrightarrow> fits l d \<Longrightarrow> fits l (put l i (piece l d i) s)"
    and piece_put: "fits l s \<Longrightarrow> i < num l \<Longrightarrow> j < num l \<Longrightarrow> fits l d \<Longrightarrow>
        piece l (put l i (piece l d i) s) j = (if j = i then piece l d i else piece l s j)"
    and pieces_determine: "fits l s \<Longrightarrow> fits l d \<Longrightarrow> (\<And>i. i < num l \<Longrightarrow> piece l s i = piece l d i) \<Longrightarrow> s = d"
begin

lemma put_fold:
  assumes "fits l d" and "fits l s" and "\<forall>i \<in> set is. i < num l"
  shows "fits l (fold (\<lambda>i. put l i (piece l d i)) is s) \<and>
    (\<forall>j < num l. piece l (fold (\<lambda>i. put l i (piece l d i)) is s) j =
       (if j \<in> set is then piece l d j else piece l s j))"
  using assms(2,3)
proof (induction "is" arbitrary: s)
  case (Cons i "is")
  with put_fits [of l s i d] piece_put [of l s i _ d] assms(1) show ?case
    by auto
qed simp

lemma put_all:
  assumes "fits l d" and "fits l s" and "\<forall>i \<in> set is. i < num l"
    and "\<And>j. j < num l \<Longrightarrow> j \<in> set is \<or> piece l s j = piece l d j"
  shows "fold (\<lambda>i. put l i (piece l d i)) is s = d"
  using put_fold [OF assms(1-3)] assms(1,4)
  by (intro pieces_determine [where l = l]) auto

end

definition place :: "chunk_layout \<Rightarrow> nat \<Rightarrow> bytes \<Rightarrow> bytes \<Rightarrow> bytes" where
  "place l i bs c = write_at c (chunk_start l i) bs"

definition file_fits :: "chunk_layout \<Rightarrow> bytes \<Rightarrow> bool" where
  "file_fits l c \<longleftrightarrow> layout_ok l \<and> length c = fsize l"

lemma chunk_of_place:
  assumes "file_fits l c" and "i < ccount l" and "length bs = chunk_len l i"
  shows "chunk_of l (place l i bs c) j = (if j = i then bs else chunk_of l c j)"
proof -
  have "chunk_start l i + length bs \<le> length c"
    using assms chunk_len_bounds(3) [of l i] by (simp add: file_fits_def)
  with assms(3) show ?thesis
    using chunks_disjoint [of i j l]
      sub_slice_write_at_same [of "chunk_start l i" bs c]
      sub_slice_write_at_other [of "chunk_start l i" bs c]
    by (auto simp: chunk_of_def place_def)
qed

lemma place_fits:
  assumes "file_fits l c" and "i < ccount l" and "length bs = chunk_len l i"
  shows "file_fits l (place l i bs c)"
  using assms chunk_len_bounds(3) [of l i] by (simp add: file_fits_def place_def length_write_at)

lemma chunks_determine_file:
  assumes "file_fits l c" and "file_fits l d" and "\<And>i. i < ccount l \<Longrightarrow> chunk_of l c i = chunk_of l d i"
  shows "c = d"
proof -
  have "map (chunk_of l c) [0..<ccount l] = map (chunk_of l d) [0..<ccount l]"
    using assms(3) by simp
  then show ?thesis
    using assms(1,2) by (metis concat_chunk_of file_fits_def)
qed

interpretation store: chunk_store file_fits ccount place chunk_of
proof unfold_locales
  fix l s i d assume h: "file_fits l s" "i < ccount l" "file_fits l d"
  then have len: "length (chunk_of l d i) = chunk_len l i"
    by (simp add: file_fits_def length_chunk_of)
  then show "file_fits l (place l i (chunk_of l d i) s)"
    using h by (simp add: place_fits)
  show "chunk_of l (place l i (chunk_of l d i) s) j =
      (if j = i then chunk_of l d i else chunk_of l s j)" if "j < ccount l" for j
    using h len by (simp add: chunk_of_place)
qed (rule chunks_determine_file)

section \<open>Lemmas on sink files\<close>

lemma sink_create_Ok:
  assumes "sink_create os fs p sz cs = (Ok s, fs')"
  shows "sk_path s = p" "layout_new sz cs = Ok (sk_layout s)"
    "fs' = fs(p \<mapsto> (if sz = 0 then content fs p else resize (unat sz) (content fs p)))"
proof -
  define fs1 where "fs1 = (case fs p of None \<Rightarrow> fs(p \<mapsto> []) | Some _ \<Rightarrow> fs)"
  have fs1: "fs1 = fs(p \<mapsto> content fs p)"
    by (auto simp: fs1_def content_def fun_eq_iff split: option.splits)
  have pre: "preallocate os fs1 p sz = (Ok (), fs')"
    and s: "sk_path s = p \<and> layout_new sz cs = Ok (sk_layout s)"
    using assms by (auto simp: sink_create_def Let_def fs1_def [symmetric]
        split: if_splits prod.splits result.splits)
  from s show "sk_path s = p" "layout_new sz cs = Ok (sk_layout s)" by auto
  show "fs' = fs(p \<mapsto> (if sz = 0 then content fs p else resize (unat sz) (content fs p)))"
    using preallocate_Ok [OF pre] by (simp add: fs1)
qed

lemma read_chunk_Ok:
  assumes "file_fits (sk_layout s) (content fs (sk_path s))" and "unat i < ccount (sk_layout s)"
  shows "read_chunk os fs s i =
     (if os_fails os (ReadAt (sk_path s) (chunk_start (sk_layout s) (unat i)))
      then Err (Io (Fmt ''reading chunk {index}: {e}'' [TNum (unat i)]))
      else Ok (chunk_of (sk_layout s) (content fs (sk_path s)) (unat i)))"
proof -
  have ok: "layout_ok (sk_layout s)" using assms(1) by (simp add: file_fits_def)
  obtain off len where r: "layout_range (sk_layout s) i = Ok (off, len)"
      "unat off = chunk_start (sk_layout s) (unat i)" "unat len = chunk_len (sk_layout s) (unat i)"
    using layout_range_exists [OF ok assms(2)] .
  have "\<not> length (content fs (sk_path s)) < unat off + unat len"
    using assms(1) chunk_len_bounds(3) [OF ok assms(2)] r by (simp add: file_fits_def)
  with r show ?thesis
    by (simp add: read_chunk_def Let_def chunk_of_def)
qed

section \<open>Properties\<close>

text \<open>
  C31: opening a source file and hashing it gives, in order, the hash of every chunk of the file's
  bytes, and the root the manifest commits to is computed from those.  Pages are released behind the
  cursor only: the released ranges start at 0, each starts where the previous one ended, each is at
  least 32 MiB, none reaches past the file, and there are none when releasing is off or the file has at
  most 128 MiB.
\<close>

theorem chunk_hashes_exact:
  assumes "source_open os fs p cs = Ok f" and "fs p = Some c" and "length c < 2 ^ 64"
  shows "\<exists>rel b. chunk_hashes blake3 f rp =
      Ok (map (blake3 \<circ> chunk_of (sf_layout f) c) [0..<ccount (sf_layout f)], rel)
    \<and> concat (map (chunk_of (sf_layout f) c) [0..<ccount (sf_layout f)]) = c
    \<and> contiguous_from 0 rel b \<and> unat b \<le> length c
    \<and> (\<forall>(s, e) \<in> set rel. 32 * 1024 * 1024 \<le> unat e - unat s)
    \<and> (\<not> rp \<or> length c \<le> 128 * 1024 * 1024 \<longrightarrow> rel = [])"
proof -
  have "source_ok f" "sf_map f = c"
    using source_open_ok [OF assms] by auto
  then show ?thesis
    using chunk_hashes_spec [of f blake3 rp] concat_chunk_of [of "sf_layout f" c]
    by (auto simp: source_ok_def)
qed

definition quiet_os :: os_env where
  "quiet_os = \<lparr>os_fails = (\<lambda>_. False), os_fallocate = (\<lambda>_ _. None), os_partial = (\<lambda>_ _. 0),
               os_page_size = 4096\<rparr>"

theorem chunk_hashes_exact_witness:
  "\<exists>f. source_open quiet_os [[''a''] \<mapsto> [1, 2, 3]] [''a''] MIN_CHUNK_SIZE = Ok f
     \<and> chunk_hashes (\<lambda>b. b) f True = Ok ([[1, 2, 3]], [])"
proof -
  define l where "l = \<lparr>cl_file_size = (3 :: u64), cl_chunk_size = MIN_CHUNK_SIZE, cl_count = (1 :: u64)\<rparr>"
  define f where "f = \<lparr>sf_map = [1, 2, 3 :: u8], sf_layout = l, sf_page_size = 4096\<rparr>"
  have l: "layout_new 3 MIN_CHUNK_SIZE = Ok l" unfolding l_def by code_simp
  then have o: "source_open quiet_os [[''a''] \<mapsto> [1, 2, 3]] [''a''] MIN_CHUNK_SIZE = Ok f"
    by (simp add: source_open_def quiet_os_def f_def page_size_def)
  have "chunk_of l [1, 2, 3 :: u8] 0 = [1, 2, 3]"
    by (simp add: chunk_of_def chunk_start_def chunk_len_def sub_slice_def l_def MIN_CHUNK_SIZE_def)
  then show ?thesis
    using chunk_hashes_exact [OF o, of "[1, 2, 3]" "\<lambda>b. b" True] o
    by (auto simp: f_def l_def)
qed

text \<open>
  Releasing pages rounds inward: the range handed to the kernel starts and ends on page boundaries
  and lies inside the byte range it was asked to release, and when nothing is handed over the byte range
  holds no whole page.
\<close>

theorem release_rounds_inward:
  assumes "0 < sf_page_size f" and "unat start + unat (sf_page_size f) \<le> 2 ^ 64"
  shows "case release_range f start fin of
      Some (a, n) \<Rightarrow> 0 < n \<and> unat start \<le> unat a \<and> unat a + unat n \<le> unat fin
        \<and> unat (sf_page_size f) dvd unat a \<and> unat (sf_page_size f) dvd unat a + unat n
    | None \<Rightarrow> \<not> (\<exists>k. unat start \<le> k * unat (sf_page_size f)
                    \<and> Suc k * unat (sf_page_size f) \<le> unat fin)"
proof -
  define ps where "ps = sf_page_size f"
  define a where "a = div_ceil start ps * ps"
  define b where "b = fin div ps * ps"
  have ps: "0 < unat ps"
    using assms(1) by (simp add: ps_def word_less_nat_alt)
  have "(unat start + unat ps - 1) div unat ps * unat ps < 2 ^ 64"
    using div_times_less_eq_dividend [of "unat start + unat ps - 1" "unat ps"] assms(2) [folded ps_def] ps
    by linarith
  then have a: "unat a = (unat start + unat ps - 1) div unat ps * unat ps"
    using ps by (simp add: a_def unat_mult_exact unat_div_ceil)
  have b: "unat b = unat fin div unat ps * unat ps"
    unfolding b_def
    by (subst unat_mult_exact)
      (use le_less_trans [OF div_times_less_eq_dividend unat_less_exp [of fin]]
        in \<open>simp_all add: unat_div_distrib\<close>)
  have sa: "unat start \<le> unat a"
    using nat_less_div_ceil [OF ps, of "(unat start + unat ps - 1) div unat ps" "unat start"] by (simp add: a)
  have r: "release_range f start fin = (if b \<le> a then None else Some (a, b - a))"
    by (simp add: release_range_def Let_def a_def b_def ps_def)
  show ?thesis
  proof (cases "b \<le> a")
    case True
    then show ?thesis
      using page_bounds [OF ps, of "unat start" "unat fin"] a b
      by (auto simp: r word_le_nat_alt ps_def not_less)
  next
    case False
    then have "unat a + unat (b - a) = unat b" "0 < b - a"
      by (auto simp: word_le_nat_alt unat_sub_exact word_less_nat_alt)
    with False sa show ?thesis
      by (simp add: r ps_def [symmetric]) (simp add: a b)
  qed
qed

theorem release_rounds_inward_witness:
  "\<exists>f. sf_page_size f = 4096 \<and> release_range f 1 16384 = Some (4096, 12288)
     \<and> (4096 :: nat) dvd unat (4096 :: u64) + unat (12288 :: u64)"
proof -
  define f where "f = \<lparr>sf_map = [], sf_layout = \<lparr>cl_file_size = 0, cl_chunk_size = MIN_CHUNK_SIZE, cl_count = 0\<rparr>,
    sf_page_size = (4096 :: u64)\<rparr>"
  have r: "release_range f 1 16384 = Some (4096, 12288)"
    by (simp add: release_range_def f_def div_ceil_def)
  then have "sf_page_size f = 4096 \<and> release_range f 1 16384 = Some (4096, 12288)
     \<and> (4096 :: nat) dvd unat (4096 :: u64) + unat (12288 :: u64)"
    using release_rounds_inward [of f 1 16384] by (simp add: f_def)
  then show ?thesis by blast
qed

text \<open>
  C35: creating the staging file of a non-empty file gives it exactly the offered length: what was
  there is kept up to that length and the rest reads as zeros.  For an offered size of 0 an existing
  file keeps its whole content.  No other path changes.
\<close>

theorem sink_create_content:
  assumes "sink_create os fs p sz cs = (Ok s, fs')"
  shows "content fs' p = (if sz = 0 then content fs p
           else take (unat sz) (content fs p) @ replicate (unat sz - length (content fs p)) 0)
     \<and> (\<forall>q. q \<noteq> p \<longrightarrow> fs' q = fs q)
     \<and> (sz \<noteq> 0 \<longrightarrow> file_fits (sk_layout s) (content fs' (sk_path s)))"
  using sink_create_Ok [OF assms] layout_new_ok [of sz cs "sk_layout s"]
  by (auto simp: resize_def file_fits_def)

theorem sink_create_content_witness:
  "\<exists>s fs'. sink_create quiet_os [[''a''] \<mapsto> [1, 2, 3]] [''a''] 0 MIN_CHUNK_SIZE = (Ok s, fs')
     \<and> content fs' [''a''] = [1, 2, 3]"
proof -
  define l where "l = \<lparr>cl_file_size = (0 :: u64), cl_chunk_size = MIN_CHUNK_SIZE, cl_count = (0 :: u64)\<rparr>"
  have "layout_new 0 MIN_CHUNK_SIZE = Ok l" unfolding l_def by code_simp
  then have "sink_create quiet_os [[''a''] \<mapsto> [1, 2, 3]] [''a''] 0 MIN_CHUNK_SIZE =
      (Ok \<lparr>sk_path = [''a''], sk_layout = l\<rparr>, [[''a''] \<mapsto> [1, 2, 3]])"
    by (simp add: sink_create_def quiet_os_def preallocate_def)
  from sink_create_content [OF this] this show ?thesis
    by (auto simp: content_def)
qed

text \<open>
  C21: a chunk reaches the file only after its hash matched.  On a mismatch nothing changes; on success
  the file keeps its length, the chunk reads back as the bytes that were verified and every other chunk
  reads as before; no other file changes in any case.
\<close>

theorem verify_before_write:
  assumes "file_fits (sk_layout s) (content fs (sk_path s))"
    and "layout_range (sk_layout s) i = Ok (offset, len)" and "length bs = unat len"
    and "verify_and_write os blake3 fs (sk_path s) offset bs expected = (r, fs')"
  shows "(blake3 bs \<noteq> expected \<longrightarrow> r = Err (ChunkVerificationFailed offset) \<and> fs' = fs)
     \<and> (r = Ok () \<longrightarrow> blake3 bs = expected
          \<and> file_fits (sk_layout s) (content fs' (sk_path s))
          \<and> (\<forall>j. unat j < ccount (sk_layout s) \<longrightarrow> read_chunk quiet_os fs' s j =
               (if j = i then Ok bs else read_chunk quiet_os fs s j)))
     \<and> (\<forall>q. q \<noteq> sk_path s \<longrightarrow> fs' q = fs q)"
proof -
  let ?l = "sk_layout s" and ?c = "content fs (sk_path s)"
  have g: "unat i < ccount ?l" "unat offset = chunk_start ?l (unat i)" "unat len = chunk_len ?l (unat i)"
    using assms(1,2) layout_range_Ok [of ?l] by (auto simp: file_fits_def)
  have ok: "r = Ok () \<Longrightarrow> blake3 bs = expected \<and> fs' = fs(sk_path s \<mapsto> place ?l (unat i) bs ?c)"
    using assms(4) g by (auto simp: verify_and_write_def hash_chunk_def Let_def place_def split: if_splits)
  have "file_fits ?l (place ?l (unat i) bs ?c)"
    using assms(1,3) g by (simp add: place_fits)
  then have "r = Ok () \<Longrightarrow> unat j < ccount ?l \<Longrightarrow> read_chunk quiet_os fs' s j =
      (if j = i then Ok bs else read_chunk quiet_os fs s j)" for j
    using ok assms(1,3) g
    by (auto simp: read_chunk_Ok chunk_of_place quiet_os_def word_unat_eq_iff)
  moreover have "(blake3 bs \<noteq> expected \<longrightarrow> r = Err (ChunkVerificationFailed offset) \<and> fs' = fs)
      \<and> (\<forall>q. q \<noteq> sk_path s \<longrightarrow> fs' q = fs q)"
    using assms(4) by (auto simp: verify_and_write_def hash_chunk_def Let_def split: if_splits)
  ultimately show ?thesis
    using ok \<open>file_fits ?l (place ?l (unat i) bs ?c)\<close> by auto
qed

theorem verify_before_write_witness:
  "\<exists>s fs. content fs (sk_path s) = [0, 0, 0] \<and> file_fits (sk_layout s) (content fs (sk_path s))
     \<and> (\<exists>fs'. verify_and_write quiet_os (\<lambda>b. b) fs (sk_path s) 0 [1, 2, 3] [1, 2, 3] = (Ok (), fs')
          \<and> read_chunk quiet_os fs' s 0 = Ok [1, 2, 3])"
proof -
  define l where "l = \<lparr>cl_file_size = (3 :: u64), cl_chunk_size = MIN_CHUNK_SIZE, cl_count = (1 :: u64)\<rparr>"
  define s where "s = \<lparr>sk_path = [''a''], sk_layout = l\<rparr>"
  define fs :: fs where "fs = [[''a''] \<mapsto> [0, 0, 0]]"
  have "layout_new 3 MIN_CHUNK_SIZE = Ok l" unfolding l_def by code_simp
  then have h: "file_fits (sk_layout s) (content fs (sk_path s))"
    using layout_new_ok [of 3 MIN_CHUNK_SIZE l] by (simp add: file_fits_def s_def fs_def content_def)
  have r: "layout_range (sk_layout s) 0 = Ok (0, 3)"
    by (simp add: s_def l_def layout_range_def MIN_CHUNK_SIZE_def)
  obtain fs' where v: "verify_and_write quiet_os (\<lambda>b. b) fs (sk_path s) 0 [1, 2, 3] [1, 2, 3] = (Ok (), fs')"
    by (simp add: verify_and_write_def hash_chunk_def quiet_os_def)
  have "read_chunk quiet_os fs' s 0 = Ok [1, 2, 3]"
    using verify_before_write [OF h r _ v] by (simp add: s_def l_def)
  with h v show ?thesis
    by (intro exI [of _ s] exI [of _ fs]) (auto simp: s_def fs_def content_def)
qed

end
