(* ===== verification/Bitmap.thy ===== *)
theory Bitmap
  imports Chunk
begin

text \<open>
  The resume bitmap of \<open>aetherlink-proto/src/bitmap.rs\<close>: one bit per chunk, least significant bit
  first within each byte, with a cached number of set bits.  The abstract view is a list of booleans;
  every operation is shown to refine the list operation it stands for, and the run-length iteration
  of \<open>missing_ranges\<close> to enumerate exactly the missing chunks in ascending, maximal runs.
\<close>

section \<open>Type and operations\<close>

record chunk_bitmap =
  bm_bits :: bytes
  bm_count :: u64
  bm_set_count :: u64

definition bitmap_new :: "u64 \<Rightarrow> chunk_bitmap" where
  "bitmap_new count =
     \<lparr>bm_bits = replicate (unat (div_ceil count 8)) 0, bm_count = count, bm_set_count = 0\<rparr>"

definition bitmap_from_bytes :: "bytes \<Rightarrow> u64 \<Rightarrow> (chunk_bitmap, wire_error) result" where
  "bitmap_from_bytes bs count =
     (let expected = unat (div_ceil count 8) in
      if length bs \<noteq> expected then Err (BitmapLengthMismatch (length bs) expected) else
      let trailing = of_nat expected * 8 - count in
      if 0 < trailing \<and> bs \<noteq> [] \<and> last bs AND NOT (drop_bit (unat trailing) 0xFF) \<noteq> 0
      then Err BitmapPaddingSet
      else let set_count = of_nat (sum_list (map count_ones bs)) in
        Ok \<lparr>bm_bits = bs, bm_count = count, bm_set_count = set_count\<rparr>)"

definition bitmap_is_complete :: "chunk_bitmap \<Rightarrow> bool" where
  "bitmap_is_complete b \<longleftrightarrow> bm_set_count b = bm_count b"

definition bitmap_present :: "chunk_bitmap \<Rightarrow> u64 \<Rightarrow> bool" where
  "bitmap_present b index \<longleftrightarrow>
     bm_bits b ! unat (index div 8) AND push_bit (unat (index mod 8)) 1 \<noteq> 0"

definition bitmap_get :: "chunk_bitmap \<Rightarrow> u64 \<Rightarrow> (bool, wire_error) result" where
  "bitmap_get b index =
     (if bm_count b \<le> index then Err (ChunkOutOfRange index (bm_count b))
      else Ok (bitmap_present b index))"

definition bitmap_set :: "chunk_bitmap \<Rightarrow> u64 \<Rightarrow> (chunk_bitmap, wire_error) result" where
  "bitmap_set b index =
     (if bm_count b \<le> index then Err (ChunkOutOfRange index (bm_count b))
      else let k = unat (index div 8);
               mask = (push_bit (unat (index mod 8)) 1 :: u8) in
        if bm_bits b ! k AND mask = 0
        then Ok (b\<lparr>bm_bits := (bm_bits b)[k := bm_bits b ! k OR mask],
                   bm_set_count := bm_set_count b + 1\<rparr>)
        else Ok b)"

text \<open>One iteration of the loop of \<open>missing_ranges\<close> over \<open>0..count\<close>, and the loop.\<close>

fun missing_step ::
    "chunk_bitmap \<Rightarrow> (u64 \<times> u64) list \<times> u64 option \<Rightarrow> u64 \<Rightarrow> (u64 \<times> u64) list \<times> u64 option" where
  "missing_step b (ranges, run_start) i =
     (case (bitmap_present b i, run_start) of
        (False, None) \<Rightarrow> (ranges, Some i)
      | (True, Some start) \<Rightarrow> (ranges @ [(start, i)], None)
      | _ \<Rightarrow> (ranges, run_start))"

definition missing_ranges :: "chunk_bitmap \<Rightarrow> (u64 \<times> u64) list" where
  "missing_ranges b =
     (case foldl (missing_step b) ([], None) (map of_nat [0..<unat (bm_count b)]) of
        (ranges, Some start) \<Rightarrow> ranges @ [(start, bm_count b)]
      | (ranges, None) \<Rightarrow> ranges)"

text \<open>The half-open range \<open>start..end\<close> of chunk indices.\<close>

definition index_range :: "u64 \<times> u64 \<Rightarrow> u64 list" where
  "index_range r = map of_nat [unat (fst r)..<unat (snd r)]"

fun add_chunk_lengths :: "chunk_layout \<Rightarrow> u64 \<Rightarrow> u64 list \<Rightarrow> (u64, wire_error) result" where
  "add_chunk_lengths l acc [] = Ok acc"
| "add_chunk_lengths l acc (i # is) =
     (case layout_range l i of
        Err e \<Rightarrow> Err e
      | Ok (off, len) \<Rightarrow> add_chunk_lengths l (acc + ucast len) is)"

definition remaining_bytes :: "chunk_bitmap \<Rightarrow> chunk_layout \<Rightarrow> (u64, wire_error) result" where
  "remaining_bytes b l = add_chunk_lengths l 0 (concat (map index_range (missing_ranges b)))"

section \<open>Abstraction and invariant\<close>

definition bit_list :: "bytes \<Rightarrow> bool list" where
  "bit_list bs = concat (map (\<lambda>w. map (bit w) [0..<8]) bs)"

text \<open>The presence list a bitmap stands for: entry \<open>i\<close> says whether chunk \<open>i\<close> is verified.\<close>

definition bools :: "chunk_bitmap \<Rightarrow> bool list" where
  "bools b = take (unat (bm_count b)) (bit_list (bm_bits b))"

definition bitmap_ok :: "chunk_bitmap \<Rightarrow> bool" where
  "bitmap_ok b \<longleftrightarrow>
     length (bm_bits b) = unat (div_ceil (bm_count b) 8)
     \<and> (\<forall>p \<in> set (drop (unat (bm_count b)) (bit_list (bm_bits b))). \<not> p)
     \<and> unat (bm_set_count b) = length (filter id (bools b))"

section \<open>Lemmas on bit lists\<close>

lemma length_bit_list [simp]: "length (bit_list bs) = 8 * length bs"
  by (induction bs) (auto simp: bit_list_def)

lemma bit_list_append: "bit_list (xs @ ys) = bit_list xs @ bit_list ys"
  by (simp add: bit_list_def)

lemma nth_bit_list: "k < 8 * length bs \<Longrightarrow> bit_list bs ! k = bit (bs ! (k div 8)) (k mod 8)"
proof (induction bs arbitrary: k)
  case (Cons w bs)
  show ?case
  proof (cases "k < 8")
    case True
    then show ?thesis
      by (simp add: bit_list_def nth_append)
  next
    case False
    then have "bit_list (w # bs) ! k = bit_list bs ! (k - 8)"
      by (simp add: bit_list_def nth_append)
    also have "\<dots> = bit (bs ! ((k - 8) div 8)) ((k - 8) mod 8)"
      using False Cons by simp
    finally show ?thesis
      using False by (simp add: le_div_geq le_mod_geq)
  qed
qed simp

lemma count_ones_bit_list: "sum_list (map count_ones bs) = length (filter id (bit_list bs))"
  by (induction bs) (simp_all add: bit_list_def count_ones_def filter_map comp_def)

text \<open>The mask \<open>1 << k\<close> is the power \<open>2 ^ k\<close>, its normal form in the simplifier.\<close>

lemma test_mask: "(w :: u8) AND 2 ^ k \<noteq> 0 \<longleftrightarrow> bit w k"
proof -
  have "w AND 2 ^ k = (if bit w k then 2 ^ k else 0)"
    by (rule bit_eqI) (auto simp: bit_simps)
  moreover have "(2 :: u8) ^ k \<noteq> 0" if "bit w k"
    using that bit_imp_le_length [of w k] by (auto simp: bit_eq_iff bit_simps)
  ultimately show ?thesis
    by auto
qed

section \<open>Refinement of the boolean list\<close>

lemma unat_ceil8: "unat (div_ceil (c :: u64) 8) = (unat c + 7) div 8"
  by (simp add: unat_div_ceil)

lemma count_le_bits: "bitmap_ok b \<Longrightarrow> unat (bm_count b) \<le> 8 * length (bm_bits b)"
  by (simp add: bitmap_ok_def unat_ceil8)

lemma length_bools: "bitmap_ok b \<Longrightarrow> length (bools b) = unat (bm_count b)"
  using count_le_bits [of b] by (simp add: bools_def)

lemma present_nth:
  assumes "bitmap_ok b" and "unat i < unat (bm_count b)"
  shows "bitmap_present b i \<longleftrightarrow> bools b ! unat i"
  using assms count_le_bits [OF assms(1)]
  by (simp add: bitmap_present_def test_mask unat_div_distrib unat_mod_distrib bools_def nth_bit_list)

lemma bitmap_get_eq:
  assumes "bitmap_ok b"
  shows "bitmap_get b i =
     (if unat i < unat (bm_count b) then Ok (bools b ! unat i)
      else Err (ChunkOutOfRange i (bm_count b)))"
  using present_nth [OF assms, of i] by (simp add: bitmap_get_def word_le_nat_alt)

lemma bools_new: "bools (bitmap_new c) = replicate (unat c) False"
proof -
  have "bit_list (replicate n 0) = replicate (8 * n) False" for n
    by (induction n) (simp_all add: bit_list_def replicate_add [symmetric] eval_nat_numeral)
  then show ?thesis
    by (simp add: bools_def bitmap_new_def unat_ceil8 min_def)
qed

lemma bitmap_new_ok: "bitmap_ok (bitmap_new c)"
proof -
  have "bit_list (replicate n 0) = replicate (8 * n) False" for n
    by (induction n) (simp_all add: bit_list_def replicate_add [symmetric] eval_nat_numeral)
  then show ?thesis
    using bools_new [of c] by (simp add: bitmap_ok_def) (simp add: bitmap_new_def)
qed

lemma bit_list_set_bit:
  assumes "k < 8 * length bs"
  shows "bit_list (bs[k div 8 := bs ! (k div 8) OR 2 ^ (k mod 8)]) = (bit_list bs)[k := True]"
proof (rule nth_equalityI)
  fix j assume "j < length (bit_list (bs[k div 8 := bs ! (k div 8) OR 2 ^ (k mod 8)]))"
  then have j: "j < 8 * length bs" by simp
  have eq: "j = k \<longleftrightarrow> j div 8 = k div 8 \<and> j mod 8 = k mod 8"
    by (metis div_mult_mod_eq)
  show "bit_list (bs[k div 8 := bs ! (k div 8) OR 2 ^ (k mod 8)]) ! j =
      (bit_list bs)[k := True] ! j"
  proof (cases "j div 8 = k div 8")
    case True
    have "j div 8 < length bs" using j by auto
    then have "bit_list (bs[k div 8 := bs ! (k div 8) OR 2 ^ (k mod 8)]) ! j \<longleftrightarrow>
        bit (bs ! (j div 8)) (j mod 8) \<or> j mod 8 = k mod 8"
      using True j by (auto simp: nth_bit_list bit_simps)
    then show ?thesis
      using True j eq by (auto simp: nth_list_update nth_bit_list)
  next
    case False
    then show ?thesis
      using j eq by (auto simp: nth_list_update nth_bit_list)
  qed
qed simp

lemma bitmap_set_Ok:
  assumes "bitmap_ok b" and "unat i < unat (bm_count b)"
  obtains b' where "bitmap_set b i = Ok b'" "bitmap_ok b'" "bm_count b' = bm_count b"
    "bools b' = (bools b)[unat i := True]"
proof (cases "bools b ! unat i")
  case True
  then have "bitmap_set b i = Ok b"
    using assms present_nth [OF assms]
    by (simp add: bitmap_set_def word_le_nat_alt bitmap_present_def Let_def)
  moreover have "bools b = (bools b)[unat i := True]"
    using True by (metis list_update_id)
  ultimately show ?thesis
    using assms(1) that by blast
next
  case False
  let ?k = "unat i"
  define b' where "b' = b\<lparr>bm_bits := (bm_bits b)[?k div 8 := bm_bits b ! (?k div 8) OR 2 ^ (?k mod 8)],
      bm_set_count := bm_set_count b + 1\<rparr>"
  have k: "?k < 8 * length (bm_bits b)"
    using assms count_le_bits by fastforce
  have "bitmap_set b i = Ok b'"
    using False assms present_nth [OF assms]
    by (simp add: bitmap_set_def word_le_nat_alt bitmap_present_def Let_def b'_def
        unat_div_distrib unat_mod_distrib)
  moreover have bools: "bools b' = (bools b)[?k := True]"
    using k by (simp add: bools_def b'_def bit_list_set_bit take_update_swap)
  moreover have "bitmap_ok b'"
  proof -
    have "length (filter id (bools b')) = Suc (length (filter id (bools b)))"
      using False assms by (simp add: bools length_filter_list_update length_bools)
    moreover from this have "Suc (unat (bm_set_count b)) \<le> unat (bm_count b)"
      using assms(1) length_bools [OF assms(1)] length_filter_le [of id "bools b'"]
      by (simp add: bools bitmap_ok_def)
    then have "unat (bm_set_count b + 1) = Suc (unat (bm_set_count b))"
      using unat_less_exp [of "bm_count b"] by (simp add: unat_add_exact)
    moreover have "drop (unat (bm_count b)) (bit_list (bm_bits b')) =
        drop (unat (bm_count b)) (bit_list (bm_bits b))"
      using k assms(2) by (simp add: b'_def bit_list_set_bit drop_update_cancel)
    ultimately show ?thesis
      using assms(1) by (simp add: bitmap_ok_def) (auto simp: b'_def)
  qed
  ultimately show ?thesis
    by (intro that) (simp_all add: b'_def)
qed

lemma bitmap_set_Err:
  "bitmap_set b i = Err e \<longleftrightarrow> bm_count b \<le> i \<and> e = ChunkOutOfRange i (bm_count b)"
  by (auto simp: bitmap_set_def Let_def)

lemma bitmap_complete_iff:
  assumes "bitmap_ok b"
  shows "bitmap_is_complete b \<longleftrightarrow> (\<forall>i < unat (bm_count b). bools b ! i)"
proof -
  have "bitmap_is_complete b \<longleftrightarrow> length (filter id (bools b)) = length (bools b)"
    using assms length_bools [OF assms]
    by (simp add: bitmap_is_complete_def word_unat_eq_iff bitmap_ok_def)
  also have "\<dots> \<longleftrightarrow> (\<forall>x \<in> set (bools b). id x)"
    by (rule length_filter_full_iff)
  finally show ?thesis
    by (simp add: all_set_conv_all_nth length_bools [OF assms])
qed

section \<open>Parsing\<close>

lemma trailing_bits:
  "unat (of_nat (unat (div_ceil c 8)) * 8 - c :: u64) = 8 * unat (div_ceil c 8) - unat c"
proof -
  let ?e = "unat (div_ceil c 8)"
  have le: "unat c \<le> 8 * ?e" and lt: "8 * ?e - unat c < 8"
    by (auto simp: unat_ceil8)
  have "of_nat ?e * 8 - c = (of_nat (8 * ?e) - of_nat (unat c) :: u64)"
    by (simp add: mult.commute)
  also have "\<dots> = of_nat (8 * ?e - unat c)"
    using le by (rule of_nat_diff [symmetric])
  finally show ?thesis
    using lt by (simp add: unat_of_nat)
qed

lemma padding_mask: "(w :: u8) AND NOT (drop_bit t 0xFF) = 0 \<longleftrightarrow> (\<forall>j. 8 - t \<le> j \<and> j < 8 \<longrightarrow> \<not> bit w j)"
proof -
  have ff: "(0xFF :: u8) = mask 8"
    by (simp add: mask_numeral)
  have "bit (w AND NOT (drop_bit t 0xFF)) j \<longleftrightarrow> bit w j \<and> 8 - t \<le> j \<and> j < 8" for j
    unfolding ff by (auto simp: bit_simps dest: bit_imp_le_length)
  then show ?thesis
    by (auto simp: bit_eq_iff)
qed

lemma padding_clear_iff:
  fixes c :: u64
  assumes len: "length bs = unat (div_ceil c 8)" and ne: "bs \<noteq> []"
  shows "last bs AND NOT (drop_bit (8 * length bs - unat c) 0xFF) = 0 \<longleftrightarrow>
     (\<forall>p \<in> set (drop (unat c) (bit_list bs)). \<not> p)"
proof -
  define t where "t = 8 * length bs - unat c"
  have t: "t < 8" "unat c = 8 * (length bs - 1) + (8 - t)"
    using len [unfolded unat_ceil8] ne by (auto simp: t_def neq_Nil_conv)
  have "bit_list bs = bit_list (butlast bs) @ map (bit (last bs)) [0..<8]"
    using ne by (metis append_butlast_last_id bit_list_append bit_list_def concat.simps list.simps(8,9)
        append_Nil2)
  then have "drop (unat c) (bit_list bs) = drop (8 - t) (map (bit (last bs)) [0..<8])"
    by (simp add: t(2))
  also have "\<dots> = map (bit (last bs)) [8 - t..<8]"
    by (simp add: drop_map)
  finally show ?thesis
    by (auto simp: padding_mask t_def [symmetric])
qed

lemma filter_bools:
  assumes "\<forall>p \<in> set (drop (unat (bm_count b)) (bit_list (bm_bits b))). \<not> p"
  shows "filter id (bools b) = filter id (bit_list (bm_bits b))"
proof -
  have "filter id (drop (unat (bm_count b)) (bit_list (bm_bits b))) = []"
    using assms by (auto simp: filter_empty_conv)
  then show ?thesis
    by (metis append_take_drop_id bools_def filter_append self_append_conv)
qed

text \<open>The check on the last byte says that every bit past the count is clear.\<close>

lemma from_bytes_shape:
  assumes len: "length bs = unat (div_ceil c 8)"
  shows "bitmap_from_bytes bs c = Ok b \<longleftrightarrow> (\<forall>p \<in> set (drop (unat c) (bit_list bs)). \<not> p)
    \<and> b = \<lparr>bm_bits = bs, bm_count = c, bm_set_count = of_nat (sum_list (map count_ones bs))\<rparr>"
proof -
  have tr: "unat (of_nat (length bs) * 8 - c :: u64) = 8 * length bs - unat c"
    using trailing_bits [of c] len by simp
  have "(\<forall>p \<in> set (drop (unat c) (bit_list bs)). \<not> p) \<longleftrightarrow> \<not> (0 < (of_nat (length bs) * 8 - c :: u64) \<and> bs \<noteq> []
      \<and> last bs AND NOT (drop_bit (8 * length bs - unat c) 0xFF) \<noteq> 0)"
  proof (cases "unat c < 8 * length bs")
    case True
    then have "bs \<noteq> []" by auto
    with True show ?thesis
      using padding_clear_iff [OF len] tr by (simp add: word_less_nat_alt)
  next
    case False
    with tr show ?thesis by (simp add: word_less_nat_alt)
  qed
  then show ?thesis using len tr by (auto simp: bitmap_from_bytes_def Let_def)
qed

text \<open>With clear padding the ones of the bytes are the set bits of the range, and their number fits.\<close>

lemma padded_count:
  assumes "\<forall>p \<in> set (drop (unat c) (bit_list bs)). \<not> p"
  shows "unat (of_nat (sum_list (map count_ones bs)) :: u64) = length (filter id (take (unat (c :: u64)) (bit_list bs)))"
proof -
  let ?b = "\<lparr>bm_bits = bs, bm_count = c, bm_set_count = 0\<rparr>"
  have "sum_list (map count_ones bs) = length (filter id (bools ?b))"
    using assms filter_bools [of ?b] by (simp add: count_ones_bit_list)
  moreover have "length (filter id (bools ?b)) \<le> unat c"
    by (rule order_trans [OF length_filter_le]) (simp add: bools_def)
  ultimately show ?thesis
    using unat_less_exp [of c] by (simp add: unat_of_nat bools_def)
qed

lemma bitmap_from_bytes_Ok:
  "bitmap_from_bytes bs c = Ok b \<longleftrightarrow> bitmap_ok b \<and> bm_bits b = bs \<and> bm_count b = c"
proof (cases "length bs = unat (div_ceil c 8)")
  case False
  then show ?thesis
    by (auto simp: bitmap_from_bytes_def Let_def bitmap_ok_def)
next
  case True
  note eq = from_bytes_shape [OF True]
  show ?thesis
  proof
    assume "bitmap_from_bytes bs c = Ok b"
    with True show "bitmap_ok b \<and> bm_bits b = bs \<and> bm_count b = c"
      using padded_count [of c bs] unfolding eq bitmap_ok_def bools_def by auto
  next
    assume a: "bitmap_ok b \<and> bm_bits b = bs \<and> bm_count b = c"
    then have p: "\<forall>p \<in> set (drop (unat c) (bit_list bs)). \<not> p"
      by (auto simp: bitmap_ok_def)
    have "unat (bm_set_count b) = length (filter id (take (unat c) (bit_list bs)))"
      using a by (simp add: bitmap_ok_def bools_def)
    then have "unat (bm_set_count b) = unat (of_nat (sum_list (map count_ones bs)) :: u64)"
      using padded_count [OF p] by argo
    with a p show "bitmap_from_bytes bs c = Ok b"
      by (simp add: eq word_unat_eq_iff)
  qed
qed

section \<open>Missing runs\<close>

text \<open>A maximal run of missing chunks of a presence list.\<close>

definition maximal_run :: "bool list \<Rightarrow> u64 \<times> u64 \<Rightarrow> bool" where
  "maximal_run ps r \<longleftrightarrow>
     unat (fst r) < unat (snd r) \<and> unat (snd r) \<le> length ps
     \<and> (\<forall>i \<in> {unat (fst r)..<unat (snd r)}. \<not> ps ! i)
     \<and> (unat (fst r) = 0 \<or> ps ! (unat (fst r) - 1))
     \<and> (unat (snd r) = length ps \<or> ps ! unat (snd r))"

definition nat_range :: "u64 \<times> u64 \<Rightarrow> nat list" where
  "nat_range r = [unat (fst r)..<unat (snd r)]"

text \<open>The state of the loop after the first \<open>n\<close> chunks.\<close>

fun loop_inv :: "bool list \<Rightarrow> nat \<Rightarrow> (u64 \<times> u64) list \<times> u64 option \<Rightarrow> bool" where
  "loop_inv ps n (ranges, None) \<longleftrightarrow>
     concat (map nat_range ranges) = filter (\<lambda>i. \<not> ps ! i) [0..<n]
     \<and> (\<forall>r \<in> set ranges. maximal_run ps r) \<and> (n = 0 \<or> ps ! (n - 1))"
| "loop_inv ps n (ranges, Some s) \<longleftrightarrow>
     concat (map nat_range ranges) @ [unat s..<n] = filter (\<lambda>i. \<not> ps ! i) [0..<n]
     \<and> (\<forall>r \<in> set ranges. maximal_run ps r) \<and> unat s < n
     \<and> (\<forall>i \<in> {unat s..<n}. \<not> ps ! i) \<and> (unat s = 0 \<or> ps ! (unat s - 1))"

lemma missing_step_inv:
  assumes ok: "bitmap_ok b" and n: "n < unat (bm_count b)" and inv: "loop_inv (bools b) n st"
  shows "loop_inv (bools b) (Suc n) (missing_step b st (of_nat n))"
proof -
  obtain ranges rs where st: "st = (ranges, rs)" by force
  have n64: "unat (of_nat n :: u64) = n"
    using n unat_less_exp [of "bm_count b"] by (simp add: unat_of_nat_u64)
  have p: "bitmap_present b (of_nat n) \<longleftrightarrow> bools b ! n"
    using present_nth [OF ok, of "of_nat n"] n n64 by simp
  show ?thesis
  proof (cases rs)
    case None
    with inv st n64 show ?thesis
      by (cases "bools b ! n") (simp_all add: p)
  next
    case (Some s)
    have inv': "concat (map nat_range ranges) @ [unat s..<n] = filter (\<lambda>i. \<not> bools b ! i) [0..<n]"
      "\<forall>r \<in> set ranges. maximal_run (bools b) r" "unat s < n"
      "\<forall>i \<in> {unat s..<n}. \<not> bools b ! i" "unat s = 0 \<or> bools b ! (unat s - 1)"
      using inv by (simp_all add: st Some)
    show ?thesis
    proof (cases "bools b ! n")
      case True
      have "maximal_run (bools b) (s, of_nat n)"
        using inv' True n ok by (simp add: maximal_run_def n64 length_bools)
      with inv' True show ?thesis
        by (simp add: st Some p nat_range_def n64)
    next
      case False
      have "concat (map nat_range ranges) @ [unat s..<Suc n] =
          filter (\<lambda>i. \<not> bools b ! i) [0..<Suc n]"
        using inv'(1,3) False by (simp add: append_assoc [symmetric])
      with inv' False show ?thesis
        by (auto simp: st Some p less_Suc_eq simp del: upt_Suc)
    qed
  qed
qed

lemma missing_loop_inv:
  "bitmap_ok b \<Longrightarrow> n \<le> unat (bm_count b) \<Longrightarrow>
   loop_inv (bools b) n (foldl (missing_step b) ([], None) (map of_nat [0..<n]))"
proof (induction n)
  case (Suc n)
  then show ?case
    using missing_step_inv [of b n] by simp
qed simp

lemma missing_ranges_spec:
  assumes "bitmap_ok b"
  shows "concat (map nat_range (missing_ranges b)) =
       filter (\<lambda>i. \<not> bools b ! i) [0..<unat (bm_count b)]"
    and "\<forall>r \<in> set (missing_ranges b). maximal_run (bools b) r"
proof -
  define n where "n = unat (bm_count b)"
  obtain ranges rs where
    f: "foldl (missing_step b) ([], None) (map of_nat [0..<n]) = (ranges, rs)"
    by force
  have inv: "loop_inv (bools b) n (ranges, rs)"
    using missing_loop_inv [OF assms, of n] f by (simp add: n_def)
  have len: "length (bools b) = n"
    by (simp add: length_bools assms n_def)
  have "concat (map nat_range (missing_ranges b)) = filter (\<lambda>i. \<not> bools b ! i) [0..<n]
      \<and> (\<forall>r \<in> set (missing_ranges b). maximal_run (bools b) r)"
  proof (cases rs)
    case None
    with inv f show ?thesis
      by (simp add: missing_ranges_def n_def)
  next
    case (Some s)
    have "maximal_run (bools b) (s, bm_count b)"
      using inv len by (simp add: Some maximal_run_def n_def)
    with inv f show ?thesis
      by (simp add: missing_ranges_def n_def Some nat_range_def)
  qed
  then show "concat (map nat_range (missing_ranges b)) =
       filter (\<lambda>i. \<not> bools b ! i) [0..<unat (bm_count b)]"
    and "\<forall>r \<in> set (missing_ranges b). maximal_run (bools b) r"
    by (simp_all add: n_def)
qed

section \<open>Remaining bytes\<close>

lemma index_range_nat: "map unat (index_range r) = nat_range r"
proof -
  have "map (\<lambda>i. unat (of_nat i :: u64)) [unat (fst r)..<unat (snd r)] = [unat (fst r)..<unat (snd r)]"
    using unat_less_exp [of "snd r"] by (intro map_idI) (auto intro!: unat_of_nat_u64)
  then show ?thesis
    by (simp add: index_range_def nat_range_def comp_def)
qed

text \<open>The lengths of distinct chunks add up to at most the file: the sum cannot wrap around.\<close>

lemma sum_chunk_len_upto: "(\<Sum>i<k. chunk_len l i) = min (chunk_start l k) (fsize l)"
proof (induction k)
  case (Suc k)
  then show ?case
    by (simp add: chunk_len_def chunk_next [symmetric] min_def) arith
qed (simp add: chunk_start_def)

lemma sum_chunk_len_le:
  assumes "finite I"
  shows "(\<Sum>i\<in>I. chunk_len l i) \<le> fsize l"
proof -
  obtain k where "I \<subseteq> {..<k}"
    using finite_nat_set_iff_bounded [of I] assms by auto
  then have "(\<Sum>i\<in>I. chunk_len l i) \<le> (\<Sum>i<k. chunk_len l i)"
    by (intro sum_mono2) auto
  then show ?thesis
    by (simp add: sum_chunk_len_upto)
qed

lemma add_chunk_lengths_Ok:
  assumes "layout_ok l"
    and "unat acc + sum_list (map (chunk_len l \<circ> unat) is) < 2 ^ 64"
    and "\<forall>i \<in> set is. unat i < ccount l"
  shows "\<exists>t. add_chunk_lengths l acc is = Ok t
     \<and> unat t = unat acc + sum_list (map (chunk_len l \<circ> unat) is)"
  using assms(2,3)
proof (induction "is" arbitrary: acc)
  case (Cons i "is")
  then obtain off len where r: "layout_range l i = Ok (off, len)" "unat len = chunk_len l (unat i)"
    by (metis assms(1) layout_range_exists list.set_intros(1))
  have a: "unat (acc + ucast len) = unat acc + chunk_len l (unat i)"
    using Cons.prems(1) r(2) by (subst unat_add_exact) (simp_all add: geom_simps)
  show ?case
    using Cons.IH [of "acc + ucast len"] Cons.prems r by (simp add: a add.assoc)
qed simp

lemma remaining_bytes_eq:
  assumes "bitmap_ok b" "layout_ok l" "bm_count b = cl_count l"
  shows "\<exists>t. remaining_bytes b l = Ok t
     \<and> unat t = (\<Sum>i \<leftarrow> filter (\<lambda>i. \<not> bools b ! i) [0..<ccount l]. chunk_len l i)"
proof -
  define "is" where "is = concat (map index_range (missing_ranges b))"
  define ms where "ms = filter (\<lambda>i. \<not> bools b ! i) [0..<ccount l]"
  have "map unat is = concat (map nat_range (missing_ranges b))"
    by (simp add: is_def map_concat comp_def index_range_nat)
  then have m: "map unat is = ms"
    by (simp add: missing_ranges_spec(1) [OF assms(1)] assms(3) ms_def)
  then have sum: "sum_list (map (chunk_len l \<circ> unat) is) = (\<Sum>i \<leftarrow> ms. chunk_len l i)"
    by (metis map_map)
  have "(\<Sum>i \<leftarrow> ms. chunk_len l i) = (\<Sum>i\<in>set ms. chunk_len l i)"
    by (simp add: ms_def sum_list_distinct_conv_sum_set)
  then have "(\<Sum>i \<leftarrow> ms. chunk_len l i) \<le> fsize l"
    using sum_chunk_len_le [of "set ms" l] by simp
  then have lt: "unat (0 :: u64) + sum_list (map (chunk_len l \<circ> unat) is) < 2 ^ 64"
    using sum unat_less_exp [of "cl_file_size l"] by simp
  have "\<forall>i \<in> set is. unat i < ccount l"
  proof
    fix i assume "i \<in> set is"
    then have "unat i \<in> set ms"
      using m by (metis image_eqI list.set_map)
    then show "unat i < ccount l"
      by (simp add: ms_def)
  qed
  from add_chunk_lengths_Ok [OF assms(2) lt this] show ?thesis
    by (simp add: remaining_bytes_def is_def [symmetric] sum ms_def)
qed

section \<open>Interface: a set of verified chunks\<close>

text \<open>
  What the receiver and the resume code rely on: marking a chunk in range succeeds, sets exactly that
  entry and keeps the invariant; marking out of range is an error; completeness means that every
  entry is set.
\<close>

locale presence_set =
  fixes invar :: "'s \<Rightarrow> bool" and view :: "'s \<Rightarrow> bool list"
    and mark :: "'s \<Rightarrow> u64 \<Rightarrow> ('s, 'e) result" and complete :: "'s \<Rightarrow> bool"
  assumes mark_in: "invar s \<Longrightarrow> unat i < length (view s) \<Longrightarrow>
      \<exists>s'. mark s i = Ok s' \<and> invar s' \<and> view s' = (view s)[unat i := True]"
    and mark_out: "invar s \<Longrightarrow> length (view s) \<le> unat i \<Longrightarrow> \<exists>e. mark s i = Err e"
    and complete_iff: "invar s \<Longrightarrow> complete s \<longleftrightarrow> (\<forall>i < length (view s). view s ! i)"
begin

lemma mark_OkD:
  assumes "invar s" "mark s i = Ok s'"
  shows "unat i < length (view s) \<and> invar s' \<and> view s' = (view s)[unat i := True]"
  using mark_in [OF assms(1), of i] mark_out [OF assms(1), of i] assms(2)
  by (cases "unat i < length (view s)") auto

lemma mark_nth:
  assumes "invar s" "mark s i = Ok s'" "j < length (view s)"
  shows "view s' ! j \<longleftrightarrow> j = unat i \<or> view s ! j"
  using mark_OkD [OF assms(1,2)] assms(3) by (auto simp: nth_list_update)

lemma mark_same_length: "invar s \<Longrightarrow> mark s i = Ok s' \<Longrightarrow> length (view s') = length (view s)"
  using mark_OkD [of s i s'] by simp

lemma mark_idem: "invar s \<Longrightarrow> mark s i = Ok s' \<Longrightarrow> \<exists>s''. mark s' i = Ok s'' \<and> view s'' = view s'"
  using mark_OkD [of s i s'] mark_in [of s' i] by auto

end

interpretation bm: presence_set bitmap_ok bools bitmap_set bitmap_is_complete
proof unfold_locales
  fix b i
  assume b: "bitmap_ok b"
  show "\<exists>b'. bitmap_set b i = Ok b' \<and> bitmap_ok b' \<and> bools b' = (bools b)[unat i := True]"
    if "unat i < length (bools b)"
    using bitmap_set_Ok [OF b, of i] that by (metis b length_bools)
  show "\<exists>e. bitmap_set b i = Err e" if "length (bools b) \<le> unat i"
    using that b by (auto simp: length_bools bitmap_set_Err word_le_nat_alt)
  show "bitmap_is_complete b = (\<forall>i < length (bools b). bools b ! i)"
    using b by (simp add: bitmap_complete_iff length_bools)
qed

lemma bitmap_set_count: "bitmap_ok b \<Longrightarrow> bitmap_set b i = Ok b' \<Longrightarrow> bm_count b' = bm_count b"
  by (auto simp: bitmap_set_def Let_def split: if_splits)

section \<open>Properties\<close>

text \<open>
  Parsing a peer's bitmap succeeds exactly on the bytes of a consistent bitmap of that chunk
  count: the byte length matches, no padding bit is set, and the cached count is the number of set
  bits.  In particular every bitmap the engine holds parses back to itself.
\<close>

theorem bitmap_parse_exact:
  "bitmap_from_bytes bs c = Ok b \<longleftrightarrow> bitmap_ok b \<and> bm_bits b = bs \<and> bm_count b = c"
  by (rule bitmap_from_bytes_Ok)

text \<open>
  Marking chunk \<open>i\<close> of a consistent bitmap and reading chunk \<open>j\<close> afterwards: the marking
  succeeds, the bitmap stays consistent, chunk \<open>i\<close> reads as present, every other chunk reads as
  before, and an index past the end is reported as out of range.
\<close>

theorem bitmap_set_get:
  assumes "bitmap_ok b" and "i < bm_count b"
  shows "\<exists>b'. bitmap_set b i = Ok b' \<and> bitmap_ok b'
     \<and> (\<forall>j. bitmap_get b' j = (if j = i then Ok True else bitmap_get b j))"
proof -
  have i: "unat i < unat (bm_count b)"
    using assms(2) by (simp add: word_less_nat_alt)
  obtain b' where b': "bitmap_set b i = Ok b'" "bitmap_ok b'" "bm_count b' = bm_count b"
      "bools b' = (bools b)[unat i := True]"
    using bitmap_set_Ok [OF assms(1) i] .
  have "bitmap_get b' j = (if j = i then Ok True else bitmap_get b j)" for j
    using i assms(1) b'(2,3,4)
    by (auto simp: bitmap_get_eq nth_list_update length_bools word_unat_eq_iff)
  with b' show ?thesis by blast
qed

theorem bitmap_set_get_witness:
  "bitmap_ok (bitmap_new 20) \<and> (7 :: u64) < bm_count (bitmap_new 20)
   \<and> (\<exists>b'. bitmap_set (bitmap_new 20) 7 = Ok b' \<and> bitmap_get b' 7 = Ok True)"
proof -
  have h: "bitmap_ok (bitmap_new 20)" "(7 :: u64) < bm_count (bitmap_new 20)"
    by (rule bitmap_new_ok) (simp add: bitmap_new_def)
  from bitmap_set_get [OF h] h show ?thesis by auto
qed

text \<open>
  C25: the ranges the sender iterates on resume list exactly the missing chunks, in ascending order
  without repetition, and each range is a non-empty maximal run.
\<close>

theorem missing_ranges_exact:
  assumes "bitmap_ok b"
  shows "concat (map (\<lambda>(s, e). [unat s..<unat e]) (missing_ranges b)) =
       filter (\<lambda>i. bitmap_get b (of_nat i) = Ok False) [0..<unat (bm_count b)]
     \<and> (\<forall>r \<in> set (missing_ranges b). maximal_run (bools b) r)"
proof -
  have "bitmap_get b (of_nat i) = Ok False \<longleftrightarrow> \<not> bools b ! i" if "i < unat (bm_count b)" for i
    using that assms unat_less_exp [of "bm_count b"]
    by (simp add: bitmap_get_eq unat_of_nat_u64)
  then have "filter (\<lambda>i. bitmap_get b (of_nat i) = Ok False) [0..<unat (bm_count b)] =
      filter (\<lambda>i. \<not> bools b ! i) [0..<unat (bm_count b)]"
    by (intro filter_cong) auto
  moreover have "(\<lambda>(s, e). [unat s..<unat e]) = nat_range"
    by (auto simp: nat_range_def)
  ultimately show ?thesis
    using missing_ranges_spec [OF assms] by simp
qed

theorem missing_ranges_exact_witness:
  "bitmap_ok (bitmap_new 5)
   \<and> concat (map (\<lambda>(s, e). [unat s..<unat e]) (missing_ranges (bitmap_new 5))) = [0..<5]"
proof -
  have "filter (\<lambda>i. bitmap_get (bitmap_new 5) (of_nat i) = Ok False) [0..<5] = [0..<5]"
    by (auto simp: filter_id_conv bitmap_get_eq [OF bitmap_new_ok] bools_new)
       (auto simp: bitmap_new_def unat_of_nat_u64)
  with missing_ranges_exact [OF bitmap_new_ok [of 5]] bitmap_new_ok [of 5] show ?thesis
    by (simp add: bitmap_new_def)
qed

text \<open>
  The bytes still to transfer are the sum of the lengths of the missing chunks; the 64-bit
  accumulator never wraps around and no range lookup fails.
\<close>

theorem remaining_bytes_exact:
  assumes "bitmap_ok b" "layout_new fs cs = Ok l" "bm_count b = cl_count l"
  shows "\<exists>t. remaining_bytes b l = Ok t
     \<and> unat t = (\<Sum>i \<leftarrow> filter (\<lambda>i. \<not> bools b ! i) [0..<ccount l]. chunk_len l i)"
  using assms layout_new_ok [OF assms(2)] by (intro remaining_bytes_eq) auto

theorem remaining_bytes_exact_witness:
  "\<exists>l t. layout_new 10485760 4194304 = Ok l \<and> bitmap_ok (bitmap_new (cl_count l))
     \<and> remaining_bytes (bitmap_new (cl_count l)) l = Ok t"
proof -
  have "is_power_of_two (4194304 :: u32)"
    by code_simp
  then obtain l where l: "layout_new 10485760 4194304 = Ok l"
    by (auto simp: layout_new_def MIN_CHUNK_SIZE_def MAX_CHUNK_SIZE_def Let_def)
  have "bm_count (bitmap_new (cl_count l)) = cl_count l"
    by (simp add: bitmap_new_def)
  from remaining_bytes_exact [OF bitmap_new_ok l this] l bitmap_new_ok show ?thesis
    by blast
qed

section \<open>Every bitmap the crate can make\<close>

text \<open>The fields are private: a bitmap comes from a constructor and calls of \<open>set\<close>.\<close>

inductive bitmap_made :: "chunk_bitmap \<Rightarrow> bool" where
  fresh: "bitmap_made (bitmap_new count)"
| parsed: "bitmap_from_bytes bs count = Ok b \<Longrightarrow> bitmap_made b"
| marked: "bitmap_made b \<Longrightarrow> bitmap_set b i = Ok b' \<Longrightarrow> bitmap_made b'"

text \<open>
  C26: every bitmap the crate can make is well formed: one bit per chunk in whole bytes, clear
  padding, and a cached count that is the number of set bits.  Its bytes are therefore accepted by
  \<open>from_bytes\<close> at the other end, or after a restart, and give the same bitmap back.
\<close>

theorem made_bitmaps_well_formed:
  assumes "bitmap_made b"
  shows "length (bm_bits b) = (unat (bm_count b) + 7) div 8
    \<and> unat (bm_set_count b) = length (filter id (bools b))
    \<and> (bitmap_is_complete b \<longleftrightarrow> (\<forall>i < bm_count b. bitmap_get b i = Ok True))
    \<and> bitmap_from_bytes (bm_bits b) (bm_count b) = Ok b"
proof -
  have ok: "bitmap_ok b"
    using assms
  proof (induction rule: bitmap_made.induct)
    case (fresh count)
    show ?case by (rule bitmap_new_ok)
  next
    case (parsed bs count b)
    then show ?case by (simp add: bitmap_from_bytes_Ok)
  next
    case (marked b i b')
    then show ?case using bm.mark_OkD by blast
  qed
  have "bitmap_is_complete b \<longleftrightarrow> (\<forall>k < unat (bm_count b). bools b ! k)"
    using ok by (simp add: bitmap_complete_iff all_set_conv_all_nth length_bools)
  also have "\<dots> \<longleftrightarrow> (\<forall>i < bm_count b. bitmap_get b i = Ok True)"
  proof
    assume all: "\<forall>i < bm_count b. bitmap_get b i = Ok True"
    show "\<forall>k < unat (bm_count b). bools b ! k"
    proof (intro allI impI)
      fix k assume k: "k < unat (bm_count b)"
      then have u: "unat (of_nat k :: u64) = k"
        using unat_less_exp [of "bm_count b"] by (simp add: unat_of_nat)
      with k have "bitmap_get b (of_nat k) = Ok True" using all by (simp add: word_less_nat_alt)
      with k u show "bools b ! k" by (simp add: bitmap_get_eq [OF ok])
    qed
  qed (use ok in \<open>auto simp: bitmap_get_eq word_less_nat_alt\<close>)
  finally show ?thesis using ok by (auto simp: bitmap_from_bytes_Ok bitmap_ok_def unat_ceil8)
qed

theorem made_bitmaps_well_formed_witness:
  "\<exists>b. bitmap_made b \<and> bitmap_get b 7 = Ok True \<and> bitmap_from_bytes (bm_bits b) (bm_count b) = Ok b"
proof -
  have h: "bitmap_ok (bitmap_new 20)" by (rule bitmap_new_ok)
  have "unat (7 :: u64) < unat (bm_count (bitmap_new 20))" by (simp add: bitmap_new_def)
  from bitmap_set_Ok [OF h this] obtain b where b: "bitmap_set (bitmap_new 20) 7 = Ok b"
    "bitmap_ok b" "bm_count b = bm_count (bitmap_new 20)" "bools b = (bools (bitmap_new 20))[unat (7 :: u64) := True]" .
  have made: "bitmap_made b" by (rule bitmap_made.marked [OF bitmap_made.fresh b(1)])
  have "bitmap_get b 7 = Ok True" using b by (simp add: bitmap_get_eq bools_new) (simp add: bitmap_new_def)
  with made made_bitmaps_well_formed [OF made] show ?thesis by blast
qed

end
