(* ===== verification/Resume.thy ===== *)
theory Resume
  imports Storage Bitmap
begin

text \<open>
  Resume records: \<open>aetherlink-core/src/resume.rs\<close>.  The sidecar file beside a staging file holds the
  bitmap of verified chunks, the identity of the file it describes and a checksum.  The lemmas show that
  a sidecar is accepted exactly when it is an intact record for this very file, that writing it goes
  through a temporary file which never disturbs the staging file, and that the slow path by hashing
  finds exactly the chunks that are really there.
\<close>

section \<open>Paths\<close>

definition file_name :: "path \<Rightarrow> string option" where
  "file_name p = (if p = [] then None else Some (last p))"

definition with_file_name :: "path \<Rightarrow> string \<Rightarrow> path" where
  "with_file_name p n = butlast p @ [n]"

text \<open>\<open>Path::file_stem\<close>: the part before the last dot, unless that is empty.\<close>

definition file_stem :: "string \<Rightarrow> string" where
  "file_stem n =
     (case dropWhile (\<lambda>c. c \<noteq> CHR ''.'') (rev n) of
        [] \<Rightarrow> n
      | _ # before \<Rightarrow> if before = [] then n else rev before)"

definition with_extension :: "path \<Rightarrow> string \<Rightarrow> path" where
  "with_extension p ext =
     (case file_name p of
        None \<Rightarrow> p
      | Some n \<Rightarrow> with_file_name p (file_stem n @ ''.'' @ ext))"

definition state_path :: "path \<Rightarrow> path" where
  "state_path staging =
     (let nm = (case file_name staging of None \<Rightarrow> '''' | Some n \<Rightarrow> n)
      in with_file_name staging (nm @ ''.aether_state''))"

abbreviation tmp_path :: "path \<Rightarrow> path" where
  "tmp_path staging \<equiv> with_extension (state_path staging) ''tmp''"

section \<open>Records\<close>

definition STATE_MAGIC :: bytes where "STATE_MAGIC = ascii_bytes ''AETHRSM1''"
definition DEFAULT_CHECKPOINT_BYTES :: u64 where "DEFAULT_CHECKPOINT_BYTES = 64 * 1024 * 1024"
definition STATE_HEADER_LEN :: nat where "STATE_HEADER_LEN = 8 + 4 + 8 + 8 + 32"

record state_key =
  key_root_hash :: hash
  key_file_size :: u64
  key_chunk_size :: u32

definition state_body :: "state_key \<Rightarrow> chunk_bitmap \<Rightarrow> bytes" where
  "state_body key b =
     STATE_MAGIC @ to_le_bytes (key_chunk_size key) @ to_le_bytes (bm_count b)
       @ to_le_bytes (key_file_size key) @ key_root_hash key @ bm_bits b"

definition state_record :: "(bytes \<Rightarrow> hash) \<Rightarrow> state_key \<Rightarrow> chunk_bitmap \<Rightarrow> bytes" where
  "state_record blake3 key b = (let buf = state_body key b in buf @ blake3 buf)"

definition persist ::
    "os_env \<Rightarrow> (bytes \<Rightarrow> hash) \<Rightarrow> fs \<Rightarrow> path \<Rightarrow> state_key \<Rightarrow> chunk_bitmap
     \<Rightarrow> (unit, core_error) result \<times> fs" where
  "persist os blake3 fs staging key bitmap =
     (let buf = state_record blake3 key bitmap;
          final_path = state_path staging;
          tmp = with_extension final_path ''tmp''
      in if os_fails os (CreateFile tmp) then (Err (Io (Fmt ''creating {}: {e}'' [])), fs)
      else let fs1 = fs(tmp \<mapsto> []) in
      if os_fails os (WriteFile tmp)
      then (Err (Io (Fmt ''writing {}: {e}'' [])), fs1(tmp \<mapsto> take (os_partial os tmp 0) buf))
      else let fs2 = fs1(tmp \<mapsto> buf) in
      if os_fails os (SyncAll tmp) then (Err (Io (Fmt ''syncing {}: {e}'' [])), fs2)
      else if os_fails os (Rename tmp final_path)
      then (Err (Io (Fmt ''renaming into {}: {e}'' [])), fs2)
      else (Ok (), fs2(final_path := fs2 tmp, tmp := None)))"

definition read_file :: "os_env \<Rightarrow> fs \<Rightarrow> path \<Rightarrow> bytes option" where
  "read_file os fs p = (if os_fails os (ReadFile p) then None else fs p)"

definition file_len :: "os_env \<Rightarrow> fs \<Rightarrow> path \<Rightarrow> u64 option" where
  "file_len os fs p =
     (if os_fails os (Stat p) then None else map_option (\<lambda>c. of_nat (length c)) (fs p))"

definition load :: "os_env \<Rightarrow> (bytes \<Rightarrow> hash) \<Rightarrow> fs \<Rightarrow> path \<Rightarrow> state_key \<Rightarrow> chunk_bitmap option" where
  "load os blake3 fs staging key =
     (case read_file os fs (state_path staging) of
        None \<Rightarrow> None
      | Some raw \<Rightarrow>
      if length raw < STATE_HEADER_LEN + 32 then None
      else let body = take (length raw - 32) raw; stored_checksum = drop (length raw - 32) raw in
      if blake3 body \<noteq> stored_checksum then None
      else if sub_slice body 0 8 \<noteq> STATE_MAGIC then None
      else let chunk_size = from_le_bytes (sub_slice body 8 12);
               chunk_count = from_le_bytes (sub_slice body 12 20);
               file_size = from_le_bytes (sub_slice body 20 28);
               root_hash = sub_slice body 28 60 in
      if chunk_size \<noteq> key_chunk_size key \<or> file_size \<noteq> key_file_size key
         \<or> root_hash \<noteq> key_root_hash key then None
      else case file_len os fs staging of
        None \<Rightarrow> None
      | Some n \<Rightarrow>
      if n \<noteq> file_size then None
      else case bitmap_from_bytes (drop STATE_HEADER_LEN body) chunk_count of
        Ok b \<Rightarrow> Some b
      | Err e \<Rightarrow> None)"

text \<open>
  \<open>rebuild_by_verification\<close>; \<open>None\<close> is the index panic of \<open>chunk_hashes[index]\<close>, which the
  callers rule out by passing one hash per chunk.
\<close>

fun rebuild_loop ::
    "os_env \<Rightarrow> (bytes \<Rightarrow> hash) \<Rightarrow> fs \<Rightarrow> sink_file \<Rightarrow> hash list \<Rightarrow> chunk_bitmap \<Rightarrow> u64 list
     \<Rightarrow> (chunk_bitmap, core_error) result option" where
  "rebuild_loop os blake3 fs sink hs bitmap [] = Some (Ok bitmap)"
| "rebuild_loop os blake3 fs sink hs bitmap (index # is) =
     (case read_chunk os fs sink index of
        Err _ \<Rightarrow> rebuild_loop os blake3 fs sink hs bitmap is
      | Ok bs \<Rightarrow>
      if length hs \<le> unat index then None
      else if hash_chunk blake3 bs = hs ! unat index
      then (case bitmap_set bitmap index of
              Err e \<Rightarrow> Some (Err (Wire e))
            | Ok b \<Rightarrow> rebuild_loop os blake3 fs sink hs b is)
      else rebuild_loop os blake3 fs sink hs bitmap is)"

definition rebuild_by_verification ::
    "os_env \<Rightarrow> (bytes \<Rightarrow> hash) \<Rightarrow> fs \<Rightarrow> sink_file \<Rightarrow> hash list
     \<Rightarrow> (chunk_bitmap, core_error) result option" where
  "rebuild_by_verification os blake3 fs sink hs =
     rebuild_loop os blake3 fs sink hs (bitmap_new (cl_count (sk_layout sink)))
       (index_range (0, cl_count (sk_layout sink)))"

definition remove_file :: "os_env \<Rightarrow> fs \<Rightarrow> path \<Rightarrow> fs" where
  "remove_file os fs p = (if os_fails os (RemoveFile p) then fs else fs(p := None))"

definition discard :: "os_env \<Rightarrow> fs \<Rightarrow> path \<Rightarrow> fs" where
  "discard os fs staging =
     remove_file os (remove_file os fs (state_path staging)) (with_extension (state_path staging) ''tmp'')"

section \<open>Lemmas on the paths\<close>

lemma state_path_neq: "state_path p \<noteq> p"
proof
  assume "state_path p = p"
  then have "last (state_path p) = last p" "p \<noteq> []"
    by (auto simp: state_path_def with_file_name_def Let_def)
  then show False
    by (simp add: state_path_def with_file_name_def file_name_def)
qed

lemma file_stem_sidecar:
  "file_stem (n @ ''.aether_state'') = (if n = [] then ''.aether_state'' else n)"
  by (simp add: file_stem_def)

lemma tmp_path_eq:
  "tmp_path p = butlast p @
     [(if p = [] \<or> last p = [] then ''.aether_state'' else last p) @ ''.tmp'']"
  by (auto simp: state_path_def with_extension_def with_file_name_def file_name_def
      file_stem_sidecar [of "[]", simplified] file_stem_sidecar)

lemma tmp_path_neq: "tmp_path p \<noteq> p" "tmp_path p \<noteq> state_path p"
proof -
  show "tmp_path p \<noteq> p"
  proof
    assume e: "tmp_path p = p"
    then have "p \<noteq> []" by (auto simp: tmp_path_eq)
    moreover have "last (tmp_path p) = last p" using e by simp
    ultimately show False by (auto simp: tmp_path_eq split: if_splits)
  qed
  show "tmp_path p \<noteq> state_path p"
    unfolding tmp_path_eq by (auto simp: state_path_def with_file_name_def file_name_def)
qed

section \<open>Lemmas on the records\<close>

lemma length_STATE_MAGIC [wire_simps]: "length STATE_MAGIC = 8"
  by (simp add: STATE_MAGIC_def ascii_bytes_def)

lemma length_state_body:
  "length (key_root_hash key) = 32 \<Longrightarrow> length (state_body key b) = STATE_HEADER_LEN + length (bm_bits b)"
  by (simp add: state_body_def wire_simps STATE_HEADER_LEN_def)

text \<open>The fields that \<open>load\<close> reads determine the body: reading is the inverse of writing.\<close>

lemma state_body_fields:
  assumes "length (key_root_hash key) = 32" "STATE_HEADER_LEN \<le> length body"
  shows "body = state_body key b \<longleftrightarrow>
     sub_slice body 0 8 = STATE_MAGIC \<and> from_le_bytes (sub_slice body 8 12) = key_chunk_size key
     \<and> from_le_bytes (sub_slice body 12 20) = bm_count b
     \<and> from_le_bytes (sub_slice body 20 28) = key_file_size key
     \<and> sub_slice body 28 60 = key_root_hash key \<and> drop STATE_HEADER_LEN body = bm_bits b"
    (is "?l \<longleftrightarrow> ?r")
proof
  assume ?l
  then show ?r
    using assms(1)
    by (simp add: state_body_def sub_slice_def STATE_HEADER_LEN_def wire_simps)
next
  assume r: ?r
  have "body = sub_slice body 0 8 @ sub_slice body 8 12 @ sub_slice body 12 20
      @ sub_slice body 20 28 @ sub_slice body 28 60 @ drop 60 body"
    by (simp add: sub_slice_drop)
  moreover have "sub_slice body 8 12 = to_le_bytes (key_chunk_size key)"
    using r assms(2) to_from_le_bytes [where 'a = 32, of "sub_slice body 8 12"]
    by (simp add: STATE_HEADER_LEN_def)
  moreover have "sub_slice body 12 20 = to_le_bytes (bm_count b)"
    using r assms(2) to_from_le_bytes [where 'a = 64, of "sub_slice body 12 20"]
    by (simp add: STATE_HEADER_LEN_def)
  moreover have "sub_slice body 20 28 = to_le_bytes (key_file_size key)"
    using r assms(2) to_from_le_bytes [where 'a = 64, of "sub_slice body 20 28"]
    by (simp add: STATE_HEADER_LEN_def)
  ultimately show ?l
    using r by (simp add: state_body_def STATE_HEADER_LEN_def)
qed

lemma load_eq:
  assumes "\<And>x. length (blake3 x) = 32" and "length (key_root_hash key) = 32"
  shows "load os blake3 fs p key = Some b \<longleftrightarrow>
     \<not> os_fails os (ReadFile (state_path p)) \<and> \<not> os_fails os (Stat p)
     \<and> fs (state_path p) = Some (state_record blake3 key b) \<and> bitmap_ok b
     \<and> (\<exists>c. fs p = Some c \<and> of_nat (length c) = key_file_size key)"
    (is "_ \<longleftrightarrow> ?r")
proof -
  have split: "raw = state_record blake3 key b \<longleftrightarrow>
      STATE_HEADER_LEN + 32 \<le> length raw \<and> blake3 (take (length raw - 32) raw) = drop (length raw - 32) raw
      \<and> take (length raw - 32) raw = state_body key b" for raw
  proof
    assume "raw = state_record blake3 key b"
    then show "STATE_HEADER_LEN + 32 \<le> length raw \<and>
        blake3 (take (length raw - 32) raw) = drop (length raw - 32) raw
      \<and> take (length raw - 32) raw = state_body key b"
      using assms length_state_body [OF assms(2), of b] by (simp add: state_record_def Let_def)
  next
    assume "STATE_HEADER_LEN + 32 \<le> length raw
      \<and> blake3 (take (length raw - 32) raw) = drop (length raw - 32) raw
      \<and> take (length raw - 32) raw = state_body key b"
    then show "raw = state_record blake3 key b"
      using append_take_drop_id [of "length raw - 32" raw] unfolding state_record_def Let_def by metis
  qed
  show ?thesis
  proof
    assume "load os blake3 fs p key = Some b"
    then show ?r
      using state_body_fields [OF assms(2)]
      by (auto simp: load_def read_file_def file_len_def Let_def split bitmap_from_bytes_Ok
          split: option.splits if_splits result.splits)
  next
    assume r: ?r
    define body where "body = state_body key b"
    have "STATE_HEADER_LEN \<le> length body"
      using length_state_body [OF assms(2)] by (simp add: body_def)
    then have "sub_slice body 0 8 = STATE_MAGIC" "from_le_bytes (sub_slice body 8 12) = key_chunk_size key"
      "from_le_bytes (sub_slice body 12 20) = bm_count b"
      "from_le_bytes (sub_slice body 20 28) = key_file_size key"
      "sub_slice body 28 60 = key_root_hash key" "drop STATE_HEADER_LEN body = bm_bits b"
      using state_body_fields [OF assms(2), of body b] by (auto simp: body_def)
    moreover have "bitmap_from_bytes (bm_bits b) (bm_count b) = Ok b"
      using r by (simp add: bitmap_from_bytes_Ok)
    ultimately show "load os blake3 fs p key = Some b"
      using r assms(1) length_state_body [OF assms(2), of b]
      by (auto simp: load_def read_file_def file_len_def state_record_def Let_def body_def)
  qed
qed

lemma persist_Ok:
  assumes "persist os blake3 fs p key b = (Ok (), fs')"
  shows "fs' = fs(state_path p \<mapsto> state_record blake3 key b, tmp_path p := None)"
  using assms tmp_path_neq(2) [of p]
  by (auto simp: persist_def Let_def fun_eq_iff split: if_splits)

lemma persist_frame:
  assumes "persist os blake3 fs p key b = (r, fs')" and "q \<noteq> tmp_path p"
  shows "fs' q = (if r = Ok () \<and> q = state_path p then Some (state_record blake3 key b) else fs q)"
  using assms by (auto simp: persist_def Let_def split: if_splits)

text \<open>The slow path: bit \<open>i\<close> is set exactly when the chunk can be read and hashes to its commitment.\<close>

lemma rebuild_loop_spec:
  assumes "bitmap_ok b" and "unat (bm_count b) = length hs"
    and "\<forall>i \<in> set is. unat i < length hs"
  shows "\<exists>b'. rebuild_loop os blake3 fs sink hs b is = Some (Ok b') \<and> bitmap_ok b'
     \<and> bm_count b' = bm_count b
     \<and> (\<forall>j < length hs. bools b' ! j \<longleftrightarrow> bools b ! j \<or>
          (\<exists>i \<in> set is. unat i = j \<and> (\<exists>bs. read_chunk os fs sink i = Ok bs \<and> blake3 bs = hs ! j)))"
  using assms
proof (induction "is" arbitrary: b)
  case (Cons i "is")
  let ?hit = "\<exists>bs. read_chunk os fs sink i = Ok bs \<and> blake3 bs = hs ! unat i"
  show ?case
  proof (cases ?hit)
    case False
    with Cons.prems(3) have "rebuild_loop os blake3 fs sink hs b (i # is) = rebuild_loop os blake3 fs sink hs b is"
      by (auto simp: hash_chunk_def split: result.splits)
    with False Cons show ?thesis by simp blast
  next
    case True
    obtain b1 where b1: "bitmap_set b i = Ok b1" "bitmap_ok b1" "bm_count b1 = bm_count b"
        "bools b1 = (bools b)[unat i := True]"
      using bitmap_set_Ok [OF Cons.prems(1), of i] Cons.prems by auto
    have "rebuild_loop os blake3 fs sink hs b (i # is) = rebuild_loop os blake3 fs sink hs b1 is"
      using True b1 Cons.prems(3) by (auto simp: hash_chunk_def)
    moreover have "j < length hs \<Longrightarrow> bools b1 ! j \<longleftrightarrow> j = unat i \<or> bools b ! j" for j
      using bm.mark_nth [OF Cons.prems(1) b1(1)] length_bools [OF Cons.prems(1)] Cons.prems(2) by simp
    ultimately show ?thesis
      using Cons.IH [OF b1(2)] Cons.prems b1(3) True by auto
  qed
qed simp

lemma rebuild_exists:
  assumes "unat (cl_count (sk_layout sink)) = length hs"
  shows "\<exists>b. rebuild_by_verification os blake3 fs sink hs = Some (Ok b) \<and> bitmap_ok b
     \<and> bm_count b = cl_count (sk_layout sink)
     \<and> (\<forall>j < length hs. bools b ! j \<longleftrightarrow>
          (\<exists>bs. read_chunk os fs sink (of_nat j) = Ok bs \<and> blake3 bs = hs ! j))"
proof -
  let ?n = "cl_count (sk_layout sink)"
  have r: "map unat (index_range (0, ?n)) = [0..<length hs]"
    using assms by (simp add: index_range_nat nat_range_def)
  then have "set (map unat (index_range (0, ?n))) = {0..<length hs}" by simp
  then have im: "unat ` set (index_range (0, ?n)) = {0..<length hs}" by simp
  then have lt: "\<forall>i \<in> set (index_range (0, ?n)). unat i < length hs"
    by auto
  have all: "\<exists>i \<in> set (index_range (0, ?n)). unat i = j" if "j < length hs" for j
  proof -
    have "j \<in> unat ` set (index_range (0, ?n))" unfolding im using that by simp
    then show ?thesis by blast
  qed
  have n: "bm_count (bitmap_new ?n) = ?n" "\<And>j. j < length hs \<Longrightarrow> \<not> bools (bitmap_new ?n) ! j"
    using assms by (simp add: bitmap_new_def) (simp add: bools_new assms)
  have w: "unat i = j \<Longrightarrow> i = of_nat j" for i :: u64 and j by auto
  from rebuild_loop_spec [OF bitmap_new_ok, of ?n hs "index_range (0, ?n)" os blake3 fs sink] n lt
  obtain b where b: "rebuild_by_verification os blake3 fs sink hs = Some (Ok b)" "bitmap_ok b"
      "bm_count b = ?n"
      "\<And>j. j < length hs \<Longrightarrow> bools b ! j \<longleftrightarrow>
          (\<exists>i \<in> set (index_range (0, ?n)). unat i = j \<and>
             (\<exists>bs. read_chunk os fs sink i = Ok bs \<and> blake3 bs = hs ! j))"
    using assms unfolding rebuild_by_verification_def by auto
  have "j < length hs \<Longrightarrow> bools b ! j \<longleftrightarrow>
      (\<exists>bs. read_chunk os fs sink (of_nat j) = Ok bs \<and> blake3 bs = hs ! j)" for j
    using b(4) [of j] all [of j] w by metis
  with b show ?thesis by blast
qed

section \<open>Properties\<close>

text \<open>
  C27: a sidecar is accepted with bitmap \<open>b\<close> exactly when it can be read, its bytes are the complete
  record of \<open>b\<close> for this very root hash, file size and chunk size with a matching checksum, \<open>b\<close> is
  consistent, and the staging file has the recorded length.  Everything else, from a torn or damaged
  record to one of another transfer, gives \<open>None\<close>.
\<close>

theorem load_exact:
  assumes "\<And>x. length (blake3 x) = 32" and "length (key_root_hash key) = 32"
  shows "load os blake3 fs p key = Some b \<longleftrightarrow>
     \<not> os_fails os (ReadFile (state_path p)) \<and> \<not> os_fails os (Stat p)
     \<and> fs (state_path p) = Some (state_record blake3 key b) \<and> bitmap_ok b
     \<and> (\<exists>c. fs p = Some c \<and> of_nat (length c) = key_file_size key)"
  by (rule load_eq [OF assms])

definition sample_key :: state_key where
  "sample_key = \<lparr>key_root_hash = replicate 32 9, key_file_size = 3, key_chunk_size = MIN_CHUNK_SIZE\<rparr>"

theorem load_exact_witness:
  "load quiet_os (\<lambda>_. replicate 32 0)
     [[''f''] \<mapsto> [1, 2, 3], [''f.aether_state''] \<mapsto> state_record (\<lambda>_. replicate 32 0) sample_key (bitmap_new 1)]
     [''f''] sample_key = Some (bitmap_new 1)"
  using load_exact [of "\<lambda>_. replicate 32 0" sample_key quiet_os _ "[''f'']" "bitmap_new 1"]
  by (simp add: sample_key_def quiet_os_def bitmap_new_ok state_path_def file_name_def with_file_name_def)

text \<open>
  C28: a record that was written without an error is read back as the same bitmap, for a staging file of
  the recorded length, and writing it changes no file but the sidecar and its temporary.
\<close>

theorem persist_load:
  assumes "\<And>x. length (blake3 x) = 32" and "length (key_root_hash key) = 32"
    and "persist os blake3 fs p key b = (Ok (), fs')" and "bitmap_ok b"
    and "fs p = Some c" and "of_nat (length c) = key_file_size key"
    and "\<not> os_fails os (ReadFile (state_path p))" and "\<not> os_fails os (Stat p)"
  shows "load os blake3 fs' p key = Some b
     \<and> (\<forall>q. q \<noteq> state_path p \<and> q \<noteq> tmp_path p \<longrightarrow> fs' q = fs q)"
  using assms persist_Ok [OF assms(3)] state_path_neq [of p] tmp_path_neq [of p]
  by (simp add: load_eq)

theorem persist_load_witness:
  "\<exists>fs'. persist quiet_os (\<lambda>_. replicate 32 0) [[''f''] \<mapsto> [1, 2, 3]] [''f''] sample_key (bitmap_new 1) = (Ok (), fs')
     \<and> load quiet_os (\<lambda>_. replicate 32 0) fs' [''f''] sample_key = Some (bitmap_new 1)"
proof -
  obtain fs' where p: "persist quiet_os (\<lambda>_. replicate 32 0) [[''f''] \<mapsto> [1, 2, 3]] [''f''] sample_key (bitmap_new 1) = (Ok (), fs')"
    by (simp add: persist_def quiet_os_def Let_def)
  then show ?thesis
    using persist_load [OF _ _ p, of "[1, 2, 3]"]
    by (simp add: sample_key_def quiet_os_def bitmap_new_ok)
qed

text \<open>
  C29: hashing what is on disk finds exactly the chunks that are really there: with one committed hash
  per chunk the slow path returns a consistent bitmap of the right size in which bit \<open>j\<close> is set if and
  only if chunk \<open>j\<close> of the staging file can be read and hashes to its commitment.
\<close>

theorem rebuild_exact:
  assumes "file_fits (sk_layout sink) (content fs (sk_path sink))"
    and "length hs = ccount (sk_layout sink)"
  shows "\<exists>b. rebuild_by_verification os blake3 fs sink hs = Some (Ok b) \<and> bitmap_ok b
     \<and> bm_count b = cl_count (sk_layout sink)
     \<and> (\<forall>j < ccount (sk_layout sink). bools b ! j \<longleftrightarrow>
          \<not> os_fails os (ReadAt (sk_path sink) (chunk_start (sk_layout sink) j))
          \<and> blake3 (chunk_of (sk_layout sink) (content fs (sk_path sink)) j) = hs ! j)"
proof -
  have "unat (of_nat j :: u64) = j" if "j < ccount (sk_layout sink)" for j
    using that unat_less_exp [of "cl_count (sk_layout sink)"] by (simp add: unat_of_nat_u64)
  then have "j < ccount (sk_layout sink) \<Longrightarrow>
      (\<exists>bs. read_chunk os fs sink (of_nat j) = Ok bs \<and> blake3 bs = hs ! j) \<longleftrightarrow>
      \<not> os_fails os (ReadAt (sk_path sink) (chunk_start (sk_layout sink) j))
      \<and> blake3 (chunk_of (sk_layout sink) (content fs (sk_path sink)) j) = hs ! j" for j
    using read_chunk_Ok [OF assms(1), of "of_nat j" os] by simp
  then show ?thesis
    using rebuild_exists [of sink hs os blake3 fs] assms(2) by auto
qed

theorem rebuild_exact_witness:
  "\<exists>b. rebuild_by_verification quiet_os (\<lambda>x. x) [[''f''] \<mapsto> [1, 2, 3]]
      \<lparr>sk_path = [''f''], sk_layout = \<lparr>cl_file_size = 3, cl_chunk_size = MIN_CHUNK_SIZE, cl_count = 1\<rparr>\<rparr>
      [[1, 2, 3]] = Some (Ok b) \<and> bools b ! 0"
proof -
  define l where "l = \<lparr>cl_file_size = (3 :: u64), cl_chunk_size = MIN_CHUNK_SIZE, cl_count = (1 :: u64)\<rparr>"
  define s where "s = \<lparr>sk_path = [''f''], sk_layout = l\<rparr>"
  have "layout_new 3 MIN_CHUNK_SIZE = Ok l" unfolding l_def by code_simp
  then have f: "file_fits (sk_layout s) (content [[''f''] \<mapsto> [1, 2, 3]] (sk_path s))"
    using layout_new_ok [of 3 MIN_CHUNK_SIZE l] by (simp add: file_fits_def s_def content_def)
  have "chunk_of l [1, 2, 3 :: u8] 0 = [1, 2, 3]"
    by (simp add: chunk_of_def chunk_start_def chunk_len_def sub_slice_def l_def MIN_CHUNK_SIZE_def)
  then show ?thesis
    using rebuild_exact [OF f, of "[[1, 2, 3]]" quiet_os "\<lambda>x. x"]
    by (auto simp: s_def l_def quiet_os_def content_def)
qed

text \<open>
  Once the sidecar is discarded no bitmap is loaded, and the staging file is untouched.
\<close>

theorem discard_load:
  assumes "\<not> os_fails os (RemoveFile (state_path p))"
  shows "load os blake3 (discard os fs p) p key = None \<and> discard os fs p p = fs p"
  using assms state_path_neq [of p] tmp_path_neq [of p]
  by (simp add: load_def read_file_def discard_def remove_file_def)

theorem discard_load_witness:
  "load quiet_os (\<lambda>x. x) (discard quiet_os [[''f.aether_state''] \<mapsto> [1]] [''f'']) [''f''] sample_key = None"
  using discard_load [of quiet_os "[''f'']" "\<lambda>x. x" "[[''f.aether_state''] \<mapsto> [1]]" sample_key]
  by (simp add: quiet_os_def)

text \<open>
  C30: the receiver reserves the staging file before it looks at the sidecar.  Reserving sets the length,
  so the length check of the sidecar cannot fail any more: a record left by an earlier attempt is
  accepted even when the staging file itself was removed in between, and chunks are then reported as
  present whose bytes on disk are all zero.
\<close>

theorem stale_record_accepted:
  assumes "\<And>x. length (blake3 x) = 32" and "length (key_root_hash key) = 32"
    and "fs (state_path p) = Some (state_record blake3 key b)" and "bitmap_ok b" and "fs p = None"
    and "key_file_size key \<noteq> 0"
    and "sink_create os fs p (key_file_size key) (key_chunk_size key) = (Ok s, fs')"
    and "\<not> os_fails os (ReadFile (state_path p))" and "\<not> os_fails os (Stat p)"
  shows "load os blake3 fs p key = None \<and> load os blake3 fs' p key = Some b
     \<and> fs' p = Some (replicate (unat (key_file_size key)) 0)"
proof -
  have fs': "fs' = fs(p \<mapsto> replicate (unat (key_file_size key)) 0)"
    using sink_create_Ok(3) [OF assms(7)] assms(5,6) by (simp add: content_def resize_def)
  then have "load os blake3 fs' p key = Some b"
    using assms state_path_neq [of p] by (simp add: load_eq)
  moreover have "load os blake3 fs p key = None"
    using load_eq [where os = os and fs = fs and p = p, OF assms(1,2)] assms(5) by (cases "load os blake3 fs p key") auto
  ultimately show ?thesis by (simp add: fs')
qed

definition full_bitmap :: chunk_bitmap where
  "full_bitmap = \<lparr>bm_bits = [1], bm_count = 1, bm_set_count = 1\<rparr>"

theorem stale_record_accepted_witness:
  "\<exists>s fs'. sink_create quiet_os
        [[''f.aether_state''] \<mapsto> state_record (\<lambda>_. replicate 32 0) sample_key full_bitmap] [''f''] 3 MIN_CHUNK_SIZE
      = (Ok s, fs')
    \<and> load quiet_os (\<lambda>_. replicate 32 0) fs' [''f''] sample_key = Some full_bitmap
    \<and> fs' [''f''] = Some (replicate 3 0) \<and> bitmap_is_complete full_bitmap"
proof -
  define fs :: fs where "fs = [[''f.aether_state''] \<mapsto> state_record (\<lambda>_. replicate 32 0) sample_key full_bitmap]"
  define l where "l = \<lparr>cl_file_size = (3 :: u64), cl_chunk_size = MIN_CHUNK_SIZE, cl_count = (1 :: u64)\<rparr>"
  have l: "layout_new 3 MIN_CHUNK_SIZE = Ok l" unfolding l_def by code_simp
  obtain fs' where c: "sink_create quiet_os fs [''f''] 3 MIN_CHUNK_SIZE = (Ok \<lparr>sk_path = [''f''], sk_layout = l\<rparr>, fs')"
    by (simp add: sink_create_def quiet_os_def preallocate_def reserve_blocks_def set_len_def fs_def l)
  have "bitmap_from_bytes [1] 1 = Ok full_bitmap" unfolding full_bitmap_def by code_simp
  then have b: "bitmap_ok full_bitmap" by (simp add: bitmap_from_bytes_Ok)
  show ?thesis
    using stale_record_accepted [of "\<lambda>_. replicate 32 0" sample_key fs "[''f'']" full_bitmap quiet_os _ fs'] c b
    by (auto simp: fs_def sample_key_def quiet_os_def state_path_def file_name_def with_file_name_def
        full_bitmap_def bitmap_is_complete_def)
qed

end
