(* ===== verification/Engine.thy ===== *)
theory Engine
  imports Resume
begin

text \<open>
  The tuning record and the statistics of \<open>aetherlink-core/src/lib.rs\<close>.  Times are in
  microseconds.
\<close>

record config =
  cfg_stream_count :: u8
  cfg_frame_size :: u32
  cfg_chunk_size :: u32
  cfg_max_streams :: u8
  cfg_max_file_bytes :: u64
  cfg_resume :: bool
  cfg_checkpoint_bytes :: u64
  cfg_bound_interface_index :: u32
  cfg_socket_send_buffer_bytes :: u32
  cfg_socket_recv_buffer_bytes :: u32
  cfg_release_read_pages :: bool

definition config_default :: config where
  "config_default = \<lparr>
     cfg_stream_count = 8,
     cfg_frame_size = DEFAULT_FRAME_PAYLOAD,
     cfg_chunk_size = DEFAULT_CHUNK_SIZE,
     cfg_max_streams = 32,
     cfg_max_file_bytes = push_bit 40 2,
     cfg_resume = True,
     cfg_checkpoint_bytes = DEFAULT_CHECKPOINT_BYTES,
     cfg_bound_interface_index = 0,
     cfg_socket_send_buffer_bytes = 0,
     cfg_socket_recv_buffer_bytes = 0,
     cfg_release_read_pages = True\<rparr>"

record transfer_stats =
  ts_bytes :: u64
  ts_elapsed_micros :: nat

text \<open>
  What the two ends take for granted of a configuration.  Nothing in the engine checks it; the
  foreign-function layer establishes part of it.
\<close>

definition config_ok :: "config \<Rightarrow> bool" where
  "config_ok c \<longleftrightarrow> 0 < cfg_stream_count c \<and> 0 < cfg_frame_size c \<and> cfg_frame_size c \<le> MAX_FRAME_PAYLOAD
     \<and> is_power_of_two (cfg_chunk_size c) \<and> MIN_CHUNK_SIZE \<le> cfg_chunk_size c \<and> cfg_chunk_size c \<le> MAX_CHUNK_SIZE"

end
