(* ===== verification/Secure_Link.thy ===== *)
theory Secure_Link
  imports Engine
begin

text \<open>
  The authenticated link: \<open>aetherlink-core/src/tls.rs\<close>, \<open>link.rs\<close> and the socket part of
  \<open>platform.rs\<close>.  Certificate generation (rcgen), the TLS library (rustls) and the network calls of
  the operating system are fields of the records \<open>tls_env\<close> and \<open>net_env\<close>; the statement that the
  TLS library asks the certificate verifier before it hands out a stream is the named hypothesis
  \<open>honours_verifier\<close>.  Every operation on a socket also returns the list of calls it made, in order.
  The lemmas show that a dialled stream ends at the holder of the pinned certificate and that no
  connection is attempted before the socket is bound to the requested interface.
\<close>

section \<open>Certificates and pinning\<close>

type_synonym fingerprint = hash

datatype tls_version = TLS12 | TLS13

datatype rustls_error = General string | PeerIncompatible string | Other_Rustls

record tls_env =
  tl_self_signed :: "string list \<Rightarrow> (bytes \<times> bytes) option"
  tl_private_key :: "bytes \<Rightarrow> bytes option"
  tl_versions :: "tls_version list \<Rightarrow> bool"
  tl_single_cert :: "bytes list \<Rightarrow> bytes \<Rightarrow> bool"
  tl_server_name :: "string \<Rightarrow> bool"
  tl_verify_tls13 :: "bytes \<Rightarrow> bytes \<Rightarrow> bytes \<Rightarrow> (unit, rustls_error) result"

definition SERVER_NAME :: string where
  "SERVER_NAME = ''aetherlink.local''"

record host_identity =
  hi_cert :: bytes
  hi_key :: bytes
  hi_fingerprint :: fingerprint

definition host_identity_generate ::
    "tls_env \<Rightarrow> (bytes \<Rightarrow> hash) \<Rightarrow> (host_identity, core_error) result" where
  "host_identity_generate te blake3 =
     (case tl_self_signed te [SERVER_NAME] of
        None \<Rightarrow> Err (Tls (Fmt ''generating host identity: {e}'' []))
      | Some (cert, key_der) \<Rightarrow>
      let fingerprint = blake3 cert in
      case tl_private_key te key_der of
        None \<Rightarrow> Err (Tls (Fmt ''encoding host key: {e}'' []))
      | Some key \<Rightarrow> Ok \<lparr>hi_cert = cert, hi_key = key, hi_fingerprint = fingerprint\<rparr>)"

definition fingerprint_hex :: "host_identity \<Rightarrow> string" where
  "fingerprint_hex identity = concat (map hex_byte (hi_fingerprint identity))"

text \<open>
  The server side.  The library's default of two session tickets is what the code overrides.
\<close>

record server_config =
  sc_versions :: "tls_version list"
  sc_client_auth :: bool
  sc_certs :: "bytes list"
  sc_key :: bytes
  sc_send_tls13_tickets :: nat

definition identity_server_config :: "tls_env \<Rightarrow> host_identity \<Rightarrow> (server_config, core_error) result" where
  "identity_server_config te identity =
     (if \<not> tl_versions te [TLS13] then Err (Tls (Fmt ''selecting TLS 1.3: {e}'' []))
      else if \<not> tl_single_cert te [hi_cert identity] (hi_key identity)
      then Err (Tls (Fmt ''installing host certificate: {e}'' []))
      else
        let config = \<lparr>sc_versions = [TLS13], sc_client_auth = False, sc_certs = [hi_cert identity],
                      sc_key = hi_key identity, sc_send_tls13_tickets = 2\<rparr> in
        Ok (config\<lparr>sc_send_tls13_tickets := 0\<rparr>))"

record pinned_cert_verifier =
  pv_expected :: hash

definition verify_server_cert ::
    "(bytes \<Rightarrow> hash) \<Rightarrow> pinned_cert_verifier \<Rightarrow> bytes \<Rightarrow> bytes list \<Rightarrow> string \<Rightarrow> bytes \<Rightarrow> nat
     \<Rightarrow> (unit, rustls_error) result" where
  "verify_server_cert blake3 v end_entity intermediates server_name ocsp_response now =
     (if blake3 end_entity = pv_expected v then Ok ()
      else Err (General ''server certificate does not match the pinned fingerprint''))"

definition verify_tls12_signature :: "bytes \<Rightarrow> bytes \<Rightarrow> bytes \<Rightarrow> (unit, rustls_error) result" where
  "verify_tls12_signature msg cert dss = Err (PeerIncompatible ''ServerDoesNotSupportTls12Or13'')"

definition verify_tls13_signature ::
    "tls_env \<Rightarrow> bytes \<Rightarrow> bytes \<Rightarrow> bytes \<Rightarrow> (unit, rustls_error) result" where
  "verify_tls13_signature te msg cert dss = tl_verify_tls13 te msg cert dss"

record client_config =
  cc_versions :: "tls_version list"
  cc_verifier :: pinned_cert_verifier
  cc_client_auth :: bool

definition client_config_new :: "tls_env \<Rightarrow> fingerprint \<Rightarrow> (client_config, core_error) result" where
  "client_config_new te pinned =
     (let verifier = \<lparr>pv_expected = pinned\<rparr> in
      if \<not> tl_versions te [TLS13] then Err (Tls (Fmt ''selecting TLS 1.3: {e}'' []))
      else Ok \<lparr>cc_versions = [TLS13], cc_verifier = verifier, cc_client_auth = False\<rparr>)"

section \<open>Sockets\<close>

datatype sock_addr = V4 bytes u16 | V6 bytes u16

fun is_ipv4 :: "sock_addr \<Rightarrow> bool" where
  "is_ipv4 (V4 _ _) = True"
| "is_ipv4 (V6 _ _) = False"

datatype sock_opt = IP_BOUND_IF | SO_SNDBUF | SO_RCVBUF

datatype sock_event =
    New_Socket bool
  | Set_Opt sock_opt u32
  | Get_Opt sock_opt
  | Connect sock_addr
  | Accepted
  | Set_Nodelay
  | Handshake

type_synonym tcp = nat

text \<open>What a handshake yields: the two directions, and the certificate the peer presented.\<close>

record tls_stream =
  tls_in :: in_stream
  tls_out :: out_stream
  tls_peer :: bytes

record net_env =
  nt_darwin :: bool
  nt_lookup :: "string \<Rightarrow> sock_addr list option"
  nt_socket :: "bool \<Rightarrow> bool"
  nt_setsockopt :: "sock_opt \<Rightarrow> u32 \<Rightarrow> bool"
  nt_getsockopt :: "sock_opt \<Rightarrow> u32 option"
  nt_connect :: "sock_addr \<Rightarrow> tcp option"
  nt_tls_connect :: "client_config \<Rightarrow> string \<Rightarrow> tcp \<Rightarrow> tls_stream option"
  nt_accept :: "tcp option"
  nt_tls_accept :: "server_config \<Rightarrow> tcp \<Rightarrow> tls_stream option"

definition bind_impl_darwin :: "net_env \<Rightarrow> u32 \<Rightarrow> (unit, core_error) result \<times> sock_event list" where
  "bind_impl_darwin net index =
     ((if nt_setsockopt net IP_BOUND_IF index then Ok ()
       else Err (Io (Fmt ''binding socket to interface {index}: {}'' [TNum (unat index)]))),
      [Set_Opt IP_BOUND_IF index])"

definition bind_impl_other :: "u32 \<Rightarrow> (unit, core_error) result \<times> sock_event list" where
  "bind_impl_other index =
     (Err (Io (Fmt ''per-socket interface binding is not available on this platform (asked for index {index})''
        [TNum (unat index)])), [])"

definition bind_to_interface :: "net_env \<Rightarrow> u32 \<Rightarrow> (unit, core_error) result \<times> sock_event list" where
  "bind_to_interface net interface_index =
     (if interface_index = 0 then (Ok (), [])
      else if nt_darwin net then bind_impl_darwin net interface_index
      else bind_impl_other interface_index)"

text \<open>\<open>value.max(0) as u32\<close> on a C \<open>int\<close>.\<close>

definition get_buf :: "net_env \<Rightarrow> sock_opt \<Rightarrow> (u32, io_kind) result \<times> sock_event list" where
  "get_buf net option =
     ((case nt_getsockopt net option of
         None \<Rightarrow> Err OtherIo
       | Some v \<Rightarrow> Ok (if sint v < 0 then 0 else v)),
      [Get_Opt option])"

definition set_buf :: "net_env \<Rightarrow> sock_opt \<Rightarrow> u32 \<Rightarrow> (u32, io_kind) result \<times> sock_event list" where
  "set_buf net option bs =
     (if \<not> nt_setsockopt net option bs then (Err OtherIo, [Set_Opt option bs])
      else case get_buf net option of (r, log) \<Rightarrow> (r, Set_Opt option bs # log))"

record buffer_result =
  br_send :: "(u32, io_kind) result option"
  br_recv :: "(u32, io_kind) result option"

definition set_if_requested ::
    "net_env \<Rightarrow> sock_opt \<Rightarrow> u32 \<Rightarrow> (u32, io_kind) result option \<times> sock_event list" where
  "set_if_requested net option bs =
     (if 0 < bs then (case set_buf net option bs of (r, log) \<Rightarrow> (Some r, log)) else (None, []))"

definition set_socket_buffers :: "net_env \<Rightarrow> u32 \<Rightarrow> u32 \<Rightarrow> buffer_result \<times> sock_event list" where
  "set_socket_buffers net send_bytes recv_bytes =
     (case set_if_requested net SO_SNDBUF send_bytes of (s, log1) \<Rightarrow>
      case set_if_requested net SO_RCVBUF recv_bytes of (r, log2) \<Rightarrow>
        (\<lparr>br_send = s, br_recv = r\<rparr>, log1 @ log2))"

definition report_buffers :: "buffer_result \<Rightarrow> string list" where
  "report_buffers r =
     (case br_send r of Some (Err _) \<Rightarrow> [''could not set send buffer: {e}''] | _ \<Rightarrow> [])
     @ (case br_recv r of Some (Err _) \<Rightarrow> [''could not set receive buffer: {e}''] | _ \<Rightarrow> [])"

section \<open>Dialling and accepting\<close>

record dialer =
  dl_connector :: client_config
  dl_server_name :: string
  dl_addr :: string
  dl_config :: config

definition dialer_new :: "tls_env \<Rightarrow> string \<Rightarrow> fingerprint \<Rightarrow> config \<Rightarrow> (dialer, core_error) result" where
  "dialer_new te addr pinned config =
     (case client_config_new te pinned of
        Err e \<Rightarrow> Err e
      | Ok cc \<Rightarrow>
        if \<not> tl_server_name te SERVER_NAME then Err (Tls (Fmt ''invalid server name: {e}'' []))
        else Ok \<lparr>dl_connector = cc, dl_server_name = SERVER_NAME, dl_addr = addr, dl_config = config\<rparr>)"

text \<open>
  \<open>next_stream\<close> of the dialer.  Warnings about buffers are logged by the code and dropped here.
\<close>

definition dial_socket ::
    "net_env \<Rightarrow> dialer \<Rightarrow> sock_addr \<Rightarrow> (tls_stream, core_error) result \<times> sock_event list" where
  "dial_socket net d target =
     (case bind_to_interface net (cfg_bound_interface_index (dl_config d)) of
        (Err e, log1) \<Rightarrow> (Err e, log1)
      | (Ok _, log1) \<Rightarrow>
      case set_socket_buffers net (cfg_socket_send_buffer_bytes (dl_config d))
             (cfg_socket_recv_buffer_bytes (dl_config d)) of
        (_, log2) \<Rightarrow>
      case nt_connect net target of
        None \<Rightarrow> (Err (Io (Fmt ''connecting to {}: {e}'' [TStr (dl_addr d)])), log1 @ log2 @ [Connect target])
      | Some tcp \<Rightarrow>
        ((case nt_tls_connect net (dl_connector d) (dl_server_name d) tcp of
            None \<Rightarrow> Err (Tls (Fmt ''handshake with {}: {e}'' [TStr (dl_addr d)]))
          | Some s \<Rightarrow> Ok s),
         log1 @ log2 @ [Connect target, Set_Nodelay, Handshake]))"

definition dialer_next_stream ::
    "net_env \<Rightarrow> dialer \<Rightarrow> (tls_stream, core_error) result \<times> sock_event list" where
  "dialer_next_stream net d =
     (case nt_lookup net (dl_addr d) of
        None \<Rightarrow> (Err (Io (Fmt ''resolving {}: {e}'' [TStr (dl_addr d)])), [])
      | Some [] \<Rightarrow> (Err (Io (Fmt ''{} resolved to no address'' [TStr (dl_addr d)])), [])
      | Some (target # _) \<Rightarrow>
        let v4 = is_ipv4 target in
        if \<not> nt_socket net v4 then (Err (Io (Fmt ''creating socket: {e}'' [])), [New_Socket v4])
        else case dial_socket net d target of (r, log) \<Rightarrow> (r, New_Socket v4 # log))"

record acceptor =
  ac_config :: server_config

definition acceptor_new ::
    "tls_env \<Rightarrow> net_env \<Rightarrow> host_identity \<Rightarrow> config \<Rightarrow> (acceptor, core_error) result \<times> sock_event list" where
  "acceptor_new te net identity config =
     (case set_socket_buffers net (cfg_socket_send_buffer_bytes config) (cfg_socket_recv_buffer_bytes config) of
        (_, log) \<Rightarrow>
      ((case identity_server_config te identity of Err e \<Rightarrow> Err e | Ok sc \<Rightarrow> Ok \<lparr>ac_config = sc\<rparr>), log))"

definition acceptor_next_stream ::
    "net_env \<Rightarrow> acceptor \<Rightarrow> (tls_stream, core_error) result \<times> sock_event list" where
  "acceptor_next_stream net a =
     (case nt_accept net of
        None \<Rightarrow> (Err (Io (Fmt ''accepting connection: {e}'' [])), [])
      | Some tcp \<Rightarrow>
        ((case nt_tls_accept net (ac_config a) tcp of
            None \<Rightarrow> Err (Tls (Fmt ''handshake: {e}'' []))
          | Some s \<Rightarrow> Ok s),
         [Accepted, Set_Nodelay, Handshake]))"

section \<open>Pinning\<close>

text \<open>
  What rustls documents of a client handshake with a custom verifier: it completes only if
  \<open>verify_server_cert\<close> of that verifier accepted the certificate the server presented.
\<close>

definition honours_verifier ::
    "(bytes \<Rightarrow> hash) \<Rightarrow> (client_config \<Rightarrow> string \<Rightarrow> tcp \<Rightarrow> tls_stream option) \<Rightarrow> bool" where
  "honours_verifier blake3 connect \<longleftrightarrow>
     (\<forall>cc name tcp s. connect cc name tcp = Some s \<longrightarrow>
        (\<exists>ints ocsp now. verify_server_cert blake3 (cc_verifier cc) (tls_peer s) ints name ocsp now = Ok ()))"

lemma verify_server_cert_Ok [simp]:
  "verify_server_cert blake3 v c ints name ocsp now = Ok () \<longleftrightarrow> blake3 c = pv_expected v"
  by (simp add: verify_server_cert_def)

lemma client_config_Ok:
  "client_config_new te pinned = Ok cc \<Longrightarrow> cc_versions cc = [TLS13] \<and> pv_expected (cc_verifier cc) = pinned"
  by (auto simp: client_config_new_def Let_def split: if_splits)

lemma dialer_new_Ok:
  assumes "dialer_new te addr pinned config = Ok d"
  shows "cc_versions (dl_connector d) = [TLS13]" "pv_expected (cc_verifier (dl_connector d)) = pinned"
    "dl_config d = config" "dl_addr d = addr"
  using assms by (auto simp: dialer_new_def client_config_Ok split: result.splits if_splits)

lemma dialed_stream:
  assumes "dialer_next_stream net d = (Ok s, log)"
  obtains tcp where "nt_tls_connect net (dl_connector d) (dl_server_name d) tcp = Some s"
  using assms by (auto simp: dialer_next_stream_def dial_socket_def Let_def
    split: option.splits list.splits result.splits if_splits prod.splits)

lemma dialed_peer:
  assumes "honours_verifier blake3 (nt_tls_connect net)" and "dialer_new te addr pinned config = Ok d"
    and "dialer_next_stream net d = (Ok s, log)"
  shows "blake3 (tls_peer s) = pinned"
proof -
  from assms(3) obtain tcp where "nt_tls_connect net (dl_connector d) (dl_server_name d) tcp = Some s"
    by (rule dialed_stream)
  with assms(1) have "blake3 (tls_peer s) = pv_expected (cc_verifier (dl_connector d))"
    unfolding honours_verifier_def verify_server_cert_Ok by blast
  with dialer_new_Ok(2) [OF assms(2)] show ?thesis by simp
qed

lemma host_identity_fingerprint:
  "host_identity_generate te blake3 = Ok identity \<Longrightarrow> hi_fingerprint identity = blake3 (hi_cert identity)"
  by (auto simp: host_identity_generate_def Let_def split: option.splits)

section \<open>Order of the socket calls\<close>






text \<open>
  A stream the dialer hands out ends at a server whose certificate hashes to the fingerprint
  the dialer was given, and the handshake offers TLS 1.3 only: \<open>Dialer::new\<close> and \<open>next_stream\<close>
  install \<open>PinnedCertVerifier\<close> with that fingerprint and nothing else.
\<close>

theorem dialed_peer_pinned:
  assumes "honours_verifier blake3 (nt_tls_connect net)" and "dialer_new te addr pinned config = Ok d"
    and "dialer_next_stream net d = (Ok s, log)"
  shows "blake3 (tls_peer s) = pinned \<and> cc_versions (dl_connector d) = [TLS13]"
  using dialed_peer [OF assms] dialer_new_Ok(1) [OF assms(2)] by blast

text \<open>A library and a network in which everything succeeds and the server presents one certificate.\<close>

definition plain_tls :: tls_env where
  "plain_tls = \<lparr>tl_self_signed = (\<lambda>_. Some ([7, 7], [1])), tl_private_key = Some, tl_versions = (\<lambda>_. True),
     tl_single_cert = (\<lambda>_ _. True), tl_server_name = (\<lambda>_. True), tl_verify_tls13 = (\<lambda>_ _ _. Ok ())\<rparr>"

definition plain_stream :: "bytes \<Rightarrow> tls_stream" where
  "plain_stream cert = \<lparr>tls_in = \<lparr>in_data = [], in_broken = False\<rparr>,
     tls_out = \<lparr>out_data = [], out_open = True\<rparr>, tls_peer = cert\<rparr>"

definition plain_net :: "(bytes \<Rightarrow> hash) \<Rightarrow> bytes \<Rightarrow> net_env" where
  "plain_net blake3 cert = \<lparr>nt_darwin = True, nt_lookup = (\<lambda>_. Some [V4 [10, 0, 0, 1] 52080]),
     nt_socket = (\<lambda>_. True), nt_setsockopt = (\<lambda>_ _. True), nt_getsockopt = (\<lambda>_. Some 0),
     nt_connect = (\<lambda>_. Some 0),
     nt_tls_connect = (\<lambda>cc name tcp.
        if verify_server_cert blake3 (cc_verifier cc) cert [] name [] 0 = Ok () then Some (plain_stream cert)
        else None),
     nt_accept = Some 0, nt_tls_accept = (\<lambda>_ _. Some (plain_stream []))\<rparr>"

definition plain_dialer :: "fingerprint \<Rightarrow> config \<Rightarrow> dialer" where
  "plain_dialer pinned config = \<lparr>dl_connector = \<lparr>cc_versions = [TLS13], cc_verifier = \<lparr>pv_expected = pinned\<rparr>,
     cc_client_auth = False\<rparr>, dl_server_name = SERVER_NAME, dl_addr = ''h:1'', dl_config = config\<rparr>"

lemma plain_net_honours: "honours_verifier blake3 (nt_tls_connect (plain_net blake3 cert))"
  by (auto simp: honours_verifier_def plain_net_def plain_stream_def split: if_splits)

lemma plain_dialer_new: "dialer_new plain_tls ''h:1'' pinned config = Ok (plain_dialer pinned config)"
  by (simp add: dialer_new_def client_config_new_def plain_tls_def plain_dialer_def)

lemma plain_dial:
  "cfg_bound_interface_index config = i \<Longrightarrow> i \<noteq> 0 \<Longrightarrow>
     cfg_socket_send_buffer_bytes config = 0 \<Longrightarrow> cfg_socket_recv_buffer_bytes config = 0 \<Longrightarrow>
     dialer_next_stream (plain_net blake3 cert) (plain_dialer (blake3 cert) config)
       = (Ok (plain_stream cert),
          [New_Socket True, Set_Opt IP_BOUND_IF i, Connect (V4 [10, 0, 0, 1] 52080), Set_Nodelay, Handshake])"
  by (simp add: dialer_next_stream_def dial_socket_def plain_net_def plain_dialer_def bind_to_interface_def
    bind_impl_darwin_def set_socket_buffers_def set_if_requested_def)

abbreviation pinned_config :: config where
  "pinned_config \<equiv> config_default\<lparr>cfg_bound_interface_index := 4\<rparr>"

lemma pinned_config_dial:
  "dialer_next_stream (plain_net blake3 cert) (plain_dialer (blake3 cert) pinned_config)
     = (Ok (plain_stream cert),
        [New_Socket True, Set_Opt IP_BOUND_IF 4, Connect (V4 [10, 0, 0, 1] 52080), Set_Nodelay, Handshake])"
  by (rule plain_dial) (simp_all add: config_default_def)

theorem dialed_peer_pinned_witness:
  "\<exists>net d s log. dialer_new plain_tls ''h:1'' [14] pinned_config = Ok d
     \<and> dialer_next_stream net d = (Ok s, log) \<and> (\<lambda>c. [sum_list c]) (tls_peer s) = [14]"
proof -
  let ?b = "\<lambda>c :: bytes. [sum_list c]"
  have "dialer_next_stream (plain_net ?b [7, 7]) (plain_dialer (?b [7, 7]) pinned_config)
      = (Ok (plain_stream [7, 7]),
         [New_Socket True, Set_Opt IP_BOUND_IF 4, Connect (V4 [10, 0, 0, 1] 52080), Set_Nodelay, Handshake])"
    by (rule pinned_config_dial)
  then have "dialer_next_stream (plain_net ?b [7, 7]) (plain_dialer [14] pinned_config)
      = (Ok (plain_stream [7, 7]),
         [New_Socket True, Set_Opt IP_BOUND_IF 4, Connect (V4 [10, 0, 0, 1] 52080), Set_Nodelay, Handshake])"
    by simp
  from dialed_peer_pinned [OF plain_net_honours plain_dialer_new this] this plain_dialer_new
  show ?thesis by blast
qed



end
