(* ===== verification/Progress.thy ===== *)
theory Progress
  imports Manifest
begin

text \<open>
  Progress reporting: \<open>aetherlink-core/src/progress.rs\<close>.  Events are what a sink is told.  The
  rate limiter is modelled twice: as one atomic call, which is what a single worker sees, and as the
  two atomic accesses that several workers may interleave.  The lemmas show that updates other than the
  last are at least the interval apart under every interleaving, that the first and the final update and
  every completion get through, and that an update is only dropped when another one got through.
\<close>

section \<open>Sinks\<close>

datatype event = Progress u64 u64 | FileCompleted u64 path

text \<open>\<open>NoProgress\<close>.\<close>

definition no_progress :: "event \<Rightarrow> event list \<Rightarrow> event list" where
  "no_progress e log = log"

section \<open>The rate limiter\<close>

definition NEVER :: u64 where "NEVER = - 1"
definition DEFAULT_INTERVAL :: u64 where "DEFAULT_INTERVAL = 100 * 1000"

record throttled =
  th_interval :: u64
  th_last_emit :: u64
  th_out :: "event list"

definition throttled_new :: "u64 \<Rightarrow> throttled" where
  "throttled_new interval = \<lparr>th_interval = interval, th_last_emit = NEVER, th_out = []\<rparr>"

definition is_final :: "u64 \<Rightarrow> u64 \<Rightarrow> bool" where
  "is_final bytes_done bytes_total \<longleftrightarrow> 0 < bytes_total \<and> bytes_total \<le> bytes_done"

definition too_soon :: "u64 \<Rightarrow> u64 \<Rightarrow> u64 \<Rightarrow> bool" where
  "too_soon interval now prev \<longleftrightarrow> prev \<noteq> NEVER \<and> saturating_sub now prev < interval"

text \<open>One call without interference: \<open>now\<close> is the clock in microseconds.\<close>

fun throttled_call :: "u64 \<times> event \<Rightarrow> throttled \<Rightarrow> throttled" where
  "throttled_call (now, Progress bytes_done bytes_total) t =
     (if is_final bytes_done bytes_total then t\<lparr>th_out := th_out t @ [Progress bytes_done bytes_total]\<rparr>
      else if too_soon (th_interval t) now (th_last_emit t) then t
      else t\<lparr>th_last_emit := now, th_out := th_out t @ [Progress bytes_done bytes_total]\<rparr>)"
| "throttled_call (now, FileCompleted file_id p) t = t\<lparr>th_out := th_out t @ [FileCompleted file_id p]\<rparr>"

section \<open>Concurrent callers\<close>

text \<open>
  A caller reads the clock, reads the shared time stamp, and then tries to swap it.  \<open>em_time\<close> is the
  clock of the caller whose swap succeeded.
\<close>

datatype caller =
    Entered u64 u64 u64
  | Loaded u64 u64 u64 u64
  | Emitted
  | Dropped

record emission =
  em_time :: u64
  em_done :: u64
  em_total :: u64
  em_final :: bool

record throttle_sys =
  ts_interval :: u64
  ts_last :: u64
  ts_callers :: "caller list"
  ts_log :: "emission list"

definition emit :: "throttle_sys \<Rightarrow> u64 \<Rightarrow> u64 \<Rightarrow> u64 \<Rightarrow> bool \<Rightarrow> emission list" where
  "emit s now d t final = ts_log s @ [\<lparr>em_time = now, em_done = d, em_total = t, em_final = final\<rparr>]"

definition caller_step :: "nat \<Rightarrow> throttle_sys \<Rightarrow> throttle_sys" where
  "caller_step i s =
     (if length (ts_callers s) \<le> i then s
      else case ts_callers s ! i of
        Entered now d t \<Rightarrow>
          if is_final d t
          then s\<lparr>ts_callers := (ts_callers s)[i := Emitted], ts_log := emit s now d t True\<rparr>
          else s\<lparr>ts_callers := (ts_callers s)[i := Loaded now d t (ts_last s)]\<rparr>
      | Loaded now d t prev \<Rightarrow>
          if too_soon (ts_interval s) now prev
          then s\<lparr>ts_callers := (ts_callers s)[i := Dropped]\<rparr>
          else if ts_last s \<noteq> prev
          then s\<lparr>ts_callers := (ts_callers s)[i := Dropped]\<rparr>
          else s\<lparr>ts_last := now, ts_callers := (ts_callers s)[i := Emitted], ts_log := emit s now d t False\<rparr>
      | _ \<Rightarrow> s)"

section \<open>Interface: a sink that keeps completions\<close>

text \<open>
  What the engine relies on when it reports through a sink: nothing is made up or reordered, and no
  completion is lost.
\<close>

fun is_completion :: "event \<Rightarrow> bool" where
  "is_completion (FileCompleted f p) = True"
| "is_completion (Progress d t) = False"

locale event_sink =
  fixes deliver :: "'c \<times> event \<Rightarrow> 's \<Rightarrow> 's" and out :: "'s \<Rightarrow> event list"
  assumes faithful: "out (deliver (c, e) s) = out s \<or> out (deliver (c, e) s) = out s @ [e]"
    and completion_kept: "is_completion e \<Longrightarrow> out (deliver (c, e) s) = out s @ [e]"
begin

lemma completions_kept:
  "filter is_completion (out (fold deliver ces s)) =
     filter is_completion (out s) @ filter is_completion (map snd ces)"
proof (induction ces arbitrary: s)
  case (Cons ce ces)
  obtain c e where ce: "ce = (c, e)" by (cases ce)
  have "filter is_completion (out (deliver (c, e) s)) =
      filter is_completion (out s) @ (if is_completion e then [e] else [])"
    using faithful [of c e s] completion_kept [of e c s] by auto
  with Cons ce show ?case by simp
qed simp

lemma nothing_invented: "set (out (fold deliver ces s)) \<subseteq> set (out s) \<union> snd ` set ces"
proof (induction ces arbitrary: s)
  case (Cons ce ces)
  obtain c e where ce: "ce = (c, e)" by (cases ce)
  have "set (out (deliver (c, e) s)) \<subseteq> set (out s) \<union> {e}"
    using faithful [of c e s] by auto
  with Cons [of "deliver ce s"] ce show ?case by auto
qed simp

end

interpretation throttled: event_sink throttled_call th_out
proof unfold_locales
  fix c e s
  show "th_out (throttled_call (c, e) s) = th_out s \<or> th_out (throttled_call (c, e) s) = th_out s @ [e]"
    by (cases e) auto
  show "is_completion e \<Longrightarrow> th_out (throttled_call (c, e) s) = th_out s @ [e]"
    by (cases e) auto
qed

section \<open>Lemmas on concurrent callers\<close>

definition rate_times :: "throttle_sys \<Rightarrow> u64 list" where
  "rate_times s = map em_time (filter (\<lambda>e. \<not> em_final e) (ts_log s))"

text \<open>Each time is at least the interval after the one before it.\<close>

fun spaced :: "nat \<Rightarrow> u64 list \<Rightarrow> bool" where
  "spaced n (a # b # ts) \<longleftrightarrow> unat a + n \<le> unat b \<and> spaced n (b # ts)"
| "spaced n ts \<longleftrightarrow> True"

lemma spaced_snoc: "ts \<noteq> [] \<Longrightarrow> spaced n (ts @ [b]) \<longleftrightarrow> spaced n ts \<and> unat (last ts) + n \<le> unat b"
  by (induction n ts rule: spaced.induct) auto

fun caller_ok :: "caller \<Rightarrow> bool" where
  "caller_ok (Entered now d t) \<longleftrightarrow> now \<noteq> NEVER"
| "caller_ok (Loaded now d t prev) \<longleftrightarrow> now \<noteq> NEVER \<and> \<not> is_final d t"
| "caller_ok _ \<longleftrightarrow> True"

definition throttle_inv :: "throttle_sys \<Rightarrow> bool" where
  "throttle_inv s \<longleftrightarrow> 0 < ts_interval s
     \<and> ts_last s = (if rate_times s = [] then NEVER else last (rate_times s))
     \<and> NEVER \<notin> set (rate_times s) \<and> spaced (unat (ts_interval s)) (rate_times s)
     \<and> (\<forall>c \<in> set (ts_callers s). caller_ok c)
     \<and> (Dropped \<in> set (ts_callers s) \<longrightarrow> rate_times s \<noteq> [])
     \<and> (\<forall>now d t l. Loaded now d t l \<in> set (ts_callers s) \<and> l \<noteq> NEVER \<longrightarrow> rate_times s \<noteq> [])"

lemma not_too_soon:
  assumes "\<not> too_soon interval now prev" and "prev \<noteq> NEVER" and "0 < interval"
  shows "unat prev + unat interval \<le> unat now"
proof -
  have "0 < unat interval" using assms(3) by (simp add: word_less_nat_alt)
  moreover have "unat interval \<le> unat now - unat prev"
    using assms(1,2) by (simp add: too_soon_def word_less_nat_alt geom_simps not_less)
  ultimately show ?thesis by linarith
qed

lemma set_update_cases: "x \<in> set (xs[i := y]) \<Longrightarrow> x = y \<or> x \<in> set xs"
  using set_update_subset_insert [of xs i y] by auto

lemma throttle_inv_update:
  assumes "throttle_inv s" and "caller_ok c" and "c = Dropped \<Longrightarrow> rate_times s \<noteq> []"
    and "\<And>now d t l. c = Loaded now d t l \<Longrightarrow> l \<noteq> NEVER \<Longrightarrow> rate_times s \<noteq> []"
  shows "throttle_inv (s\<lparr>ts_callers := (ts_callers s)[i := c]\<rparr>)"
  using assms
  by (auto simp: throttle_inv_def rate_times_def dest!: set_update_cases)

lemma rate_times_emit:
  "rate_times (s\<lparr>ts_callers := cs, ts_log := emit s now d t f\<rparr>) = rate_times s @ (if f then [] else [now])"
  "rate_times (s\<lparr>ts_last := l, ts_callers := cs, ts_log := emit s now d t f\<rparr>) =
     rate_times s @ (if f then [] else [now])"
  by (simp_all add: rate_times_def emit_def)

lemma caller_entered_inv:
  assumes inv: "throttle_inv s" and i: "i < length (ts_callers s)" and c: "ts_callers s ! i = Entered now d t"
  shows "throttle_inv (caller_step i s)"
proof (cases "is_final d t")
  case True
  have "throttle_inv (s\<lparr>ts_callers := (ts_callers s)[i := Emitted], ts_log := emit s now d t True\<rparr>)"
    using inv by (auto simp: throttle_inv_def rate_times_emit dest!: set_update_cases)
  with i c True show ?thesis by (simp add: caller_step_def)
next
  case False
  have "caller_ok (Entered now d t)" using inv nth_mem [OF i] unfolding c throttle_inv_def by metis
  then have "throttle_inv (s\<lparr>ts_callers := (ts_callers s)[i := Loaded now d t (ts_last s)]\<rparr>)"
    using inv False by (intro throttle_inv_update) (auto simp: throttle_inv_def)
  with i c False show ?thesis by (simp add: caller_step_def)
qed

lemma caller_loaded_inv:
  assumes inv: "throttle_inv s" and i: "i < length (ts_callers s)" and c: "ts_callers s ! i = Loaded now d t l"
  shows "throttle_inv (caller_step i s)"
proof -
  have mem: "Loaded now d t l \<in> set (ts_callers s)" using nth_mem [OF i] by (simp add: c)
  then have ok: "caller_ok (Loaded now d t l)" using inv unfolding throttle_inv_def by metis
  have drop: "throttle_inv (s\<lparr>ts_callers := (ts_callers s)[i := Dropped]\<rparr>)" if "rate_times s \<noteq> []"
    using inv that by (intro throttle_inv_update) auto
  consider (soon) "too_soon (ts_interval s) now l" | (lost) "\<not> too_soon (ts_interval s) now l" "ts_last s \<noteq> l"
    | (won) "\<not> too_soon (ts_interval s) now l" "ts_last s = l" by blast
  then show ?thesis
  proof cases
    case soon
    then have "l \<noteq> NEVER" by (simp add: too_soon_def)
    then have "rate_times s \<noteq> []" using inv mem by (auto simp: throttle_inv_def)
    from drop [OF this] i c soon show ?thesis by (simp add: caller_step_def)
  next
    case lost
    have "rate_times s \<noteq> []"
      using inv mem lost(2) by (cases "l = NEVER") (auto simp: throttle_inv_def split: if_splits)
    from drop [OF this] i c lost show ?thesis by (simp add: caller_step_def)
  next
    case won
    have "spaced (unat (ts_interval s)) (rate_times s @ [now])"
    proof (cases "rate_times s = []")
      case False
      then have l: "l = last (rate_times s)" using inv won(2) by (simp add: throttle_inv_def)
      have "l \<noteq> NEVER" using last_in_set [OF False] inv unfolding l throttle_inv_def by metis
      with not_too_soon [OF won(1)] l False inv show ?thesis
        by (simp add: spaced_snoc throttle_inv_def)
    qed simp
    then have "throttle_inv (s\<lparr>ts_last := now, ts_callers := (ts_callers s)[i := Emitted], ts_log := emit s now d t False\<rparr>)"
      using inv ok by (auto simp: throttle_inv_def rate_times_emit dest!: set_update_cases)
    with i c won show ?thesis by (simp add: caller_step_def)
  qed
qed

lemma caller_step_inv:
  assumes "throttle_inv s"
  shows "throttle_inv (caller_step i s)"
proof (cases "i < length (ts_callers s)")
  case True
  with caller_entered_inv [OF assms True] caller_loaded_inv [OF assms True] assms show ?thesis
    by (cases "ts_callers s ! i") (simp_all add: caller_step_def)
qed (use assms in \<open>simp add: caller_step_def\<close>)

interpretation throttle: invariant_system caller_step throttle_inv
  by unfold_locales (rule caller_step_inv)

definition callers_start :: "u64 \<Rightarrow> (u64 \<times> u64 \<times> u64) list \<Rightarrow> throttle_sys" where
  "callers_start interval calls = \<lparr>ts_interval = interval, ts_last = NEVER,
     ts_callers = map (\<lambda>(now, d, t). Entered now d t) calls, ts_log = []\<rparr>"

lemma callers_start_inv:
  "0 < interval \<Longrightarrow> (\<And>now d t. (now, d, t) \<in> set calls \<Longrightarrow> now \<noteq> NEVER) \<Longrightarrow>
   throttle_inv (callers_start interval calls)"
  by (auto simp: throttle_inv_def callers_start_def rate_times_def)

section \<open>Properties\<close>

text \<open>
  C38: the rate limit holds under every interleaving of concurrent workers: the updates that are not
  final are emitted at clock times that are at least the interval apart, and whenever an update was
  dropped some such update has been emitted, so the first one always gets through.
\<close>

theorem throttle_rate:
  assumes "0 < interval" and "\<And>now d t. (now, d, t) \<in> set calls \<Longrightarrow> now \<noteq> NEVER"
  shows "spaced (unat interval) (rate_times (fold caller_step sched (callers_start interval calls)))
     \<and> (Dropped \<in> set (ts_callers (fold caller_step sched (callers_start interval calls))) \<longrightarrow>
          rate_times (fold caller_step sched (callers_start interval calls)) \<noteq> [])"
proof -
  let ?s = "fold caller_step sched (callers_start interval calls)"
  have "throttle_inv ?s" by (rule throttle.inv_run [OF callers_start_inv [OF assms]])
  moreover have "ts_interval (caller_step i s) = ts_interval s" for i s
    by (auto simp: caller_step_def split: caller.splits)
  then have "ts_interval (fold caller_step sched s) = ts_interval s" for s
    by (induction sched arbitrary: s) auto
  then have "ts_interval ?s = interval" by (simp add: callers_start_def)
  ultimately show ?thesis by (auto simp: throttle_inv_def)
qed

theorem throttle_rate_witness:
  "rate_times (fold caller_step [0, 1, 1, 0, 2, 2] (callers_start 100 [(0, 1, 9), (5, 2, 9), (105, 3, 9)])) = [5, 105]
   \<and> spaced 100 [5, 105]"
proof -
  have "rate_times (fold caller_step [0, 1, 1, 0, 2, 2] (callers_start 100 [(0, 1, 9), (5, 2, 9), (105, 3, 9)])) = [5, 105]"
    by code_simp
  moreover have "spaced (unat (100 :: u64)) (rate_times (fold caller_step [0, 1, 1, 0, 2, 2]
      (callers_start 100 [(0, 1, 9), (5, 2, 9), (105, 3, 9)])))"
    by (rule throttle_rate [THEN conjunct1]) (auto simp: NEVER_def)
  ultimately show ?thesis by simp
qed

text \<open>
  Through the rate limiter, every completion event arrives, in order; every final update arrives,
  whatever the time; nothing arrives that was not reported.
\<close>

theorem throttle_keeps_completions:
  "filter is_completion (th_out (fold throttled_call ces (throttled_new interval))) =
     filter is_completion (map snd ces)
   \<and> set (th_out (fold throttled_call ces (throttled_new interval))) \<subseteq> snd ` set ces
   \<and> (is_final d t \<longrightarrow> last (th_out (fold throttled_call (ces @ [(now, Progress d t)]) (throttled_new interval))) =
        Progress d t)"
  using throttled.completions_kept [of ces "throttled_new interval"]
    throttled.nothing_invented [of ces "throttled_new interval"]
  by (simp add: throttled_new_def)

theorem throttle_keeps_completions_witness:
  "last (th_out (fold throttled_call [(0, Progress 1 9), (1, Progress 2 9), (2, Progress 9 9)] (throttled_new 100))) =
     Progress 9 9"
  using throttle_keeps_completions [of "[(0, Progress 1 9), (1, Progress 2 9)]" 100 9 9 2]
  by (simp add: is_final_def)

end
