(* ===== verification/Sender.thy ===== *)
theory Sender
  imports Engine Progress "HOL-Library.Multiset" "HOL-Library.Sublist"
begin

text \<open>
  The sending end: \<open>aetherlink-core/src/send.rs\<close>.  The shared state of a session is the work queue,
  one read cursor per file, the byte counter, the progress events and the byte ranges whose pages were
  released.  A stream worker is a state machine whose steps are the pieces of the spawned task between
  two points where other workers can run; an action of the schedule is a step of a worker or the loss of
  its connection.  The lemmas show that every queued chunk goes out whole on exactly one stream,
  whatever the schedule, that pages are released only behind every reader, and that the workers end.
\<close>

section \<open>Data\<close>

record outgoing_file =
  of_path :: path
  of_relative_path :: string
  of_mime_type :: string

record read_cursor =
  rc_in_flight :: "u64 set"
  rc_next_dispatch :: u64
  rc_released_to :: u64

record work_item =
  wi_file_index :: nat
  wi_chunk_index :: u64

section \<open>Read cursors\<close>

definition cursor_default :: read_cursor where
  "cursor_default = \<lparr>rc_in_flight = {}, rc_next_dispatch = 0, rc_released_to = 0\<rparr>"

definition cursor_begin :: "read_cursor \<Rightarrow> u64 \<Rightarrow> read_cursor" where
  "cursor_begin c index =
     c\<lparr>rc_in_flight := insert index (rc_in_flight c),
       rc_next_dispatch := max (rc_next_dispatch c) (index + 1)\<rparr>"

text \<open>\<open>BTreeSet::first\<close>.\<close>

definition first_in_flight :: "u64 set \<Rightarrow> u64 option" where
  "first_in_flight s = (if s = {} then None else Some (Min s))"

definition cursor_finish ::
    "read_cursor \<Rightarrow> u64 \<Rightarrow> u64 \<Rightarrow> u64 \<Rightarrow> u64 \<Rightarrow> (u64 \<times> u64) option \<times> read_cursor" where
  "cursor_finish c index batch chunk_size file_size =
     (let c1 = c\<lparr>rc_in_flight := rc_in_flight c - {index}\<rparr>;
          boundary_chunk = (case first_in_flight (rc_in_flight c1) of
                              Some i \<Rightarrow> i
                            | None \<Rightarrow> rc_next_dispatch c1);
          boundary = min (saturating_mul boundary_chunk chunk_size) file_size
      in if saturating_sub boundary (rc_released_to c1) < batch then (None, c1)
         else (Some (rc_released_to c1, boundary), c1\<lparr>rc_released_to := boundary\<rparr>))"

section \<open>The offer\<close>

text \<open>\<open>rand_bytes\<close>: the clock in nanoseconds and the address of a local are arguments.\<close>

definition rand_bytes :: "(bytes \<Rightarrow> hash) \<Rightarrow> 128 word \<Rightarrow> u64 \<Rightarrow> bytes" where
  "rand_bytes blake3 now_nanos addr = take 16 (blake3 (to_le_bytes now_nanos @ to_le_bytes addr))"

definition make_entry ::
    "(bytes \<Rightarrow> hash) \<Rightarrow> nat \<Rightarrow> outgoing_file \<Rightarrow> source_file \<Rightarrow> hash list \<Rightarrow> file_entry" where
  "make_entry blake3 i f src hashes =
     \<lparr>fe_file_id = of_nat i, fe_relative_path = of_relative_path f, fe_size_bytes = source_size src,
      fe_mime_type = of_mime_type f, fe_root_hash = root_from_chunk_hashes blake3 hashes,
      fe_chunk_hashes = concat hashes, fe_modified_unix_ms = 0, fe_created_unix_ms = 0\<rparr>"

fun open_sources ::
    "os_env \<Rightarrow> (bytes \<Rightarrow> hash) \<Rightarrow> config \<Rightarrow> fs \<Rightarrow> nat \<Rightarrow> outgoing_file list
     \<Rightarrow> (source_file list \<times> file_entry list, core_error) result" where
  "open_sources os blake3 config fs i [] = Ok ([], [])"
| "open_sources os blake3 config fs i (f # rest) =
     (case source_open os fs (of_path f) (cfg_chunk_size config) of
        Err e \<Rightarrow> Err e
      | Ok src \<Rightarrow>
      case chunk_hashes blake3 src (cfg_release_read_pages config) of
        Err e \<Rightarrow> Err e
      | Ok (hashes, released) \<Rightarrow>
      case open_sources os blake3 config fs (Suc i) rest of
        Err e \<Rightarrow> Err e
      | Ok (srcs, entries) \<Rightarrow> Ok (src # srcs, make_entry blake3 i f src hashes # entries))"

section \<open>The work queue\<close>

fun queue_chunks ::
    "chunk_layout \<Rightarrow> nat \<Rightarrow> work_item list \<times> u64 \<Rightarrow> u64 list \<Rightarrow> (work_item list \<times> u64, core_error) result" where
  "queue_chunks layout file_index acc [] = Ok acc"
| "queue_chunks layout file_index (queue, bytes_to_send) (chunk_index # rest) =
     (case layout_range layout chunk_index of
        Err e \<Rightarrow> Err (Wire e)
      | Ok (off, len) \<Rightarrow>
          queue_chunks layout file_index
            (queue @ [\<lparr>wi_file_index = file_index, wi_chunk_index = chunk_index\<rparr>], bytes_to_send + ucast len) rest)"

definition peer_bitmap :: "manifest_accept \<Rightarrow> file_entry \<Rightarrow> chunk_layout \<Rightarrow> (chunk_bitmap, core_error) result" where
  "peer_bitmap accept entry layout =
     (case find (\<lambda>p. fp_file_id p = fe_file_id entry) (ma_progress accept) of
        Some p \<Rightarrow> lift_wire (bitmap_from_bytes (fp_have_bitmap p) (cl_count layout))
      | None \<Rightarrow> Ok (bitmap_new (cl_count layout)))"

fun build_queue ::
    "manifest_accept \<Rightarrow> source_file list \<Rightarrow> nat \<Rightarrow> file_entry list \<Rightarrow> work_item list \<times> u64
     \<Rightarrow> (work_item list \<times> u64, core_error) result" where
  "build_queue accept srcs file_index [] acc = Ok acc"
| "build_queue accept srcs file_index (entry # rest) acc =
     (if fe_file_id entry \<notin> set (ma_accepted_file_ids accept)
      then build_queue accept srcs (Suc file_index) rest acc
      else let layout = sf_layout (srcs ! file_index) in
      case peer_bitmap accept entry layout of
        Err e \<Rightarrow> Err e
      | Ok have \<Rightarrow>
      case queue_chunks layout file_index acc (concat (map index_range (missing_ranges have))) of
        Err e \<Rightarrow> Err e
      | Ok acc' \<Rightarrow> build_queue accept srcs (Suc file_index) rest acc')"

section \<open>Stream workers\<close>

record send_env =
  sv_sources :: "source_file list"
  sv_frame_size :: u32
  sv_release_pages :: bool
  sv_to_send :: u64

record send_shared =
  se_queue :: "work_item list"
  se_cursors :: "read_cursor list"
  se_sent :: u64
  se_events :: "event list"
  se_released :: "(nat \<times> u64 \<times> u64) list"

text \<open>
  The phases of a worker: taking an item under the queue lock, reading its chunk, writing its frames,
  finishing its cursor entry, counting and reporting, closing the stream.  \<open>Writing\<close> holds the
  chunk's offset and length, the number of frames written and the parts still to be written.
\<close>

datatype send_phase =
    Taking
  | Starting work_item
  | Writing work_item u64 u32 nat "bytes list"
  | Releasing work_item u32
  | Reporting u32
  | Closing
  | Ended "(unit, core_error) result"

record send_worker =
  sw_out :: out_stream
  sw_header :: bytes
  sw_phase :: send_phase

definition worker_new :: "out_stream \<Rightarrow> send_worker" where
  "worker_new w = \<lparr>sw_out = w, sw_header = replicate HEADER_LEN 0, sw_phase = Taking\<rparr>"

definition send_panicked :: core_error where
  "send_panicked = Io (Fmt ''stream worker panicked: {e}'' [])"

definition do_take :: "send_env \<Rightarrow> send_shared \<Rightarrow> send_phase \<times> send_shared" where
  "do_take env sh =
     (case se_queue sh of
        [] \<Rightarrow> (Closing, sh)
      | item # rest \<Rightarrow>
      let sh1 = sh\<lparr>se_queue := rest\<rparr>; f = wi_file_index item in
      if \<not> sv_release_pages env then (Starting item, sh1)
      else if length (se_cursors sh) \<le> f then (Ended (Err send_panicked), sh1)
      else (Starting item,
            sh1\<lparr>se_cursors := (se_cursors sh)[f := cursor_begin (se_cursors sh ! f) (wi_chunk_index item)]\<rparr>))"

definition do_start :: "send_env \<Rightarrow> work_item \<Rightarrow> send_phase" where
  "do_start env item =
     (if length (sv_sources env) \<le> wi_file_index item then Ended (Err send_panicked)
      else let src = sv_sources env ! wi_file_index item in
      case layout_range (sf_layout src) (wi_chunk_index item) of
        Err e \<Rightarrow> Ended (Err (Wire e))
      | Ok (chunk_offset, clen) \<Rightarrow>
      case source_chunk src (wi_chunk_index item) of
        Err e \<Rightarrow> Ended (Err e)
      | Ok payload \<Rightarrow>
      if sv_frame_size env = 0 then Ended (Err send_panicked)
      else Writing item chunk_offset clen 0 (chunks (unat (sv_frame_size env)) payload))"

definition data_header :: "send_env \<Rightarrow> work_item \<Rightarrow> u64 \<Rightarrow> nat \<Rightarrow> bytes \<Rightarrow> frame_header" where
  "data_header env item chunk_offset n part =
     frame_new FileData (of_nat (wi_file_index item))
       (chunk_offset + of_nat n * ucast (sv_frame_size env)) (of_nat (length part))"

definition do_write ::
    "send_env \<Rightarrow> send_worker \<Rightarrow> work_item \<Rightarrow> u64 \<Rightarrow> u32 \<Rightarrow> nat \<Rightarrow> bytes list \<Rightarrow> send_worker" where
  "do_write env w item chunk_offset clen n parts =
     (case parts of
        [] \<Rightarrow> w\<lparr>sw_phase := if sv_release_pages env then Releasing item clen else Reporting clen\<rparr>
      | part # rest \<Rightarrow>
      let header_buf = encode (data_header env item chunk_offset n part) (sw_header w) in
      case write_all (sw_out w) header_buf of
        Err e \<Rightarrow> w\<lparr>sw_header := header_buf, sw_phase := Ended (Err io_error)\<rparr>
      | Ok o1 \<Rightarrow>
      case write_all o1 part of
        Err e \<Rightarrow> w\<lparr>sw_out := o1, sw_header := header_buf, sw_phase := Ended (Err io_error)\<rparr>
      | Ok o2 \<Rightarrow>
          w\<lparr>sw_out := o2, sw_header := header_buf,
            sw_phase := Writing item chunk_offset clen (Suc n) rest\<rparr>)"

definition do_release :: "send_env \<Rightarrow> send_shared \<Rightarrow> work_item \<Rightarrow> send_shared" where
  "do_release env sh item =
     (let f = wi_file_index item; src = sv_sources env ! f;
          chunk_size = ucast (cl_chunk_size (sf_layout src)) in
      case cursor_finish (se_cursors sh ! f) (wi_chunk_index item) (max RELEASE_BATCH_BYTES chunk_size)
             chunk_size (source_size src) of
        (None, c) \<Rightarrow> sh\<lparr>se_cursors := (se_cursors sh)[f := c]\<rparr>
      | (Some (start, fin), c) \<Rightarrow>
          sh\<lparr>se_cursors := (se_cursors sh)[f := c], se_released := se_released sh @ [(f, start, fin)]\<rparr>)"

definition do_report :: "send_env \<Rightarrow> send_shared \<Rightarrow> u32 \<Rightarrow> send_shared" where
  "do_report env sh clen =
     (let sent = se_sent sh + ucast clen in
      sh\<lparr>se_sent := sent, se_events := se_events sh @ [Progress sent (sv_to_send env)]\<rparr>)"

text \<open>Flush and shutdown fail on a lost connection; the drain that follows ignores its result.\<close>

definition do_close :: "send_worker \<Rightarrow> send_worker" where
  "do_close w =
     (if out_open (sw_out w) then w\<lparr>sw_out := (sw_out w)\<lparr>out_open := False\<rparr>, sw_phase := Ended (Ok ())\<rparr>
      else w\<lparr>sw_phase := Ended (Err io_error)\<rparr>)"

definition send_step :: "send_env \<Rightarrow> send_worker \<Rightarrow> send_shared \<Rightarrow> send_worker \<times> send_shared" where
  "send_step env w sh =
     (case sw_phase w of
        Taking \<Rightarrow> (case do_take env sh of (p, sh') \<Rightarrow> (w\<lparr>sw_phase := p\<rparr>, sh'))
      | Starting item \<Rightarrow> (w\<lparr>sw_phase := do_start env item\<rparr>, sh)
      | Writing item off len n parts \<Rightarrow> (do_write env w item off len n parts, sh)
      | Releasing item len \<Rightarrow> (w\<lparr>sw_phase := Reporting len\<rparr>, do_release env sh item)
      | Reporting len \<Rightarrow> (w\<lparr>sw_phase := Taking\<rparr>, do_report env sh len)
      | Closing \<Rightarrow> (do_close w, sh)
      | Ended r \<Rightarrow> (w, sh))"

datatype send_action = Go nat | Cut nat

record send_sys =
  snd_shared :: send_shared
  snd_workers :: "send_worker list"

definition send_act :: "send_env \<Rightarrow> send_action \<Rightarrow> send_sys \<Rightarrow> send_sys" where
  "send_act env a sys =
     (case a of
        Go i \<Rightarrow>
          if i < length (snd_workers sys)
          then (case send_step env (snd_workers sys ! i) (snd_shared sys) of
                  (w, sh) \<Rightarrow> \<lparr>snd_shared = sh, snd_workers = (snd_workers sys)[i := w]\<rparr>)
          else sys
      | Cut i \<Rightarrow>
          if i < length (snd_workers sys)
          then sys\<lparr>snd_workers := (snd_workers sys)[i := (snd_workers sys ! i)
                 \<lparr>sw_out := (sw_out (snd_workers sys ! i))\<lparr>out_open := False\<rparr>\<rparr>]\<rparr>
          else sys)"

definition send_schedule :: "send_env \<Rightarrow> send_action list \<Rightarrow> send_sys \<Rightarrow> send_sys" where
  "send_schedule env as sys = fold (send_act env) as sys"

definition send_start :: "nat \<Rightarrow> work_item list \<Rightarrow> out_stream list \<Rightarrow> send_sys" where
  "send_start n queue streams =
     \<lparr>snd_shared = \<lparr>se_queue = queue, se_cursors = replicate n cursor_default, se_sent = 0, se_events = [],
        se_released = []\<rparr>,
      snd_workers = map worker_new streams\<rparr>"

section \<open>The session\<close>

definition hello_message :: "bytes \<Rightarrow> u32 \<Rightarrow> control_message" where
  "hello_message sid n =
     control_message_new (Hello \<lparr>he_protocol_version = ucast PROTOCOL_VERSION, he_session_id = sid, he_stream_count = n\<rparr>)"

fun open_data_streams ::
    "(control_message \<Rightarrow> bytes) \<Rightarrow> bytes \<Rightarrow> (nat \<Rightarrow> (out_stream, core_error) result) \<Rightarrow> nat list
     \<Rightarrow> (out_stream list, core_error) result" where
  "open_data_streams enc sid next_stream [] = Ok []"
| "open_data_streams enc sid next_stream (k # ks) =
     (case next_stream k of
        Err e \<Rightarrow> Err e
      | Ok stream \<Rightarrow>
      case write_control enc stream (hello_message sid (of_nat k)) of
        Err e \<Rightarrow> Err e
      | Ok stream' \<Rightarrow>
      case open_data_streams enc sid next_stream ks of
        Err e \<Rightarrow> Err e
      | Ok ss \<Rightarrow> Ok (stream' # ss))"

fun await_workers :: "send_worker list \<Rightarrow> (unit, core_error) result option" where
  "await_workers [] = Some (Ok ())"
| "await_workers (w # ws) =
     (case sw_phase w of
        Ended (Ok _) \<Rightarrow> await_workers ws
      | Ended (Err e) \<Rightarrow> Some (Err e)
      | _ \<Rightarrow> None)"

definition send_handshake ::
    "os_env \<Rightarrow> (bytes \<Rightarrow> hash) \<Rightarrow> (control_message \<Rightarrow> bytes) \<Rightarrow> (bytes \<Rightarrow> control_message option) \<Rightarrow> config \<Rightarrow> fs
     \<Rightarrow> outgoing_file list \<Rightarrow> bytes \<Rightarrow> in_stream \<Rightarrow> out_stream
     \<Rightarrow> (source_file list \<times> work_item list \<times> u64 \<times> in_stream, core_error) result \<times> out_stream" where
  "send_handshake os blake3 enc dec config fs files sid cin cout =
     (case open_sources os blake3 config fs 0 files of
        Err e \<Rightarrow> (Err e, cout)
      | Ok (srcs, entries) \<Rightarrow>
      case write_control enc cout (hello_message sid (ucast (cfg_stream_count config))) of
        Err e \<Rightarrow> (Err e, cout)
      | Ok cout1 \<Rightarrow>
      case write_control enc cout1 (control_message_new (Offer
             \<lparr>mo_chunk_size = cfg_chunk_size config, mo_files = entries\<rparr>)) of
        Err e \<Rightarrow> (Err e, cout1)
      | Ok cout2 \<Rightarrow>
      (case read_control dec cin of
         Err e \<Rightarrow> (Err e, cout2)
       | Ok (Accept accept, cin1) \<Rightarrow>
           (case build_queue accept srcs 0 entries ([], 0) of
              Err e \<Rightarrow> (Err e, cout2)
            | Ok (queue, bytes_to_send) \<Rightarrow> (Ok (srcs, queue, bytes_to_send, cin1), cout2))
       | Ok (Abort a, cin1) \<Rightarrow> (Err (PeerAborted (ab_reason a)), cout2)
       | Ok (_, cin1) \<Rightarrow> (Err (Protocol (Fmt ''expected Accept, got {other:?}'' [])), cout2)))"

definition send_finish :: "(bytes \<Rightarrow> control_message option) \<Rightarrow> u64 \<Rightarrow> in_stream \<Rightarrow> (u64, core_error) result" where
  "send_finish dec bytes_to_send cin =
     (case read_control dec cin of
        Err e \<Rightarrow> Err e
      | Ok (Complete c, _) \<Rightarrow> Ok (max (tc_bytes_written c) bytes_to_send)
      | Ok (Abort a, _) \<Rightarrow> Err (PeerAborted (ab_reason a))
      | Ok (_, _) \<Rightarrow> Err (Protocol (Fmt ''expected Complete, got {other:?}'' [])))"

text \<open>
  The session as a function of the schedule of its data phase: its result, what it wrote on the control
  stream and on the data streams.  \<open>None\<close> is a session that has not ended.
\<close>

definition send_run ::
    "os_env \<Rightarrow> (bytes \<Rightarrow> hash) \<Rightarrow> (control_message \<Rightarrow> bytes) \<Rightarrow> (bytes \<Rightarrow> control_message option) \<Rightarrow> config \<Rightarrow> fs
     \<Rightarrow> outgoing_file list \<Rightarrow> bytes \<Rightarrow> in_stream \<Rightarrow> out_stream \<Rightarrow> (nat \<Rightarrow> (out_stream, core_error) result)
     \<Rightarrow> send_action list \<Rightarrow> ((u64, core_error) result \<times> out_stream \<times> out_stream list) option" where
  "send_run os blake3 enc dec config fs files sid cin cout next_stream sched =
     (case send_handshake os blake3 enc dec config fs files sid cin cout of
        (Err e, cout1) \<Rightarrow> Some (Err e, cout1, [])
      | (Ok (srcs, queue, bytes_to_send, cin1), cout1) \<Rightarrow>
      case open_data_streams enc sid next_stream [1..<Suc (unat (cfg_stream_count config))] of
        Err e \<Rightarrow> Some (Err e, cout1, [])
      | Ok streams \<Rightarrow>
      let env = \<lparr>sv_sources = srcs, sv_frame_size = cfg_frame_size config,
                 sv_release_pages = cfg_release_read_pages config, sv_to_send = bytes_to_send\<rparr>;
          sys = send_schedule env sched (send_start (length srcs) queue streams);
          outs = map sw_out (snd_workers sys) in
      case await_workers (snd_workers sys) of
        None \<Rightarrow> None
      | Some (Err e) \<Rightarrow> Some (Err e, cout1, outs)
      | Some (Ok _) \<Rightarrow> Some (send_finish dec bytes_to_send cin1, cout1, outs))"

section \<open>What goes over a stream\<close>

text \<open>Specification: the bytes of one chunk on the wire, as frames in order.\<close>

definition item_source :: "send_env \<Rightarrow> work_item \<Rightarrow> source_file" where
  "item_source env item = sv_sources env ! wi_file_index item"

definition item_payload :: "send_env \<Rightarrow> work_item \<Rightarrow> bytes" where
  "item_payload env item =
     chunk_of (sf_layout (item_source env item)) (sf_map (item_source env item)) (unat (wi_chunk_index item))"

definition item_offset :: "send_env \<Rightarrow> work_item \<Rightarrow> u64" where
  "item_offset env item = of_nat (chunk_start (sf_layout (item_source env item)) (unat (wi_chunk_index item)))"

definition item_parts :: "send_env \<Rightarrow> work_item \<Rightarrow> bytes list" where
  "item_parts env item = chunks (unat (sv_frame_size env)) (item_payload env item)"

fun frames_from :: "send_env \<Rightarrow> work_item \<Rightarrow> nat \<Rightarrow> bytes list \<Rightarrow> bytes" where
  "frames_from env item n [] = []"
| "frames_from env item n (p # ps) =
     to_bytes (data_header env item (item_offset env item) n p) @ p @ frames_from env item (Suc n) ps"

definition item_bytes :: "send_env \<Rightarrow> work_item \<Rightarrow> bytes" where
  "item_bytes env item = frames_from env item 0 (item_parts env item)"

definition items_bytes :: "send_env \<Rightarrow> work_item list \<Rightarrow> bytes" where
  "items_bytes env items = concat (map (item_bytes env) items)"

definition item_ok :: "send_env \<Rightarrow> work_item \<Rightarrow> bool" where
  "item_ok env item \<longleftrightarrow> wi_file_index item < length (sv_sources env) \<and> source_ok (item_source env item)
     \<and> unat (wi_chunk_index item) < ccount (sf_layout (item_source env item))"

lemma frames_from_append:
  "frames_from env item n (ps @ qs) = frames_from env item n ps @ frames_from env item (n + length ps) qs"
  by (induction ps arbitrary: n) auto

lemma items_bytes_simps [simp]:
  "items_bytes env [] = []"
  "items_bytes env (xs @ ys) = items_bytes env xs @ items_bytes env ys"
  "items_bytes env (x # xs) = item_bytes env x @ items_bytes env xs"
  by (simp_all add: items_bytes_def)

lemma items_bytes_last: "ts \<noteq> [] \<Longrightarrow> items_bytes env ts = items_bytes env (butlast ts) @ item_bytes env (last ts)"
  by (metis append_butlast_last_id items_bytes_simps(1,2,3) append_Nil2)

lemma encode_any: "length out = HEADER_LEN \<Longrightarrow> encode h out = to_bytes h"
  by (simp add: encode_layout to_bytes_layout)

lemma item_start:
  assumes "item_ok env item"
  obtains len where "layout_range (sf_layout (item_source env item)) (wi_chunk_index item) = Ok (item_offset env item, len)"
    and "unat len = length (item_payload env item)"
    and "source_chunk (item_source env item) (wi_chunk_index item) = Ok (item_payload env item)"
proof -
  let ?src = "item_source env item"
  have ok: "source_ok ?src" "unat (wi_chunk_index item) < ccount (sf_layout ?src)"
    using assms by (simp_all add: item_ok_def)
  then obtain off len where r: "layout_range (sf_layout ?src) (wi_chunk_index item) = Ok (off, len)"
    and o: "unat off = chunk_start (sf_layout ?src) (unat (wi_chunk_index item))"
    and l: "unat len = chunk_len (sf_layout ?src) (unat (wi_chunk_index item))"
    using layout_range_exists by (metis source_ok_def)
  have "off = item_offset env item" by (simp add: item_offset_def flip: o)
  moreover have "unat len = length (item_payload env item)"
    using ok l by (simp add: item_payload_def source_ok_def length_chunk_of)
  moreover have "source_chunk ?src (wi_chunk_index item) = Ok (item_payload env item)"
    using source_chunk_Ok [OF ok] by (simp add: item_payload_def)
  ultimately show thesis using r by (blast intro: that)
qed

section \<open>Invariant of the streams\<close>

text \<open>
  What a stream carries when its worker has taken the items \<open>ts\<close>: every item but the one in hand is
  complete, and the one in hand is complete up to the frames still to be written.
\<close>

definition phase_ok :: "send_env \<Rightarrow> bytes \<Rightarrow> work_item list \<Rightarrow> out_stream \<Rightarrow> send_phase \<Rightarrow> bool" where
  "phase_ok env base ts out p \<longleftrightarrow>
     (case p of
        Starting item \<Rightarrow> ts \<noteq> [] \<and> last ts = item \<and> out_data out = base @ items_bytes env (butlast ts)
      | Writing item off len n parts \<Rightarrow>
          ts \<noteq> [] \<and> last ts = item \<and> off = item_offset env item \<and> unat len = length (item_payload env item)
          \<and> (\<exists>pre. item_parts env item = pre @ parts \<and> length pre = n
               \<and> out_data out = base @ items_bytes env (butlast ts) @ frames_from env item 0 pre)
      | Releasing item len \<Rightarrow> ts \<noteq> [] \<and> last ts = item \<and> out_data out = base @ items_bytes env ts
      | Ended (Err e) \<Rightarrow> \<not> out_open out \<and> (\<exists>k. out_data out = base @ take k (items_bytes env ts))
      | _ \<Rightarrow> out_data out = base @ items_bytes env ts)"

definition send_worker_ok :: "send_env \<Rightarrow> bytes \<Rightarrow> work_item list \<Rightarrow> send_worker \<Rightarrow> bool" where
  "send_worker_ok env base ts w \<longleftrightarrow>
     length (sw_header w) = HEADER_LEN \<and> phase_ok env base ts (sw_out w) (sw_phase w)"

fun wound_up :: "send_phase \<Rightarrow> bool" where
  "wound_up Closing \<longleftrightarrow> True"
| "wound_up (Ended (Ok _)) \<longleftrightarrow> True"
| "wound_up _ \<longleftrightarrow> False"

lemma do_start_ok:
  assumes "item_ok env item" and "0 < sv_frame_size env"
  obtains len where "do_start env item = Writing item (item_offset env item) len 0 (item_parts env item)"
    and "unat len = length (item_payload env item)"
proof -
  obtain len where "layout_range (sf_layout (item_source env item)) (wi_chunk_index item) = Ok (item_offset env item, len)"
    and "unat len = length (item_payload env item)"
    and "source_chunk (item_source env item) (wi_chunk_index item) = Ok (item_payload env item)"
    using item_start [OF assms(1)] by blast
  moreover have "wi_file_index item < length (sv_sources env)" using assms(1) by (simp add: item_ok_def)
  moreover have "sv_frame_size env \<noteq> 0" using assms(2) by auto
  ultimately show thesis
    using that by (simp add: do_start_def item_source_def item_parts_def Let_def)
qed

lemma write_all_cases:
  "write_all w bs = (if out_open w then Ok (w\<lparr>out_data := out_data w @ bs\<rparr>) else Err OtherIo)"
  by (simp add: write_all_def)

lemma do_write_ok:
  assumes "send_worker_ok env base ts w" and "sw_phase w = Writing item off len n parts"
  shows "send_worker_ok env base ts (do_write env w item off len n parts)"
proof -
  let ?frame = "to_bytes (data_header env item (item_offset env item) n (hd parts)) @ hd parts"
  obtain pre where h: "length (sw_header w) = HEADER_LEN" "ts \<noteq> []" "last ts = item" "off = item_offset env item"
      "unat len = length (item_payload env item)"
    and pre: "item_parts env item = pre @ parts" "length pre = n"
      "out_data (sw_out w) = base @ items_bytes env (butlast ts) @ frames_from env item 0 pre"
    using assms by (auto simp: send_worker_ok_def phase_ok_def)
  have whole: "items_bytes env ts = items_bytes env (butlast ts) @ frames_from env item 0 (pre @ parts)"
    using items_bytes_last [OF h(2)] h(3) pre(1) by (simp add: item_bytes_def)
  show ?thesis
  proof (cases parts)
    case Nil
    with h pre whole show ?thesis
      by (simp add: do_write_def send_worker_ok_def phase_ok_def)
  next
    case (Cons p ps)
    show ?thesis
    proof (cases "out_open (sw_out w)")
      case True
      have "frames_from env item 0 (pre @ [p]) =
          frames_from env item 0 pre @ to_bytes (data_header env item off n p) @ p"
        by (simp add: frames_from_append pre(2) h(4))
      moreover have "item_parts env item = (pre @ [p]) @ ps" using pre(1) Cons by simp
      ultimately show ?thesis
        using True h pre Cons
        by (auto simp: do_write_def send_worker_ok_def phase_ok_def write_all_cases encode_any Let_def
            intro!: exI [of _ "pre @ [p]"])
    next
      case False
      have "out_data (sw_out w) = base @ take (length (items_bytes env (butlast ts) @ frames_from env item 0 pre))
          (items_bytes env ts)"
        by (simp add: pre(3) whole frames_from_append)
      with False h Cons show ?thesis
        by (auto simp: do_write_def send_worker_ok_def phase_ok_def write_all_cases encode_any Let_def)
    qed
  qed
qed

text \<open>One step: the worker takes the head of the queue or leaves it alone.\<close>

lemma do_take_ok:
  assumes w: "send_worker_ok env base ts w" "sw_phase w = Taking"
    and items: "\<forall>item \<in> set (se_queue sh). item_ok env item"
    and len: "length (se_cursors sh) = length (sv_sources env)"
    and take: "do_take env sh = (p, sh')"
  obtains ts' where "ts' @ se_queue sh' = ts @ se_queue sh"
    and "send_worker_ok env base ts' (w\<lparr>sw_phase := p\<rparr>)" and "length (se_cursors sh') = length (se_cursors sh)"
    and "wound_up p \<Longrightarrow> se_queue sh' = []" and "\<exists>xs. se_queue sh = xs @ se_queue sh'"
proof (cases "se_queue sh")
  case Nil
  with w take show thesis
    by (intro that [of ts]) (auto simp: do_take_def send_worker_ok_def phase_ok_def)
next
  case (Cons item rest)
  then have "item_ok env item" using items by simp
  then have "\<not> length (se_cursors sh) \<le> wi_file_index item" using len by (simp add: item_ok_def)
  with Cons w take show thesis
    by (intro that [of "ts @ [item]"])
      (auto simp: do_take_def send_worker_ok_def phase_ok_def Let_def split: if_splits)
qed

lemma send_step_ok:
  assumes "send_worker_ok env base ts w" and "0 < sv_frame_size env"
    and "\<forall>item \<in> set ts \<union> set (se_queue sh). item_ok env item"
    and "length (se_cursors sh) = length (sv_sources env)"
    and "wound_up (sw_phase w) \<Longrightarrow> se_queue sh = []"
    and "send_step env w sh = (w', sh')"
  obtains ts' where "ts' @ se_queue sh' = ts @ se_queue sh"
    and "send_worker_ok env base ts' w'" and "length (se_cursors sh') = length (se_cursors sh)"
    and "wound_up (sw_phase w') \<Longrightarrow> se_queue sh' = []"
    and "\<exists>xs. se_queue sh = xs @ se_queue sh'"
proof (cases "sw_phase w")
  case Taking
  obtain p sh1 where t: "do_take env sh = (p, sh1)" by force
  have e: "w' = w\<lparr>sw_phase := p\<rparr>" "sh' = sh1" using Taking assms(6) t by (auto simp: send_step_def)
  have items: "\<forall>item \<in> set (se_queue sh). item_ok env item" using assms(3) by blast
  show thesis by (rule do_take_ok [OF assms(1) Taking items assms(4) t]) (rule that; simp add: e)
next
  case (Starting item)
  then have ts: "ts \<noteq> []" "last ts = item" using assms(1) by (auto simp: send_worker_ok_def phase_ok_def)
  then have "item_ok env item" using assms(3) last_in_set by blast
  then obtain len where "do_start env item = Writing item (item_offset env item) len 0 (item_parts env item)"
    and "unat len = length (item_payload env item)" using do_start_ok assms(2) by blast
  with Starting assms(1,6) ts show thesis
    by (intro that [of ts]) (auto simp: send_step_def send_worker_ok_def phase_ok_def)
next
  case (Writing item off len n parts)
  have "\<not> wound_up (sw_phase (do_write env w item off len n parts))"
    by (auto simp: do_write_def Let_def split: list.splits result.splits)
  with do_write_ok [OF assms(1) Writing] Writing assms(6) show thesis
    by (intro that [of ts]) (auto simp: send_step_def)
next
  case Closing
  have "take (length (items_bytes env ts)) (items_bytes env ts) = items_bytes env ts" by simp
  with Closing assms(1,5,6) show thesis
    by (intro that [of ts]) (auto simp: send_step_def do_close_def send_worker_ok_def phase_ok_def split: if_splits
        intro!: exI [of _ "length (items_bytes env ts)"])
qed (use assms(1,5,6) in \<open>intro that [of ts];
  auto simp: send_step_def send_worker_ok_def phase_ok_def do_release_def do_report_def Let_def
    split: prod.splits option.splits\<close>)+

text \<open>The whole data phase: the items taken so far and the queue make up the initial queue.\<close>

definition streams_inv :: "send_env \<Rightarrow> work_item list \<Rightarrow> bytes list \<Rightarrow> send_sys \<Rightarrow> bool" where
  "streams_inv env q0 bases sys \<longleftrightarrow>
     0 < sv_frame_size env \<and> (\<forall>item \<in> set q0. item_ok env item)
     \<and> length (se_cursors (snd_shared sys)) = length (sv_sources env)
     \<and> length bases = length (snd_workers sys)
     \<and> (\<forall>w \<in> set (snd_workers sys). wound_up (sw_phase w) \<longrightarrow> se_queue (snd_shared sys) = [])
     \<and> (\<exists>tss. length tss = length (snd_workers sys)
          \<and> mset (concat tss) + mset (se_queue (snd_shared sys)) = mset q0
          \<and> (\<forall>i < length (snd_workers sys). send_worker_ok env (bases ! i) (tss ! i) (snd_workers sys ! i)))"

lemma mset_concat_update:
  "i < length xss \<Longrightarrow> mset (concat (xss[i := ys])) + mset (xss ! i) = mset (concat xss) + mset ys"
proof (induction xss arbitrary: i)
  case (Cons xs xss)
  then show ?case by (cases i) (auto simp: ac_simps)
qed simp

lemma send_go_streams:
  assumes inv: "streams_inv env q0 bases sys" and i: "i < length (snd_workers sys)"
    and st: "send_step env (snd_workers sys ! i) (snd_shared sys) = (w', sh')"
  shows "streams_inv env q0 bases \<lparr>snd_shared = sh', snd_workers = (snd_workers sys)[i := w']\<rparr>"
proof -
  let ?ws = "snd_workers sys" and ?q = "se_queue (snd_shared sys)"
  obtain tss where len: "length tss = length ?ws" and ms: "mset (concat tss) + mset ?q = mset q0"
    and ok: "\<And>i. i < length ?ws \<Longrightarrow> send_worker_ok env (bases ! i) (tss ! i) (?ws ! i)"
    using inv by (auto simp: streams_inv_def)
  have "set (concat tss) \<union> set ?q = set q0"
    by (metis ms set_mset_mset set_mset_union)
  moreover have "set (tss ! i) \<subseteq> set (concat tss)"
    unfolding set_concat by (rule UN_upper) (use i len in simp)
  ultimately have it: "\<forall>item \<in> set (tss ! i) \<union> set ?q. item_ok env item"
    using inv by (auto simp: streams_inv_def)
  have f: "0 < sv_frame_size env" "length (se_cursors (snd_shared sys)) = length (sv_sources env)"
      "wound_up (sw_phase (?ws ! i)) \<Longrightarrow> ?q = []"
    using inv i by (auto simp: streams_inv_def)
  obtain ts' where t: "ts' @ se_queue sh' = tss ! i @ ?q" "send_worker_ok env (bases ! i) ts' w'"
      "length (se_cursors sh') = length (se_cursors (snd_shared sys))"
      "wound_up (sw_phase w') \<Longrightarrow> se_queue sh' = []" "\<exists>xs. ?q = xs @ se_queue sh'"
    using send_step_ok [OF ok [OF i] f(1) it f(2) f(3) st] by blast
  have "mset (concat (tss[i := ts'])) + mset (tss ! i) + mset (se_queue sh') = mset (concat tss) + mset (tss ! i @ ?q)"
    using mset_concat_update [of i tss ts'] i len by (simp add: t(1) [symmetric])
  then have "mset (concat (tss[i := ts'])) + mset (se_queue sh') = mset q0"
    using ms by (simp add: ac_simps)
  moreover have "\<forall>w \<in> set (?ws[i := w']). wound_up (sw_phase w) \<longrightarrow> se_queue sh' = []"
    using inv t(4,5) by (auto simp: streams_inv_def dest!: set_update_cases)
  moreover have "\<forall>j < length ?ws. send_worker_ok env (bases ! j) (tss[i := ts'] ! j) (?ws[i := w'] ! j)"
    using ok t(2) len i by (simp add: nth_list_update)
  ultimately show ?thesis
    using inv t(3) len by (auto simp: streams_inv_def intro!: exI [of _ "tss[i := ts']"])
qed

lemma send_cut_streams:
  assumes inv: "streams_inv env q0 bases sys" and i: "i < length (snd_workers sys)"
    and w: "w = (snd_workers sys ! i)\<lparr>sw_out := (sw_out (snd_workers sys ! i))\<lparr>out_open := False\<rparr>\<rparr>"
  shows "streams_inv env q0 bases (sys\<lparr>snd_workers := (snd_workers sys)[i := w]\<rparr>)"
proof -
  let ?ws = "snd_workers sys" and ?q = "se_queue (snd_shared sys)"
  obtain tss where len: "length tss = length ?ws" and ms: "mset (concat tss) + mset ?q = mset q0"
    and ok: "\<And>i. i < length ?ws \<Longrightarrow> send_worker_ok env (bases ! i) (tss ! i) (?ws ! i)"
    using inv by (auto simp: streams_inv_def)
  have "send_worker_ok env (bases ! i) (tss ! i) w"
    using ok [OF i] by (auto simp: w send_worker_ok_def phase_ok_def split: send_phase.splits result.splits)
  then have "\<forall>j < length ?ws. send_worker_ok env (bases ! j) (tss ! j) (?ws[i := w] ! j)"
    using ok i by (simp add: nth_list_update)
  moreover have "\<forall>v \<in> set (?ws[i := w]). wound_up (sw_phase v) \<longrightarrow> ?q = []"
    using inv nth_mem [OF i] w by (auto simp: streams_inv_def dest!: set_update_cases)
  ultimately show ?thesis
    using inv len ms by (auto simp: streams_inv_def intro!: exI [of _ tss])
qed

lemma send_act_streams:
  assumes "streams_inv env q0 bases sys"
  shows "streams_inv env q0 bases (send_act env a sys)"
proof (cases a)
  case (Go i)
  obtain w' sh' where "send_step env (snd_workers sys ! i) (snd_shared sys) = (w', sh')" by force
  with send_go_streams [OF assms _ this] assms Go show ?thesis by (auto simp: send_act_def)
next
  case (Cut i)
  with send_cut_streams [OF assms _ refl, of i] assms show ?thesis by (auto simp: send_act_def)
qed

interpretation send_streams: invariant_system "send_act env" "streams_inv env q0 bases" for env q0 bases
  by unfold_locales (rule send_act_streams)

section \<open>Invariant of the read cursors\<close>

definition cursor_ok :: "chunk_layout \<Rightarrow> read_cursor \<Rightarrow> (u64 \<times> u64) list \<Rightarrow> bool" where
  "cursor_ok l c released \<longleftrightarrow>
     unat (rc_next_dispatch c) \<le> ccount l
     \<and> (\<forall>j \<in> rc_in_flight c. unat j < unat (rc_next_dispatch c) \<and> unat (rc_released_to c) \<le> chunk_start l (unat j))
     \<and> unat (rc_released_to c) \<le> min (chunk_start l (unat (rc_next_dispatch c))) (fsize l)
     \<and> contiguous_from 0 released (rc_released_to c)"

lemma cursor_default_ok: "cursor_ok l cursor_default []"
  by (simp add: cursor_ok_def cursor_default_def)

lemma cursor_begin_ok:
  assumes "cursor_ok l c rs" and "rc_next_dispatch c \<le> i" and "unat i < ccount l"
  shows "cursor_ok l (cursor_begin c i) rs" "unat (rc_next_dispatch (cursor_begin c i)) = Suc (unat i)"
proof -
  have s: "unat (i + 1) = Suc (unat i)"
    using assms(3) unat_less_exp [of "cl_count l"] by (subst unat_add_exact) auto
  have le: "unat (rc_next_dispatch c) \<le> unat i" using assms(2) by (simp add: word_le_nat_alt)
  then have m: "unat (max (rc_next_dispatch c) (i + 1)) = Suc (unat i)" by (simp add: unat_max s)
  then show "unat (rc_next_dispatch (cursor_begin c i)) = Suc (unat i)" by (simp add: cursor_begin_def)
  have "chunk_start l (unat (rc_next_dispatch c)) \<le> chunk_start l (unat i)"
    "chunk_start l (unat i) \<le> chunk_start l (Suc (unat i))"
    using le by (auto intro: chunk_start_mono)
  with m le assms show "cursor_ok l (cursor_begin c i) rs"
    by (auto simp: cursor_ok_def cursor_begin_def)
qed

lemma cursor_boundary:
  assumes "cursor_ok l c rs"
  defines "b \<equiv> (case first_in_flight (rc_in_flight c) of Some i \<Rightarrow> i | None \<Rightarrow> rc_next_dispatch c)"
  shows "unat b \<le> unat (rc_next_dispatch c)" "\<forall>j \<in> rc_in_flight c. unat b \<le> unat j"
proof -
  have f: "finite (rc_in_flight c)" by simp
  have "unat b \<le> unat (rc_next_dispatch c) \<and> (\<forall>j \<in> rc_in_flight c. unat b \<le> unat j)"
  proof (cases "rc_in_flight c = {}")
    case False
    then have b: "b = Min (rc_in_flight c)" by (simp add: b_def first_in_flight_def)
    have "Min (rc_in_flight c) \<in> rc_in_flight c" using f False by (rule Min_in)
    with assms(1) b have "unat b \<le> unat (rc_next_dispatch c)" by (auto simp: cursor_ok_def)
    moreover have "unat b \<le> unat j" if "j \<in> rc_in_flight c" for j
      using Min_le [OF f that] b by (simp add: word_le_nat_alt)
    ultimately show ?thesis by blast
  qed (simp add: b_def first_in_flight_def)
  then show "unat b \<le> unat (rc_next_dispatch c)" "\<forall>j \<in> rc_in_flight c. unat b \<le> unat j" by auto
qed

lemma cursor_finish_ok:
  assumes "cursor_ok l c rs" and "0 < batch"
    and "cursor_finish c i batch (ucast (cl_chunk_size l)) (cl_file_size l) = (r, c')"
  shows "cursor_ok l c' (rs @ (case r of None \<Rightarrow> [] | Some x \<Rightarrow> [x]))"
    "rc_in_flight c' = rc_in_flight c - {i}" "rc_next_dispatch c' = rc_next_dispatch c"
proof -
  define c1 where "c1 = c\<lparr>rc_in_flight := rc_in_flight c - {i}\<rparr>"
  define b where "b = (case first_in_flight (rc_in_flight c1) of Some i \<Rightarrow> i | None \<Rightarrow> rc_next_dispatch c1)"
  define boundary where "boundary = min (saturating_mul b (ucast (cl_chunk_size l))) (cl_file_size l)"
  have ok1: "cursor_ok l c1 rs" using assms(1) by (auto simp: cursor_ok_def c1_def)
  note bd = cursor_boundary [OF ok1, folded b_def]
  have res: "(r, c') = (if saturating_sub boundary (rc_released_to c1) < batch then (None, c1)
       else (Some (rc_released_to c1, boundary), c1\<lparr>rc_released_to := boundary\<rparr>))"
    unfolding boundary_def b_def c1_def by (rule assms(3) [symmetric, unfolded cursor_finish_def Let_def])
  have ub: "unat boundary = min (chunk_start l (unat b)) (fsize l)"
    using unat_less_exp [of "cl_file_size l"] by (simp add: boundary_def geom_simps chunk_start_def)
  show "rc_in_flight c' = rc_in_flight c - {i}" "rc_next_dispatch c' = rc_next_dispatch c"
    using res by (auto simp: c1_def split: if_splits)
  show "cursor_ok l c' (rs @ (case r of None \<Rightarrow> [] | Some x \<Rightarrow> [x]))"
  proof (cases "saturating_sub boundary (rc_released_to c1) < batch")
    case True
    with res ok1 show ?thesis by simp
  next
    case False
    have "unat batch \<le> unat boundary - unat (rc_released_to c1)"
      using False by (simp add: word_less_nat_alt geom_simps not_less)
    moreover have "0 < unat batch" using assms(2) by (simp add: word_less_nat_alt)
    ultimately have "rc_released_to c1 \<le> boundary" by (simp add: word_le_nat_alt)
    moreover have "chunk_start l (unat b) \<le> chunk_start l (unat (rc_next_dispatch c1))"
      "\<forall>j \<in> rc_in_flight c1. chunk_start l (unat b) \<le> chunk_start l (unat j)"
      using bd by (auto intro: chunk_start_mono)
    ultimately show ?thesis
      using False res ok1 ub by (auto simp: cursor_ok_def contiguous_snoc min_le_iff_disj)
  qed
qed

fun in_hand :: "send_phase \<Rightarrow> work_item option" where
  "in_hand (Starting item) = Some item"
| "in_hand (Writing item off len n parts) = Some item"
| "in_hand (Releasing item len) = Some item"
| "in_hand _ = None"

definition file_ranges :: "nat \<Rightarrow> (nat \<times> u64 \<times> u64) list \<Rightarrow> (u64 \<times> u64) list" where
  "file_ranges f rel = map snd (filter (\<lambda>r. fst r = f) rel)"

text \<open>The queue holds the chunks of every file in ascending order.\<close>

definition ascending :: "work_item list \<Rightarrow> bool" where
  "ascending q \<longleftrightarrow> sorted_wrt (\<lambda>a b. wi_file_index a = wi_file_index b \<longrightarrow> wi_chunk_index a < wi_chunk_index b) q"

definition shared_cursors_ok :: "send_env \<Rightarrow> send_shared \<Rightarrow> bool" where
  "shared_cursors_ok env sh \<longleftrightarrow>
     length (se_cursors sh) = length (sv_sources env)
     \<and> (\<forall>f < length (sv_sources env). source_ok (sv_sources env ! f)
          \<and> cursor_ok (sf_layout (sv_sources env ! f)) (se_cursors sh ! f) (file_ranges f (se_released sh)))
     \<and> ascending (se_queue sh)
     \<and> (\<forall>item \<in> set (se_queue sh). item_ok env item
          \<and> rc_next_dispatch (se_cursors sh ! wi_file_index item) \<le> wi_chunk_index item)"

definition holds :: "send_env \<Rightarrow> send_shared \<Rightarrow> work_item \<Rightarrow> bool" where
  "holds env sh item \<longleftrightarrow> item_ok env item \<and> wi_chunk_index item \<in> rc_in_flight (se_cursors sh ! wi_file_index item)"

definition cursors_inv :: "send_env \<Rightarrow> send_sys \<Rightarrow> bool" where
  "cursors_inv env sys \<longleftrightarrow> sv_release_pages env \<and> shared_cursors_ok env (snd_shared sys)
     \<and> (\<forall>i < length (snd_workers sys). \<forall>item. in_hand (sw_phase (snd_workers sys ! i)) = Some item \<longrightarrow>
          holds env (snd_shared sys) item
          \<and> (\<forall>j < length (snd_workers sys). j \<noteq> i \<longrightarrow> in_hand (sw_phase (snd_workers sys ! j)) \<noteq> Some item))"

lemma take_cursors:
  assumes "shared_cursors_ok env sh" and "sv_release_pages env" and "se_queue sh = item # rest"
    and "do_take env sh = (p, sh')"
  shows "p = Starting item" "shared_cursors_ok env sh'" "holds env sh' item"
    "\<And>x. holds env sh x \<Longrightarrow> holds env sh' x \<and> x \<noteq> item"
proof -
  define f where "f = wi_file_index item"
  define c where "c = cursor_begin (se_cursors sh ! f) (wi_chunk_index item)"
  have it: "item_ok env item" "rc_next_dispatch (se_cursors sh ! f) \<le> wi_chunk_index item"
    using assms(1,3) by (auto simp: shared_cursors_ok_def f_def)
  have f: "f < length (sv_sources env)" "f < length (se_cursors sh)"
    using it(1) assms(1) by (auto simp: item_ok_def f_def shared_cursors_ok_def)
  have p: "p = Starting item" "sh' = sh\<lparr>se_queue := rest, se_cursors := (se_cursors sh)[f := c]\<rparr>"
    using assms(2-4) f by (auto simp: do_take_def Let_def f_def c_def)
  show "p = Starting item" by (rule p)
  have "cursor_ok (sf_layout (sv_sources env ! f)) (se_cursors sh ! f) (file_ranges f (se_released sh))"
    using assms(1) f by (auto simp: shared_cursors_ok_def)
  moreover have "unat (wi_chunk_index item) < ccount (sf_layout (sv_sources env ! f))"
    using it(1) by (simp add: item_ok_def item_source_def f_def)
  ultimately have cb: "cursor_ok (sf_layout (sv_sources env ! f)) c (file_ranges f (se_released sh))"
      "unat (rc_next_dispatch c) = Suc (unat (wi_chunk_index item))"
    using cursor_begin_ok it(2) by (auto simp: c_def)
  have later: "rc_next_dispatch c \<le> wi_chunk_index x" if "x \<in> set rest" "wi_file_index x = f" for x
    using that assms(1,3) cb(2)
    by (auto simp: shared_cursors_ok_def ascending_def word_le_nat_alt word_less_nat_alt f_def)
  show "shared_cursors_ok env sh'"
    using assms(1,3) f cb(1) later
    by (auto simp: shared_cursors_ok_def p(2) nth_list_update ascending_def)
  show "holds env sh' item"
    using it(1) f by (simp add: holds_def p(2) c_def cursor_begin_def flip: f_def)
  have "cursor_ok (sf_layout (sv_sources env ! f)) (se_cursors sh ! f) (file_ranges f (se_released sh))"
    using assms(1) f by (simp add: shared_cursors_ok_def)
  then have "wi_chunk_index item \<notin> rc_in_flight (se_cursors sh ! f)"
    using it(2) by (auto simp: cursor_ok_def word_le_nat_alt)
  moreover fix x assume x: "holds env sh x"
  ultimately have "x \<noteq> item" by (auto simp: holds_def f_def)
  moreover have "holds env sh' x"
    using x f by (auto simp: holds_def p(2) nth_list_update c_def cursor_begin_def)
  ultimately show "holds env sh' x \<and> x \<noteq> item" by blast
qed

lemma release_cursors:
  assumes "shared_cursors_ok env sh" and "holds env sh item"
  shows "shared_cursors_ok env (do_release env sh item)"
    "\<And>x. holds env sh x \<Longrightarrow> x \<noteq> item \<Longrightarrow> holds env (do_release env sh item) x"
proof -
  define f where "f = wi_file_index item"
  let ?l = "sf_layout (sv_sources env ! f)"
  let ?batch = "max RELEASE_BATCH_BYTES (ucast (cl_chunk_size ?l))"
  obtain r c where fin: "cursor_finish (se_cursors sh ! f) (wi_chunk_index item) ?batch
      (ucast (cl_chunk_size ?l)) (cl_file_size ?l) = (r, c)" by force
  have f: "f < length (sv_sources env)" "f < length (se_cursors sh)"
    using assms by (auto simp: item_ok_def holds_def f_def shared_cursors_ok_def)
  have "cursor_ok ?l (se_cursors sh ! f) (file_ranges f (se_released sh))"
    using assms(1) f by (auto simp: shared_cursors_ok_def)
  moreover have "0 < ?batch"
    by (simp add: RELEASE_BATCH_BYTES_def less_max_iff_disj)
  ultimately have c: "cursor_ok ?l c (file_ranges f (se_released sh) @ (case r of None \<Rightarrow> [] | Some x \<Rightarrow> [x]))"
      "rc_in_flight c = rc_in_flight (se_cursors sh ! f) - {wi_chunk_index item}"
      "rc_next_dispatch c = rc_next_dispatch (se_cursors sh ! f)"
    using cursor_finish_ok [OF _ _ fin] by auto
  define rel where "rel = se_released sh @ (case r of None \<Rightarrow> [] | Some x \<Rightarrow> [(f, x)])"
  have sh': "do_release env sh item = sh\<lparr>se_cursors := (se_cursors sh)[f := c], se_released := rel\<rparr>"
    using fin by (cases r) (auto simp: do_release_def Let_def source_size_def rel_def simp flip: f_def)
  have fr: "file_ranges f rel = file_ranges f (se_released sh) @ (case r of None \<Rightarrow> [] | Some x \<Rightarrow> [x])"
    "\<And>g. g \<noteq> f \<Longrightarrow> file_ranges g rel = file_ranges g (se_released sh)"
    by (auto simp: rel_def file_ranges_def split: option.splits)
  have cs: "(se_cursors sh)[f := c] ! g = (if g = f then c else se_cursors sh ! g)" for g
    using f by simp
  have "cursor_ok (sf_layout (sv_sources env ! g)) ((se_cursors sh)[f := c] ! g) (file_ranges g rel)"
    if "g < length (sv_sources env)" for g
    unfolding cs using c(1) fr assms(1) that by (cases "g = f") (simp_all add: shared_cursors_ok_def)
  moreover have "rc_next_dispatch ((se_cursors sh)[f := c] ! g) = rc_next_dispatch (se_cursors sh ! g)" for g
    unfolding cs using c(3) by simp
  ultimately show "shared_cursors_ok env (do_release env sh item)"
    using assms(1) unfolding shared_cursors_ok_def sh' by simp
  show "holds env (do_release env sh item) x" if "holds env sh x" "x \<noteq> item" for x
  proof (cases "wi_file_index x = f")
    case True
    then have "wi_chunk_index x \<noteq> wi_chunk_index item" using that(2) by (auto simp: f_def)
    with that(1) True c(2) f show ?thesis by (simp add: holds_def sh')
  next
    case False
    with that(1) show ?thesis by (simp add: holds_def sh')
  qed
qed

lemma in_hand_phase:
  assumes "shared_cursors_ok env sh" and "sv_release_pages env"
    and "\<And>item. in_hand (sw_phase w) = Some item \<Longrightarrow> holds env sh item"
    and "send_step env w sh = (w', sh')"
  shows "shared_cursors_ok env sh'
    \<and> (\<forall>item. in_hand (sw_phase w') = Some item \<longrightarrow> holds env sh' item
         \<and> (in_hand (sw_phase w) = Some item \<or> \<not> holds env sh item))
    \<and> (\<forall>x. holds env sh x \<longrightarrow> in_hand (sw_phase w) \<noteq> Some x \<longrightarrow> holds env sh' x)"
proof (cases "sw_phase w")
  case Taking
  show ?thesis
  proof (cases "se_queue sh")
    case Nil
    with Taking assms show ?thesis by (auto simp: send_step_def do_take_def)
  next
    case (Cons item rest)
    obtain p sh1 where t: "do_take env sh = (p, sh1)" by force
    have e: "w' = w\<lparr>sw_phase := p\<rparr>" "sh' = sh1" using Taking assms(4) t by (auto simp: send_step_def)
    note tc = take_cursors [OF assms(1,2) Cons t]
    show ?thesis unfolding e using tc by auto
  qed
next
  case (Starting item)
  have "in_hand (do_start env item) \<in> {None, Some item}"
    by (auto simp: do_start_def Let_def split: result.splits)
  with Starting assms show ?thesis by (auto simp: send_step_def)
next
  case (Writing item off len n parts)
  have "in_hand (sw_phase (do_write env w item off len n parts)) \<in> {None, Some item}"
    by (auto simp: do_write_def Let_def split: list.splits result.splits)
  with Writing assms show ?thesis by (auto simp: send_step_def)
next
  case (Releasing item len)
  have e: "w' = w\<lparr>sw_phase := Reporting len\<rparr>" "sh' = do_release env sh item"
    using Releasing assms(4) by (auto simp: send_step_def)
  have "holds env sh item" using assms(3) Releasing by simp
  note rc = release_cursors [OF assms(1) this]
  show ?thesis unfolding e using rc Releasing by auto
next
  case Closing
  have "in_hand (sw_phase (do_close w)) = None" by (simp add: do_close_def)
  with Closing assms show ?thesis by (auto simp: send_step_def)
qed (use assms in \<open>auto simp: send_step_def do_report_def Let_def shared_cursors_ok_def holds_def\<close>)

lemma in_hand_step:
  assumes "shared_cursors_ok env sh" and "sv_release_pages env"
    and "\<And>item. in_hand (sw_phase w) = Some item \<Longrightarrow> holds env sh item"
    and "send_step env w sh = (w', sh')"
  shows "shared_cursors_ok env sh'"
    "\<And>item. in_hand (sw_phase w') = Some item \<Longrightarrow> holds env sh' item
       \<and> (in_hand (sw_phase w) = Some item \<or> \<not> holds env sh item)"
    "\<And>x. holds env sh x \<Longrightarrow> in_hand (sw_phase w) \<noteq> Some x \<Longrightarrow> holds env sh' x"
  using in_hand_phase [OF assms] by blast+

lemma list_update_map_same:
  assumes "f x = f (xs ! i)"
  shows "map f (xs[i := x]) = map f xs"
proof (cases "i < length xs")
  case True
  with assms show ?thesis by (metis list_update_id map_update nth_map)
qed (simp add: list_update_beyond)

lemma send_act_Cut_phases: "map sw_phase (snd_workers (send_act env (Cut i) sys)) = map sw_phase (snd_workers sys)"
  by (simp add: send_act_def list_update_map_same)

lemma send_act_length [simp]: "length (snd_workers (send_act env a sys)) = length (snd_workers sys)"
  by (auto simp: send_act_def split: send_action.splits prod.splits)

lemma send_act_Cut:
  "sw_phase (snd_workers (send_act env (Cut i) sys) ! j) = sw_phase (snd_workers sys ! j)"
  "snd_shared (send_act env (Cut i) sys) = snd_shared sys"
proof -
  show "snd_shared (send_act env (Cut i) sys) = snd_shared sys" by (simp add: send_act_def)
  show "sw_phase (snd_workers (send_act env (Cut i) sys) ! j) = sw_phase (snd_workers sys ! j)"
    by (cases "i < length (snd_workers sys)"; cases "i = j") (simp_all add: send_act_def)
qed

lemma send_act_cursors:
  assumes "cursors_inv env sys"
  shows "cursors_inv env (send_act env a sys)"
proof -
  let ?ws = "snd_workers sys" and ?sh = "snd_shared sys"
  have rp: "sv_release_pages env" "shared_cursors_ok env ?sh" using assms by (auto simp: cursors_inv_def)
  have hold: "holds env ?sh item" if "i < length ?ws" "in_hand (sw_phase (?ws ! i)) = Some item" for i item
    using assms that by (auto simp: cursors_inv_def)
  have uniq: "in_hand (sw_phase (?ws ! j)) \<noteq> Some item"
    if "i < length ?ws" "in_hand (sw_phase (?ws ! i)) = Some item" "j < length ?ws" "j \<noteq> i" for i j item
    using assms that unfolding cursors_inv_def by blast
  show ?thesis
  proof (cases a)
    case (Go i)
    show ?thesis
    proof (cases "i < length ?ws")
      case True
      obtain w' sh' where st: "send_step env (?ws ! i) ?sh = (w', sh')" by force
      note step = in_hand_step [OF rp(2,1) hold [OF True] st]
      have keep: "holds env sh' item \<and> in_hand (sw_phase w') \<noteq> Some item"
        if "j < length ?ws" "j \<noteq> i" "in_hand (sw_phase (?ws ! j)) = Some item" for j item
        using step(2) [of item] step(3) [of item] hold [OF that(1,3)] uniq [OF that(1,3) True] that(2) by metis
      have "holds env sh' item \<and> (\<forall>k < length ?ws. k \<noteq> j \<longrightarrow> in_hand (sw_phase (?ws[i := w'] ! k)) \<noteq> Some item)"
        if j: "j < length ?ws" "in_hand (sw_phase (?ws[i := w'] ! j)) = Some item" for j item
      proof (cases "j = i")
        case True
        with j \<open>i < length ?ws\<close> have "in_hand (sw_phase w') = Some item" by simp
        with step(2) [of item] keep True show ?thesis by (auto simp: nth_list_update)
      next
        case False
        with j have "in_hand (sw_phase (?ws ! j)) = Some item" by simp
        with keep [OF j(1) False] uniq [OF j(1)] show ?thesis
          by (auto simp: nth_list_update True)
      qed
      with Go True st rp(1) step(1) show ?thesis
        by (simp add: send_act_def cursors_inv_def)
    qed (use assms Go in \<open>simp add: send_act_def\<close>)
  next
    case (Cut i)
    show ?thesis
      using assms unfolding Cut cursors_inv_def send_act_Cut send_act_length .
  qed
qed

interpretation send_cursors: invariant_system "send_act env" "cursors_inv env" for env
  by unfold_locales (rule send_act_cursors)

section \<open>The workers end\<close>

fun phase_work :: "send_env \<Rightarrow> send_phase \<Rightarrow> nat" where
  "phase_work env (Ended r) = 0"
| "phase_work env Closing = 1"
| "phase_work env Taking = 2"
| "phase_work env (Reporting len) = 3"
| "phase_work env (Releasing item len) = 4"
| "phase_work env (Writing item off len n parts) = 5 + length parts"
| "phase_work env (Starting item) =
     (case do_start env item of Writing i off len n parts \<Rightarrow> 6 + length parts | _ \<Rightarrow> 6)"

definition send_work :: "send_env \<Rightarrow> send_sys \<Rightarrow> nat" where
  "send_work env sys =
     sum_list (map (\<lambda>item. phase_work env (Starting item)) (se_queue (snd_shared sys)))
     + sum_list (map (\<lambda>w. phase_work env (sw_phase w)) (snd_workers sys))"

definition has_ended :: "send_worker \<Rightarrow> bool" where
  "has_ended w \<longleftrightarrow> (\<exists>r. sw_phase w = Ended r)"

lemma phase_work_0: "phase_work env p = 0 \<longleftrightarrow> (\<exists>r. p = Ended r)"
  by (cases p) (auto split: send_phase.splits)

lemma do_start_phase: "\<exists>r. do_start env item = Ended r \<or> (\<exists>off len n parts. do_start env item = Writing item off len n parts)"
  by (auto simp: do_start_def Let_def split: result.splits)

lemma send_step_work:
  assumes "send_step env w sh = (w', sh')" and "\<not> has_ended w"
  shows "phase_work env (sw_phase w') + sum_list (map (\<lambda>item. phase_work env (Starting item)) (se_queue sh'))
     < phase_work env (sw_phase w) + sum_list (map (\<lambda>item. phase_work env (Starting item)) (se_queue sh))"
proof (cases "sw_phase w")
  case Taking
  with assms(1) show ?thesis
    by (auto simp: send_step_def do_take_def Let_def split: list.splits if_splits)
next
  case (Starting item)
  with assms(1) do_start_phase [of env item] show ?thesis
    by (auto simp: send_step_def)
next
  case (Writing item off len n parts)
  with assms(1) show ?thesis
    by (auto simp: send_step_def do_write_def Let_def split: list.splits result.splits)
next
  case (Releasing item len)
  with assms(1) show ?thesis
    by (auto simp: send_step_def do_release_def Let_def split: prod.splits option.splits)
next
  case (Reporting len)
  with assms(1) show ?thesis by (auto simp: send_step_def do_report_def Let_def)
next
  case Closing
  with assms(1) show ?thesis by (auto simp: send_step_def do_close_def)
next
  case (Ended r)
  with assms(2) show ?thesis by (simp add: has_ended_def)
qed

lemma sum_list_update_less:
  fixes f :: "'a \<Rightarrow> nat"
  assumes "i < length xs"
  shows "sum_list (map f (xs[i := x])) + f (xs ! i) = sum_list (map f xs) + f x"
  using assms
proof (induction xs arbitrary: i)
  case (Cons y ys)
  then show ?case by (cases i) auto
qed simp

lemma send_act_work:
  "send_work env (send_act env a sys) \<le> send_work env sys"
  "a = Go i \<Longrightarrow> i < length (snd_workers sys) \<Longrightarrow> \<not> has_ended (snd_workers sys ! i) \<Longrightarrow>
     send_work env (send_act env a sys) < send_work env sys"
proof -
  have go: "send_work env (send_act env (Go i) sys) < send_work env sys"
    if i: "i < length (snd_workers sys)" "\<not> has_ended (snd_workers sys ! i)" for i
  proof -
    obtain w' sh' where st: "send_step env (snd_workers sys ! i) (snd_shared sys) = (w', sh')" by force
    from send_step_work [OF st i(2)] show ?thesis
      using sum_list_update_less [OF i(1), of "\<lambda>w. phase_work env (sw_phase w)" w'] i(1)
      by (simp add: send_act_def st send_work_def)
  qed
  show "a = Go i \<Longrightarrow> i < length (snd_workers sys) \<Longrightarrow> \<not> has_ended (snd_workers sys ! i) \<Longrightarrow>
     send_work env (send_act env a sys) < send_work env sys" using go by simp
  show "send_work env (send_act env a sys) \<le> send_work env sys"
  proof (cases a)
    case (Go j)
    have "send_act env a sys = sys" if "j < length (snd_workers sys)" "has_ended (snd_workers sys ! j)"
      using that Go by (auto simp: send_act_def has_ended_def send_step_def)
    moreover have "send_act env a sys = sys" if "\<not> j < length (snd_workers sys)"
      using that Go by (simp add: send_act_def)
    ultimately show ?thesis using go [of j] Go by force
  next
    case (Cut j)
    have "map (\<lambda>w. phase_work env (sw_phase w)) (snd_workers (send_act env a sys)) =
        map (\<lambda>w. phase_work env (sw_phase w)) (snd_workers sys)"
      using arg_cong [OF send_act_Cut_phases [of env j sys], of "map (phase_work env)"] Cut by (simp add: comp_def)
    moreover have "snd_shared (send_act env a sys) = snd_shared sys" by (simp add: Cut send_act_def)
    ultimately show ?thesis by (simp add: send_work_def)
  qed
qed

lemma send_run_length [simp]: "length (snd_workers (fold (send_act env) as sys)) = length (snd_workers sys)"
  by (induction as arbitrary: sys) auto

lemma send_act_other:
  assumes "a \<noteq> Go i" and "i < length (snd_workers sys)"
  shows "sw_phase (snd_workers (send_act env a sys) ! i) = sw_phase (snd_workers sys ! i)"
proof (cases a)
  case (Go j)
  with assms show ?thesis by (auto simp: send_act_def split: prod.splits)
next
  case (Cut j)
  with assms(2) send_act_Cut_phases [of env j sys] show ?thesis by (metis nth_map send_act_length)
qed

lemma has_ended_stays:
  assumes "i < length (snd_workers sys)" and "has_ended (snd_workers sys ! i)"
  shows "has_ended (snd_workers (send_act env a sys) ! i)"
proof (cases "a = Go i")
  case True
  with assms show ?thesis by (auto simp: send_act_def has_ended_def send_step_def)
next
  case False
  with assms send_act_other show ?thesis by (simp add: has_ended_def)
qed

lemma send_run_work_le: "send_work env (fold (send_act env) as sys) \<le> send_work env sys"
  by (induction as arbitrary: sys) (auto intro: le_trans send_act_work(1))

lemma send_run_work_less:
  assumes "Go i \<in> set as" and "i < length (snd_workers sys)" and "\<not> has_ended (snd_workers sys ! i)"
  shows "send_work env (fold (send_act env) as sys) < send_work env sys"
  using assms
proof (induction as arbitrary: sys)
  case (Cons a as)
  let ?s = "send_act env a sys"
  show ?case
  proof (cases "a = Go i")
    case True
    have "send_work env ?s < send_work env sys" using send_act_work(2) [OF True] Cons.prems by simp
    with send_run_work_le [of env as ?s] show ?thesis by simp
  next
    case False
    with Cons.prems have "\<not> has_ended (snd_workers ?s ! i)" by (simp add: send_act_other has_ended_def)
    with Cons False have "send_work env (fold (send_act env) as ?s) < send_work env ?s" by simp
    with send_act_work(1) [of env a sys] show ?thesis by simp
  qed
qed simp

text \<open>A round gives every worker at least one step.\<close>

definition is_round :: "nat \<Rightarrow> send_action list \<Rightarrow> bool" where
  "is_round n as \<longleftrightarrow> (\<forall>i < n. Go i \<in> set as)"

lemma rounds_end:
  assumes "\<forall>r \<in> set rounds. is_round (length (snd_workers sys)) r" and "send_work env sys \<le> length rounds"
  shows "\<forall>w \<in> set (snd_workers (fold (send_act env) (concat rounds) sys)). has_ended w"
  using assms
proof (induction rounds arbitrary: sys)
  case Nil
  then have "\<forall>w \<in> set (snd_workers sys). phase_work env (sw_phase w) = 0"
    by (simp add: send_work_def)
  then show ?case by (simp add: phase_work_0 has_ended_def)
next
  case (Cons r rounds)
  let ?s = "fold (send_act env) r sys"
  have ended: "\<forall>w \<in> set (snd_workers (fold (send_act env) as sys)). has_ended w"
    if "\<forall>w \<in> set (snd_workers sys). has_ended w" for as sys
    using that
  proof (induction as arbitrary: sys)
    case (Cons a as)
    have "\<forall>w \<in> set (snd_workers (send_act env a sys)). has_ended w"
      using Cons.prems has_ended_stays by (metis in_set_conv_nth nth_mem send_act_length)
    with Cons show ?case by simp
  qed simp
  show ?case
  proof (cases "\<forall>w \<in> set (snd_workers sys). has_ended w")
    case True
    with ended [of sys "concat (r # rounds)"] show ?thesis by blast
  next
    case False
    then obtain i where i: "i < length (snd_workers sys)" "\<not> has_ended (snd_workers sys ! i)"
      by (metis in_set_conv_nth)
    then have "Go i \<in> set r" using Cons.prems(1) by (simp add: is_round_def)
    then have "send_work env ?s < send_work env sys" using send_run_work_less i by blast
    with Cons.prems have "send_work env ?s \<le> length rounds" "\<forall>r \<in> set rounds. is_round (length (snd_workers ?s)) r"
      by auto
    with Cons.IH [of ?s] show ?thesis by simp
  qed
qed

text \<open>Without a lost connection no worker fails.\<close>

definition connected :: "send_sys \<Rightarrow> bool" where
  "connected sys \<longleftrightarrow> (\<forall>w \<in> set (snd_workers sys). sw_phase w \<noteq> Ended (Ok ()) \<longrightarrow> out_open (sw_out w))"

lemma connected_go:
  assumes "connected sys"
  shows "connected (send_act env (Go i) sys)"
proof (cases "i < length (snd_workers sys)")
  case True
  obtain w' sh' where st: "send_step env (snd_workers sys ! i) (snd_shared sys) = (w', sh')" by force
  let ?w = "snd_workers sys ! i"
  have w: "sw_phase ?w \<noteq> Ended (Ok ()) \<longrightarrow> out_open (sw_out ?w)" using assms True by (simp add: connected_def)
  have "sw_phase w' \<noteq> Ended (Ok ()) \<longrightarrow> out_open (sw_out w')"
    using st w by (cases "sw_phase ?w")
      (auto simp: send_step_def do_write_def do_close_def write_all_def Let_def
        split: prod.splits list.splits result.splits if_splits)
  with assms True st show ?thesis by (auto simp: connected_def send_act_def dest!: set_update_cases)
qed (use assms in \<open>simp add: send_act_def\<close>)

lemma connected_run:
  assumes "connected sys" and "\<forall>a \<in> set as. \<exists>i. a = Go i"
  shows "connected (fold (send_act env) as sys)"
  using assms by (induction as arbitrary: sys) (auto intro: connected_go)

section \<open>Lemmas on the work queue\<close>

lemma missing_indices:
  assumes "bitmap_ok b"
  shows "map unat (concat (map index_range (missing_ranges b))) = filter (\<lambda>i. \<not> bools b ! i) [0..<unat (bm_count b)]"
  using missing_ranges_spec(1) [OF assms] by (simp add: map_concat comp_def index_range_nat)

definition missing_items :: "nat \<Rightarrow> chunk_bitmap \<Rightarrow> work_item list" where
  "missing_items f have = map (\<lambda>i. \<lparr>wi_file_index = f, wi_chunk_index = i\<rparr>) (concat (map index_range (missing_ranges have)))"

text \<open>Specification: the chunks of one file that the peer asked for and has not got.\<close>

definition file_items :: "manifest_accept \<Rightarrow> source_file list \<Rightarrow> nat \<times> file_entry \<Rightarrow> work_item list" where
  "file_items accept srcs fe =
     (if fe_file_id (snd fe) \<notin> set (ma_accepted_file_ids accept) then []
      else case peer_bitmap accept (snd fe) (sf_layout (srcs ! fst fe)) of
        Ok have \<Rightarrow> missing_items (fst fe) have
      | Err _ \<Rightarrow> [])"

lemma peer_bitmap_ok:
  "peer_bitmap accept entry l = Ok b \<Longrightarrow> bitmap_ok b \<and> bm_count b = cl_count l"
  using bitmap_new_ok [of "cl_count l"]
  by (auto simp: peer_bitmap_def bitmap_from_bytes_Ok bitmap_new_def split: option.splits)

lemma missing_items_in:
  assumes "bitmap_ok b" and "unat (bm_count b) = n"
  shows "x \<in> set (missing_items f b) \<longleftrightarrow>
     wi_file_index x = f \<and> unat (wi_chunk_index x) < n \<and> \<not> bools b ! unat (wi_chunk_index x)"
proof -
  let ?is = "concat (map index_range (missing_ranges b))"
  have "i \<in> set ?is \<longleftrightarrow> unat i \<in> set (map unat ?is)" for i
    by (simp add: image_iff del: set_concat) (metis word_unat_eq_iff)
  then have "i \<in> set ?is \<longleftrightarrow> unat i < n \<and> \<not> bools b ! unat i" for i
    unfolding missing_indices [OF assms(1)] using assms(2) by simp
  then show ?thesis
    by (cases x) (auto simp: missing_items_def simp del: set_concat)
qed

lemma missing_items_ascending:
  assumes "bitmap_ok b"
  shows "ascending (missing_items f b)"
proof -
  let ?is = "concat (map index_range (missing_ranges b))"
  have "sorted_wrt (<) (map unat ?is)"
    unfolding missing_indices [OF assms] by (intro sorted_wrt_filter) simp
  then show ?thesis
    by (simp add: ascending_def missing_items_def sorted_wrt_map word_less_nat_alt del: map_concat)
qed

lemma queue_chunks_Ok:
  assumes "queue_chunks l f (q, n) is = Ok (q', n')"
  shows "q' = q @ map (\<lambda>i. \<lparr>wi_file_index = f, wi_chunk_index = i\<rparr>) is"
  using assms
proof (induction "is" arbitrary: q n)
  case (Cons i "is")
  from Cons.prems show ?case by (auto split: result.splits dest: Cons.IH)
qed simp

lemma build_queue_Ok:
  assumes "build_queue accept srcs i entries (q, n) = Ok (q', n')"
  shows "q' = q @ concat (map (file_items accept srcs) (enumerate i entries))"
    "\<forall>fe \<in> set (enumerate i entries). fe_file_id (snd fe) \<in> set (ma_accepted_file_ids accept) \<longrightarrow>
       (\<exists>b. peer_bitmap accept (snd fe) (sf_layout (srcs ! fst fe)) = Ok b)"
  using assms
proof (induction entries arbitrary: i q n)
  case (Cons e es)
  {
    case 1
    then show ?case
      by (auto simp: file_items_def missing_items_def Let_def split: if_splits result.splits
          dest!: Cons.IH(1) dest: queue_chunks_Ok)
  next
    case 2
    then show ?case
      by (auto simp: Let_def split: if_splits result.splits dest!: Cons.IH(2))
  }
qed auto

lemma file_items_in:
  "x \<in> set (file_items accept srcs fe) \<Longrightarrow> wi_file_index x = fst fe
     \<and> unat (wi_chunk_index x) < ccount (sf_layout (srcs ! fst fe))"
  using peer_bitmap_ok [of accept "snd fe" "sf_layout (srcs ! fst fe)"]
  by (auto simp: file_items_def missing_items_in split: if_splits result.splits)

lemma file_items_ascending: "ascending (file_items accept srcs fe)"
  using peer_bitmap_ok [of accept "snd fe" "sf_layout (srcs ! fst fe)"]
  by (auto simp: file_items_def missing_items_ascending ascending_def split: result.splits)
    (simp add: missing_items_ascending [unfolded ascending_def])

lemma items_ascending:
  "ascending (concat (map (file_items accept srcs) (enumerate i entries)))"
proof (induction entries arbitrary: i)
  case (Cons e es)
  have "wi_file_index x < wi_file_index y"
    if "x \<in> set (file_items accept srcs (i, e))" "y \<in> set (concat (map (file_items accept srcs) (enumerate (Suc i) es)))" for x y
    using that by (auto simp: in_set_enumerate_eq dest!: file_items_in)
  with Cons file_items_ascending [of accept srcs "(i, e)"] show ?case
    by (fastforce simp: ascending_def sorted_wrt_append)
qed (simp add: ascending_def)

lemma ascending_distinct: "ascending q \<Longrightarrow> distinct q"
proof (induction q)
  case (Cons x q)
  then show ?case by (auto simp: ascending_def)
qed simp

text \<open>The queue of a session: its items exist, are in order, and are all that is missing.\<close>

lemma build_queue_spec:
  assumes "build_queue accept srcs 0 entries ([], 0) = Ok (q, n)"
    and "length srcs = length entries" and "\<forall>src \<in> set srcs. source_ok src"
    and "sv_sources env = srcs"
  shows "ascending q" "distinct q" "\<forall>item \<in> set q. item_ok env item"
    "\<forall>f < length entries. fe_file_id (entries ! f) \<in> set (ma_accepted_file_ids accept) \<longrightarrow>
       (\<exists>have. peer_bitmap accept (entries ! f) (sf_layout (srcs ! f)) = Ok have
          \<and> (\<forall>i. \<lparr>wi_file_index = f, wi_chunk_index = i\<rparr> \<in> set q \<longleftrightarrow>
               unat i < ccount (sf_layout (srcs ! f)) \<and> \<not> bools have ! unat i))"
    "\<forall>item \<in> set q. fe_file_id (entries ! wi_file_index item) \<in> set (ma_accepted_file_ids accept)"
proof -
  note b = build_queue_Ok [OF assms(1)]
  have q: "q = concat (map (file_items accept srcs) (enumerate 0 entries))" using b(1) by simp
  then show "ascending q" by (simp only: items_ascending)
  then show "distinct q" by (rule ascending_distinct)
  have mem: "x \<in> set q \<longleftrightarrow> wi_file_index x < length entries
      \<and> x \<in> set (file_items accept srcs (wi_file_index x, entries ! wi_file_index x))" for x
  proof -
    have "x \<in> set q \<longleftrightarrow> (\<exists>fe \<in> set (enumerate 0 entries). x \<in> set (file_items accept srcs fe))"
      unfolding q by simp
    also have "\<dots> \<longleftrightarrow> (\<exists>f < length entries. x \<in> set (file_items accept srcs (f, entries ! f)))"
      by (auto simp: in_set_enumerate_eq)
    finally show ?thesis using file_items_in [of x accept srcs] by (metis fst_conv)
  qed
  have "source_ok (srcs ! f)" if "f < length entries" for f using assms(2,3) that by simp
  then show "\<forall>item \<in> set q. item_ok env item"
    using mem file_items_in assms(2,4) by (fastforce simp: item_ok_def item_source_def)
  show "\<forall>item \<in> set q. fe_file_id (entries ! wi_file_index item) \<in> set (ma_accepted_file_ids accept)"
  proof
    fix item assume "item \<in> set q"
    with mem have "item \<in> set (file_items accept srcs (wi_file_index item, entries ! wi_file_index item))" by blast
    then show "fe_file_id (entries ! wi_file_index item) \<in> set (ma_accepted_file_ids accept)"
      by (simp add: file_items_def split: if_splits)
  qed
  show "\<forall>f < length entries. fe_file_id (entries ! f) \<in> set (ma_accepted_file_ids accept) \<longrightarrow>
       (\<exists>have. peer_bitmap accept (entries ! f) (sf_layout (srcs ! f)) = Ok have
          \<and> (\<forall>i. \<lparr>wi_file_index = f, wi_chunk_index = i\<rparr> \<in> set q \<longleftrightarrow>
               unat i < ccount (sf_layout (srcs ! f)) \<and> \<not> bools have ! unat i))"
  proof (intro allI impI)
    fix f assume f: "f < length entries" "fe_file_id (entries ! f) \<in> set (ma_accepted_file_ids accept)"
    then have "(f, entries ! f) \<in> set (enumerate 0 entries)" by (simp add: in_set_enumerate_eq)
    with b(2) f(2) obtain bm where bm: "peer_bitmap accept (entries ! f) (sf_layout (srcs ! f)) = Ok bm" by fastforce
    with peer_bitmap_ok f show "\<exists>have. peer_bitmap accept (entries ! f) (sf_layout (srcs ! f)) = Ok have
          \<and> (\<forall>i. \<lparr>wi_file_index = f, wi_chunk_index = i\<rparr> \<in> set q \<longleftrightarrow>
               unat i < ccount (sf_layout (srcs ! f)) \<and> \<not> bools have ! unat i)"
      by (auto simp: mem file_items_def missing_items_in)
  qed
qed

lemma build_queue_bytes:
  assumes "build_queue accept srcs i entries (q, n) = Ok (q', n')"
    and "\<forall>f < length srcs. layout_ok (sf_layout (srcs ! f))" and "i + length entries \<le> length srcs"
  shows "\<exists>xs. q' = q @ xs \<and> n' = n + of_nat (\<Sum>x\<leftarrow>xs.
     chunk_len (sf_layout (srcs ! wi_file_index x)) (unat (wi_chunk_index x)))"
  using assms(1,3)
proof (induction entries arbitrary: i q n)
  case (Cons e es)
  have range_len: "ucast len = (of_nat (chunk_len l (unat j)) :: u64)"
    if "layout_ok l" "layout_range l j = Ok (off, len)" for l j off len
    using that by (metis layout_range_Ok of_nat_unat)
  have qc: "\<exists>xs. q1 = q @ xs \<and> n1 = n + of_nat (\<Sum>x\<leftarrow>xs.
      chunk_len (sf_layout (srcs ! wi_file_index x)) (unat (wi_chunk_index x)))"
    if "queue_chunks (sf_layout (srcs ! i)) i (q, n) is = Ok (q1, n1)" "i < length srcs" for "is" q n q1 n1
    using that
  proof (induction "is" arbitrary: q n)
    case (Cons j "is")
    obtain off len where r: "layout_range (sf_layout (srcs ! i)) j = Ok (off, len)"
      using Cons.prems(1) by (auto split: result.splits)
    let ?x = "\<lparr>wi_file_index = i, wi_chunk_index = j\<rparr>"
    from r Cons.prems(1) have "queue_chunks (sf_layout (srcs ! i)) i (q @ [?x], n + ucast len) is = Ok (q1, n1)" by simp
    from Cons.IH [OF this Cons.prems(2)] obtain xs where "q1 = q @ ?x # xs" "n1 = n + ucast len + of_nat (\<Sum>x\<leftarrow>xs.
        chunk_len (sf_layout (srcs ! wi_file_index x)) (unat (wi_chunk_index x)))" by auto
    moreover have "ucast len = (of_nat (chunk_len (sf_layout (srcs ! i)) (unat j)) :: u64)"
      using range_len r assms(2) Cons.prems(2) by blast
    ultimately show ?case by (intro exI [of _ "?x # xs"]) (simp add: add.assoc)
  qed simp
  show ?case
  proof (cases "fe_file_id e \<in> set (ma_accepted_file_ids accept)")
    case False
    with Cons show ?thesis by simp
  next
    case True
    then obtain b q1 n1 where p: "queue_chunks (sf_layout (srcs ! i)) i (q, n) (concat (map index_range (missing_ranges b))) = Ok (q1, n1)"
        "build_queue accept srcs (Suc i) es (q1, n1) = Ok (q', n')"
      using Cons.prems by (auto simp: Let_def split: result.splits)
    have i: "i < length srcs" "Suc i + length es \<le> length srcs" using Cons.prems(2) by auto
    obtain xs where "q1 = q @ xs" "n1 = n + of_nat (\<Sum>x\<leftarrow>xs.
        chunk_len (sf_layout (srcs ! wi_file_index x)) (unat (wi_chunk_index x)))"
      using qc [OF p(1) i(1)] by blast
    moreover obtain ys where "q' = q1 @ ys" "n' = n1 + of_nat (\<Sum>x\<leftarrow>ys.
        chunk_len (sf_layout (srcs ! wi_file_index x)) (unat (wi_chunk_index x)))"
      using Cons.IH [OF p(2) i(2)] by blast
    ultimately show ?thesis by (intro exI [of _ "xs @ ys"]) (simp add: add.assoc)
  qed
qed simp

lemma open_sources_Ok:
  assumes "open_sources os blake3 config fs i files = Ok (srcs, entries)"
    and "\<forall>f \<in> set files. \<forall>c. fs (of_path f) = Some c \<longrightarrow> length c < 2 ^ 64"
  shows "length srcs = length files" "length entries = length files"
    "\<And>k. k < length files \<Longrightarrow> \<exists>c. fs (of_path (files ! k)) = Some c \<and> sf_map (srcs ! k) = c
       \<and> source_ok (srcs ! k) \<and> cl_chunk_size (sf_layout (srcs ! k)) = cfg_chunk_size config
       \<and> cl_file_size (sf_layout (srcs ! k)) = of_nat (length c)
       \<and> entries ! k = make_entry blake3 (i + k) (files ! k) (srcs ! k)
            (map (blake3 \<circ> chunk_of (sf_layout (srcs ! k)) c) [0..<ccount (sf_layout (srcs ! k))])"
proof -
  have "length srcs = length files \<and> length entries = length files
    \<and> (\<forall>k < length files. \<exists>c. fs (of_path (files ! k)) = Some c \<and> sf_map (srcs ! k) = c
       \<and> source_ok (srcs ! k) \<and> cl_chunk_size (sf_layout (srcs ! k)) = cfg_chunk_size config
       \<and> cl_file_size (sf_layout (srcs ! k)) = of_nat (length c)
       \<and> entries ! k = make_entry blake3 (i + k) (files ! k) (srcs ! k)
            (map (blake3 \<circ> chunk_of (sf_layout (srcs ! k)) c) [0..<ccount (sf_layout (srcs ! k))]))"
    using assms
  proof (induction files arbitrary: i srcs entries)
    case (Cons f files)
    obtain src hs rel ss es where o: "source_open os fs (of_path f) (cfg_chunk_size config) = Ok src"
        "chunk_hashes blake3 src (cfg_release_read_pages config) = Ok (hs, rel)"
        "open_sources os blake3 config fs (Suc i) files = Ok (ss, es)"
        "srcs = src # ss" "entries = make_entry blake3 i f src hs # es"
      using Cons.prems(1) by (auto split: result.splits)
    obtain c where c: "fs (of_path f) = Some c"
      using o(1) by (auto simp: source_open_def split: option.splits)
    then have "length c < 2 ^ 64" using Cons.prems(2) by simp
    note so = source_open_ok [OF o(1) c this]
    then have "hs = map (blake3 \<circ> chunk_of (sf_layout src) c) [0..<ccount (sf_layout src)]"
      using chunk_hashes_spec [of src blake3 "cfg_release_read_pages config"] o(2) by auto
    with so c o Cons.IH [OF o(3)] Cons.prems(2) show ?case
      by (auto simp: nth_Cons less_Suc_eq_0_disj comp_def)
  qed simp
  then show "length srcs = length files" "length entries = length files"
    "\<And>k. k < length files \<Longrightarrow> \<exists>c. fs (of_path (files ! k)) = Some c \<and> sf_map (srcs ! k) = c
       \<and> source_ok (srcs ! k) \<and> cl_chunk_size (sf_layout (srcs ! k)) = cfg_chunk_size config
       \<and> cl_file_size (sf_layout (srcs ! k)) = of_nat (length c)
       \<and> entries ! k = make_entry blake3 (i + k) (files ! k) (srcs ! k)
            (map (blake3 \<circ> chunk_of (sf_layout (srcs ! k)) c) [0..<ccount (sf_layout (srcs ! k))])"
    by blast+
qed

section \<open>Initial states\<close>

lemma send_start_streams:
  assumes "0 < sv_frame_size env" and "\<forall>item \<in> set q. item_ok env item"
  shows "streams_inv env q (map out_data streams) (send_start (length (sv_sources env)) q streams)"
  using assms
  by (auto simp: streams_inv_def send_start_def worker_new_def send_worker_ok_def phase_ok_def
      intro!: exI [of _ "replicate (length streams) []"])

lemma send_start_cursors:
  assumes "sv_release_pages env" and "ascending q" and "\<forall>item \<in> set q. item_ok env item"
    and "\<forall>src \<in> set (sv_sources env). source_ok src"
  shows "cursors_inv env (send_start (length (sv_sources env)) q streams)"
proof -
  have "in_hand (sw_phase (map worker_new streams ! i)) = None" if "i < length streams" for i
    using that by (simp add: worker_new_def)
  moreover have "rc_next_dispatch (replicate (length (sv_sources env)) cursor_default ! wi_file_index item) \<le> wi_chunk_index item"
    if "item \<in> set q" for item
    using that assms(3) by (simp add: item_ok_def cursor_default_def)
  ultimately show ?thesis
    using assms by (simp add: cursors_inv_def shared_cursors_ok_def send_start_def cursor_default_ok file_ranges_def)
qed

lemma await_workers_Ok: "await_workers ws = Some (Ok ()) \<longleftrightarrow> (\<forall>w \<in> set ws. sw_phase w = Ended (Ok ()))"
  by (induction ws) (auto split: send_phase.splits result.splits)

lemma streams_complete:
  assumes "streams_inv env q bases sys" and "await_workers (snd_workers sys) = Some (Ok ())" and "bases \<noteq> []"
  shows "\<exists>tss. length tss = length bases \<and> mset (concat tss) = mset q
     \<and> (\<forall>i < length bases. out_data (sw_out (snd_workers sys ! i)) = bases ! i @ items_bytes env (tss ! i))"
proof -
  have e: "\<forall>w \<in> set (snd_workers sys). sw_phase w = Ended (Ok ())"
    using assms(2) by (simp add: await_workers_Ok)
  have n: "length (snd_workers sys) = length bases" using assms(1) by (simp add: streams_inv_def)
  with assms(3) have "snd_workers sys \<noteq> []" by auto
  then obtain w where "w \<in> set (snd_workers sys)" by (cases "snd_workers sys") auto
  with assms(1) e have "se_queue (snd_shared sys) = []" by (auto simp: streams_inv_def)
  moreover obtain tss where t: "length tss = length bases"
      "mset (concat tss) + mset (se_queue (snd_shared sys)) = mset q"
      "\<forall>i < length bases. send_worker_ok env (bases ! i) (tss ! i) (snd_workers sys ! i)"
    using assms(1) n by (auto simp: streams_inv_def)
  moreover have "sw_phase (snd_workers sys ! i) = Ended (Ok ())" if "i < length bases" for i
    using e n that by simp
  ultimately show ?thesis
    by (intro exI [of _ tss]) (auto simp: send_worker_ok_def phase_ok_def)
qed

section \<open>Completion\<close>

lemma rounds_finish:
  assumes "0 < sv_frame_size env" and "\<forall>item \<in> set q. item_ok env item"
    and "\<forall>s \<in> set streams. out_open s"
    and "\<forall>r \<in> set rounds. is_round (length streams) r" and "\<forall>a \<in> set (concat rounds). \<exists>i. a = Go i"
    and "send_work env (send_start (length (sv_sources env)) q streams) \<le> length rounds"
  shows "await_workers (snd_workers (send_schedule env (concat rounds)
     (send_start (length (sv_sources env)) q streams))) = Some (Ok ())"
proof -
  let ?init = "send_start (length (sv_sources env)) q streams"
  let ?s = "fold (send_act env) (concat rounds) ?init"
  have "length (snd_workers ?init) = length streams" by (simp add: send_start_def)
  then have ended: "\<forall>w \<in> set (snd_workers ?s). has_ended w"
    using rounds_end [of rounds ?init env] assms(4,6) by simp
  have "connected ?init" using assms(3) by (auto simp: connected_def send_start_def worker_new_def)
  then have conn: "connected ?s" using assms(5) by (rule connected_run)
  have inv: "streams_inv env q (map out_data streams) ?s"
    by (rule send_streams.inv_run [OF send_start_streams [OF assms(1,2)]])
  have "sw_phase w = Ended (Ok ())" if w: "w \<in> set (snd_workers ?s)" for w
  proof (rule ccontr)
    assume n: "sw_phase w \<noteq> Ended (Ok ())"
    obtain r where r: "sw_phase w = Ended r" using ended w by (auto simp: has_ended_def)
    with n obtain e where "sw_phase w = Ended (Err e)" by (cases r) auto
    moreover obtain base ts where "send_worker_ok env base ts w"
      using inv w by (auto simp: streams_inv_def in_set_conv_nth)
    ultimately have "\<not> out_open (sw_out w)" by (auto simp: send_worker_ok_def phase_ok_def)
    with conn w n show False by (simp add: connected_def)
  qed
  then show ?thesis by (simp add: await_workers_Ok send_schedule_def)
qed

section \<open>A sample session\<close>

definition small_layout :: chunk_layout where
  "small_layout = \<lparr>cl_file_size = 3, cl_chunk_size = MIN_CHUNK_SIZE, cl_count = 1\<rparr>"

definition small_source :: source_file where
  "small_source = \<lparr>sf_map = [1, 2, 3], sf_layout = small_layout, sf_page_size = 4096\<rparr>"

definition small_env :: "bool \<Rightarrow> send_env" where
  "small_env rel = \<lparr>sv_sources = [small_source], sv_frame_size = 2, sv_release_pages = rel, sv_to_send = 3\<rparr>"

definition small_item :: work_item where
  "small_item = \<lparr>wi_file_index = 0, wi_chunk_index = 0\<rparr>"

definition open_stream :: out_stream where
  "open_stream = \<lparr>out_data = [], out_open = True\<rparr>"

lemma small_layout_ok: "layout_ok small_layout"
proof -
  have "layout_new 3 MIN_CHUNK_SIZE = Ok small_layout" unfolding small_layout_def by code_simp
  then show ?thesis using layout_new_ok by blast
qed

lemma small_source_ok: "source_ok small_source"
  using small_layout_ok by (simp add: source_ok_def small_source_def) (simp add: small_layout_def)

lemma small_item_ok: "item_ok (small_env rel) small_item"
  using small_source_ok
  by (simp add: item_ok_def item_source_def small_env_def small_item_def)
    (simp add: small_source_def small_layout_def)

section \<open>Properties\<close>

text \<open>
  C6: whatever the schedule and whichever connections are lost on the way, when every stream worker has
  ended without an error, every queued chunk went out exactly once: stream \<open>i\<close> carries, after what it
  carried before, the complete frames of the chunks in \<open>tss ! i\<close>, and these lists together are a
  permutation of the queue.
\<close>

theorem sent_exactly_once:
  assumes "0 < sv_frame_size env" and "\<forall>item \<in> set q. item_ok env item" and "streams \<noteq> []"
    and "sys = send_schedule env as (send_start (length (sv_sources env)) q streams)"
    and "await_workers (snd_workers sys) = Some (Ok ())"
  shows "\<exists>tss. length tss = length streams \<and> mset (concat tss) = mset q
     \<and> (\<forall>i < length streams. out_data (sw_out (snd_workers sys ! i)) = out_data (streams ! i) @ items_bytes env (tss ! i))"
proof -
  have "streams_inv env q (map out_data streams) sys"
    unfolding assms(4) send_schedule_def
    by (rule send_streams.inv_run [OF send_start_streams [OF assms(1,2)]])
  from streams_complete [OF this assms(5)] assms(3) show ?thesis
    by (auto cong: conj_cong)
qed

theorem sent_exactly_once_witness:
  "\<exists>tss. mset (concat tss) = {#small_item#}
     \<and> out_data (sw_out (snd_workers (send_schedule (small_env False) (concat (replicate 10 [Go 0]))
         (send_start 1 [small_item] [open_stream])) ! 0)) = items_bytes (small_env False) (tss ! 0)"
proof -
  let ?sys = "send_schedule (small_env False) (concat (replicate 10 [Go 0]))
      (send_start (length (sv_sources (small_env False))) [small_item] [open_stream])"
  have f: "0 < sv_frame_size (small_env False)" by (simp add: small_env_def)
  have it: "\<forall>item \<in> set [small_item]. item_ok (small_env False) item" using small_item_ok by simp
  have "send_work (small_env False) (send_start 1 [small_item] [open_stream]) = 10" by code_simp
  then have "await_workers (snd_workers ?sys) = Some (Ok ())"
    using f it by (intro rounds_finish) (auto simp: open_stream_def small_env_def is_round_def)
  from sent_exactly_once [OF f it _ refl this] show ?thesis
    by (auto simp: open_stream_def small_env_def)
qed

text \<open>
  C8: pages are released only behind every reader: at every moment of every schedule, the byte ranges
  released of a file start at 0, each starts where the previous one ended, they stay within the file,
  and they end at or before the first byte of every chunk of the file that is still queued or that a
  worker has in hand.
\<close>

theorem release_behind_readers:
  assumes "sv_release_pages env" and "ascending q" and "\<forall>item \<in> set q. item_ok env item"
    and "\<forall>src \<in> set (sv_sources env). source_ok src"
    and "sys = send_schedule env as (send_start (length (sv_sources env)) q streams)"
    and "f < length (sv_sources env)"
  shows "\<exists>b. contiguous_from 0 (file_ranges f (se_released (snd_shared sys))) b
     \<and> unat b \<le> fsize (sf_layout (sv_sources env ! f))
     \<and> (\<forall>item. (item \<in> set (se_queue (snd_shared sys)) \<or> (\<exists>w \<in> set (snd_workers sys). in_hand (sw_phase w) = Some item))
          \<and> wi_file_index item = f \<longrightarrow>
          unat b \<le> chunk_start (sf_layout (sv_sources env ! f)) (unat (wi_chunk_index item)))"
proof -
  let ?c = "se_cursors (snd_shared sys) ! f" and ?l = "sf_layout (sv_sources env ! f)"
  have inv: "cursors_inv env sys"
    unfolding assms(5) send_schedule_def by (rule send_cursors.inv_run [OF send_start_cursors [OF assms(1-4)]])
  then have c: "cursor_ok ?l ?c (file_ranges f (se_released (snd_shared sys)))"
    using assms(6) by (simp add: cursors_inv_def shared_cursors_ok_def)
  have queued: "unat (rc_released_to ?c) \<le> chunk_start ?l (unat (wi_chunk_index item))"
    if "item \<in> set (se_queue (snd_shared sys))" "wi_file_index item = f" for item
  proof -
    have "unat (rc_next_dispatch ?c) \<le> unat (wi_chunk_index item)"
      using inv that by (auto simp: cursors_inv_def shared_cursors_ok_def word_le_nat_alt)
    then have "chunk_start ?l (unat (rc_next_dispatch ?c)) \<le> chunk_start ?l (unat (wi_chunk_index item))"
      by (rule chunk_start_mono)
    with c show ?thesis by (auto simp: cursor_ok_def)
  qed
  have held: "unat (rc_released_to ?c) \<le> chunk_start ?l (unat (wi_chunk_index item))"
    if "w \<in> set (snd_workers sys)" "in_hand (sw_phase w) = Some item" "wi_file_index item = f" for w item
  proof -
    obtain i where "i < length (snd_workers sys)" "w = snd_workers sys ! i" using \<open>w \<in> _\<close> by (metis in_set_conv_nth)
    then have "holds env (snd_shared sys) item" using inv that(2) by (simp add: cursors_inv_def)
    with c that(3) show ?thesis by (auto simp: holds_def cursor_ok_def)
  qed
  show ?thesis
    using c queued held by (intro exI [of _ "rc_released_to ?c"]) (auto simp: cursor_ok_def)
qed

theorem release_behind_readers_witness:
  "\<exists>b. in_hand (sw_phase (snd_workers (send_schedule (small_env True) [Go 0]
         (send_start 1 [small_item] [open_stream])) ! 0)) = Some small_item
     \<and> contiguous_from 0 (file_ranges 0 (se_released (snd_shared (send_schedule (small_env True) [Go 0]
         (send_start 1 [small_item] [open_stream]))))) b
     \<and> unat b \<le> chunk_start small_layout 0"
proof -
  let ?sys = "send_schedule (small_env True) [Go 0]
      (send_start (length (sv_sources (small_env True))) [small_item] [open_stream])"
  have p: "snd_workers ?sys = [(worker_new open_stream)\<lparr>sw_phase := Starting small_item\<rparr>]"
    by (simp add: send_schedule_def send_act_def send_step_def do_take_def send_start_def worker_new_def
        small_item_def small_env_def Let_def)
  have it: "\<forall>item \<in> set [small_item]. item_ok (small_env True) item" using small_item_ok by simp
  have "\<exists>b. contiguous_from 0 (file_ranges 0 (se_released (snd_shared ?sys))) b
     \<and> unat b \<le> fsize (sf_layout (sv_sources (small_env True) ! 0))
     \<and> (\<forall>item. (item \<in> set (se_queue (snd_shared ?sys)) \<or> (\<exists>w \<in> set (snd_workers ?sys). in_hand (sw_phase w) = Some item))
          \<and> wi_file_index item = 0 \<longrightarrow>
          unat b \<le> chunk_start (sf_layout (sv_sources (small_env True) ! 0)) (unat (wi_chunk_index item)))"
    by (rule release_behind_readers [OF _ _ it _ refl])
      (use small_source_ok in \<open>simp_all add: small_env_def ascending_def\<close>)
  then obtain b where b: "contiguous_from 0 (file_ranges 0 (se_released (snd_shared ?sys))) b"
    "\<And>item. (\<exists>w \<in> set (snd_workers ?sys). in_hand (sw_phase w) = Some item) \<Longrightarrow> wi_file_index item = 0 \<Longrightarrow>
       unat b \<le> chunk_start (sf_layout (sv_sources (small_env True) ! 0)) (unat (wi_chunk_index item))"
    by blast
  have l: "sf_layout (sv_sources (small_env True) ! 0) = small_layout"
      "length (sv_sources (small_env True)) = 1" "unat (wi_chunk_index small_item) = 0" "wi_file_index small_item = 0"
    by (simp_all add: small_env_def small_source_def small_item_def)
  have "unat b \<le> chunk_start small_layout 0"
    using b(2) [of small_item] p unfolding l by simp
  with b(1) p show ?thesis unfolding l by (intro exI [of _ b]) simp
qed



text \<open>The bit for a chunk in the bytes the receiver sent for a file; none is set when it sent none.\<close>

definition reported :: "manifest_accept \<Rightarrow> file_entry \<Rightarrow> nat \<Rightarrow> bool" where
  "reported accept entry i \<longleftrightarrow>
     (case find (\<lambda>p. fp_file_id p = fe_file_id entry) (ma_progress accept) of
        Some p \<Rightarrow> bit (fp_have_bitmap p ! (i div 8)) (i mod 8)
      | None \<Rightarrow> False)"

lemma peer_bitmap_bit:
  assumes "peer_bitmap accept entry l = Ok b" and "i < ccount l"
  shows "bools b ! i \<longleftrightarrow> reported accept entry i"
proof (cases "find (\<lambda>p. fp_file_id p = fe_file_id entry) (ma_progress accept)")
  case None
  with assms show ?thesis by (auto simp: peer_bitmap_def reported_def bools_new)
next
  case (Some p)
  with assms(1) have "bitmap_ok b" "bm_bits b = fp_have_bitmap p" "bm_count b = cl_count l"
    by (auto simp: peer_bitmap_def bitmap_from_bytes_Ok)
  with assms(2) count_le_bits [of b] Some show ?thesis
    by (simp add: bools_def nth_bit_list reported_def)
qed

text \<open>
  C9: the work queue is exactly what the receiver still needs: for every file it accepted, the chunks
  whose bit is not set in the bitmap it reported (all of them when it reported none), each once and in
  ascending order, and nothing of a file it did not accept; the number of bytes to send is the sum of the
  lengths of these chunks.
\<close>

theorem work_queue_exact:
  assumes "open_sources os blake3 config fs 0 files = Ok (srcs, entries)"
    and "\<forall>f \<in> set files. \<forall>c. fs (of_path f) = Some c \<longrightarrow> length c < 2 ^ 64"
    and "build_queue accept srcs 0 entries ([], 0) = Ok (q, n)"
  shows "distinct q \<and> ascending q
     \<and> (\<forall>f < length files. fe_file_id (entries ! f) \<in> set (ma_accepted_file_ids accept) \<longrightarrow>
          (\<forall>i. \<lparr>wi_file_index = f, wi_chunk_index = i\<rparr> \<in> set q \<longleftrightarrow>
             unat i < ccount (sf_layout (srcs ! f)) \<and> \<not> reported accept (entries ! f) (unat i)))
     \<and> (\<forall>item \<in> set q. wi_file_index item < length files
          \<and> fe_file_id (entries ! wi_file_index item) \<in> set (ma_accepted_file_ids accept))
     \<and> n = of_nat (\<Sum>x\<leftarrow>q. chunk_len (sf_layout (srcs ! wi_file_index x)) (unat (wi_chunk_index x)))"
proof -
  note op = open_sources_Ok [OF assms(1,2)]
  have src: "source_ok (srcs ! k)" if "k < length files" for k using op(3) [OF that] by blast
  then have ok: "\<forall>src \<in> set srcs. source_ok src" using op(1) by (metis in_set_conv_nth)
  define env :: send_env where "env = \<lparr>sv_sources = srcs, sv_frame_size = 0, sv_release_pages = False, sv_to_send = 0\<rparr>"
  have e: "sv_sources env = srcs" by (simp add: env_def)
  have len: "length srcs = length entries" using op(1,2) by simp
  note b = build_queue_spec [OF assms(3) len ok e]
  have "n = of_nat (\<Sum>x\<leftarrow>q. chunk_len (sf_layout (srcs ! wi_file_index x)) (unat (wi_chunk_index x)))"
    using build_queue_bytes [OF assms(3)] src op(1) len by (auto simp: source_ok_def)
  moreover have "wi_file_index item < length files" if "item \<in> set q" for item
    using b(3) that op(1) by (auto simp: item_ok_def e)
  moreover have "\<forall>i. \<lparr>wi_file_index = f, wi_chunk_index = i\<rparr> \<in> set q \<longleftrightarrow>
      unat i < ccount (sf_layout (srcs ! f)) \<and> \<not> reported accept (entries ! f) (unat i)"
    if f: "f < length files" "fe_file_id (entries ! f) \<in> set (ma_accepted_file_ids accept)" for f
  proof -
    from b f op(2) obtain hb where h: "peer_bitmap accept (entries ! f) (sf_layout (srcs ! f)) = Ok hb"
      "\<forall>i. \<lparr>wi_file_index = f, wi_chunk_index = i\<rparr> \<in> set q \<longleftrightarrow>
         unat i < ccount (sf_layout (srcs ! f)) \<and> \<not> bools hb ! unat i" by auto
    with peer_bitmap_bit [OF h(1)] show ?thesis by auto
  qed
  ultimately show ?thesis using b op(2) by simp
qed

definition small_config :: config where
  "small_config = config_default\<lparr>cfg_stream_count := 1, cfg_chunk_size := MIN_CHUNK_SIZE, cfg_frame_size := 2\<rparr>"

definition small_file :: outgoing_file where
  "small_file = \<lparr>of_path = [''a''], of_relative_path = ''f'', of_mime_type = []\<rparr>"

definition small_accept :: manifest_accept where
  "small_accept = \<lparr>ma_accepted_file_ids = [0], ma_progress = []\<rparr>"

lemma small_open:
  "open_sources quiet_os blake3 small_config [[''a''] \<mapsto> [1, 2, 3]] 0 [small_file] =
     Ok ([small_source], [make_entry blake3 0 small_file small_source
       (map (blake3 \<circ> chunk_of small_layout [1, 2, 3]) [0..<1])])"
proof -
  have "layout_new 3 MIN_CHUNK_SIZE = Ok small_layout" unfolding small_layout_def by code_simp
  then have "source_open quiet_os [[''a''] \<mapsto> [1, 2, 3]] [''a''] MIN_CHUNK_SIZE = Ok small_source"
    by (simp add: source_open_def quiet_os_def small_source_def page_size_def)
  moreover have "sf_layout small_source = small_layout" "sf_map small_source = [1, 2, 3]" "ccount small_layout = 1"
    by (simp_all add: small_source_def small_layout_def)
  then obtain rel where "chunk_hashes blake3 small_source (cfg_release_read_pages small_config) =
      Ok (map (blake3 \<circ> chunk_of small_layout [1, 2, 3]) [0..<1], rel)"
    using chunk_hashes_spec [OF small_source_ok, of blake3 "cfg_release_read_pages small_config"] by metis
  ultimately show ?thesis by (simp add: small_config_def small_file_def)
qed

lemma small_queue:
  "build_queue small_accept [small_source] 0 [make_entry blake3 0 small_file small_source hs] ([], 0) =
     Ok ([small_item], 3)"
proof -
  have "concat (map index_range (missing_ranges (bitmap_new 1))) = [0]" by code_simp
  moreover have "layout_range small_layout 0 = Ok (0, 3)" unfolding small_layout_def by code_simp
  moreover have "cl_count small_layout = 1" by (simp add: small_layout_def)
  ultimately show ?thesis
    by (simp add: make_entry_def small_accept_def small_source_def peer_bitmap_def small_item_def Let_def)
qed

theorem work_queue_exact_witness:
  "\<exists>srcs entries. open_sources quiet_os (\<lambda>b. b) small_config [[''a''] \<mapsto> [1, 2, 3]] 0 [small_file] = Ok (srcs, entries)
     \<and> build_queue small_accept srcs 0 entries ([], 0) = Ok ([small_item], 3)
     \<and> ascending [small_item]
     \<and> (3 :: u64) = of_nat (\<Sum>x\<leftarrow>[small_item]. chunk_len (sf_layout (srcs ! wi_file_index x)) (unat (wi_chunk_index x)))"
proof -
  have h: "\<forall>f \<in> set [small_file]. \<forall>c. ([[''a''] \<mapsto> [1, 2, 3]] :: fs) (of_path f) = Some c \<longrightarrow> length c < 2 ^ 64"
    by (simp add: small_file_def)
  from work_queue_exact [OF small_open h small_queue] small_open small_queue show ?thesis by blast
qed

end
