(* ===== verification/Session.thy ===== *)
theory Session
  imports Complex_Main Secure_Link Sender
begin

text \<open>
  The session object of the foreign-function layer: \<open>aetherlink-ffi/src/lib.rs\<close>.  The session is a
  record with the flag \<open>running\<close>, the last announced state, the handle of the last spawned task, the
  tasks themselves and the list of notifications the observer received.  The exported methods are
  functions on it; the runtime's tasks are phases that an inductive step relation interleaves with the
  calls.  A call is one step here, as for an application that issues them from one thread; the theory
  \<open>Session_Threads\<close> takes calls apart and lets them overlap.  Rates are
  exact rationals where the code has \<open>f64\<close>; error messages are the error values they render.
\<close>

section \<open>Configuration\<close>

record transfer_config =
  tc_stream_count :: u8
  tc_frame_size_bytes :: u32
  tc_chunk_size_bytes :: u32
  tc_max_streams :: u8
  tc_max_file_bytes :: u64
  tc_resume :: bool
  tc_checkpoint_bytes :: u64
  tc_bound_interface_index :: u32
  tc_socket_send_buffer_bytes :: u32
  tc_socket_recv_buffer_bytes :: u32
  tc_release_read_pages :: bool

definition transfer_config_default :: transfer_config where
  "transfer_config_default = \<lparr>
     tc_stream_count = 0,
     tc_frame_size_bytes = 262144,
     tc_chunk_size_bytes = 4 * 1024 * 1024,
     tc_max_streams = 32,
     tc_max_file_bytes = push_bit 40 2,
     tc_resume = True,
     tc_checkpoint_bytes = 64 * 1024 * 1024,
     tc_bound_interface_index = 0,
     tc_socket_send_buffer_bytes = 0,
     tc_socket_recv_buffer_bytes = 0,
     tc_release_read_pages = True\<rparr>"

text \<open>The argument is \<open>available_parallelism()\<close>: \<open>None\<close> when the platform cannot tell.\<close>

definition default_stream_count :: "nat option \<Rightarrow> u8" where
  "default_stream_count parallelism =
     (let cores = (case parallelism of Some n \<Rightarrow> n | None \<Rightarrow> 4) in
      of_nat (if cores < 2 then 2 else if 8 < cores then 8 else cores))"

definition resolve :: "nat option \<Rightarrow> transfer_config \<Rightarrow> config" where
  "resolve parallelism c = \<lparr>
     cfg_stream_count =
       (if tc_stream_count c = 0 then default_stream_count parallelism else tc_stream_count c),
     cfg_frame_size = tc_frame_size_bytes c,
     cfg_chunk_size = tc_chunk_size_bytes c,
     cfg_max_streams = tc_max_streams c,
     cfg_max_file_bytes = tc_max_file_bytes c,
     cfg_resume = tc_resume c,
     cfg_checkpoint_bytes = tc_checkpoint_bytes c,
     cfg_bound_interface_index = tc_bound_interface_index c,
     cfg_socket_send_buffer_bytes = tc_socket_send_buffer_bytes c,
     cfg_socket_recv_buffer_bytes = tc_socket_recv_buffer_bytes c,
     cfg_release_read_pages = tc_release_read_pages c\<rparr>"

section \<open>Values that cross the boundary\<close>

record file_item =
  fi_path :: string
  fi_relative_path :: string
  fi_mime_type :: string

record host_handle =
  hh_port :: u16
  hh_fingerprint_hex :: string

datatype session_state = Idle | Listening | Transferring | Completed | Failed_State | Cancelled

datatype engine_error =
    Busy
  | BadFingerprint msg_text
  | Engine_Error core_error
  | Engine_Text string

definition to_outgoing :: "file_item list \<Rightarrow> outgoing_file list" where
  "to_outgoing files =
     map (\<lambda>f. \<lparr>of_path = path_join [] (fi_path f), of_relative_path = fi_relative_path f,
                of_mime_type = fi_mime_type f\<rparr>) files"

text \<open>
  Strings are their UTF-8 bytes.  Slicing a string inside a character panics: an index is a boundary
  when the byte there does not continue a character.
\<close>

definition is_char_boundary :: "string \<Rightarrow> nat \<Rightarrow> bool" where
  "is_char_boundary s i \<longleftrightarrow> i = 0 \<or> i = length s \<or>
     (i < length s \<and> \<not> (128 \<le> (of_char (s ! i) :: nat) \<and> (of_char (s ! i) :: nat) < 192))"

definition to_digit16 :: "char \<Rightarrow> nat option" where
  "to_digit16 c =
     (let n = (of_char c :: nat) in
      if 48 \<le> n \<and> n \<le> 57 then Some (n - 48)
      else if 97 \<le> n \<and> n \<le> 102 then Some (n - 87)
      else if 65 \<le> n \<and> n \<le> 70 then Some (n - 55)
      else None)"

text \<open>
  \<open>u8::from_str_radix(s, 16)\<close>: one leading plus sign is skipped, a lone sign is no number, and a value
  past 255 is an overflow.
\<close>

fun radix16_digits :: "string \<Rightarrow> nat \<Rightarrow> nat option" where
  "radix16_digits [] acc = Some acc"
| "radix16_digits (c # cs) acc =
     (case to_digit16 c of
        None \<Rightarrow> None
      | Some d \<Rightarrow> if 255 < acc * 16 + d then None else radix16_digits cs (acc * 16 + d))"

definition u8_from_str_radix16 :: "string \<Rightarrow> u8 option" where
  "u8_from_str_radix16 s =
     (if s = [] \<or> s = ''+'' \<or> s = ''-'' then None
      else map_option of_nat (radix16_digits (if hd s = CHR ''+'' then tl s else s) 0))"

text \<open>The loop of \<open>parse_fingerprint\<close> over the byte positions: \<open>None\<close> is a panic, an error is a position.\<close>

fun parse_hex_at :: "string \<Rightarrow> nat list \<Rightarrow> (bytes, nat) result option" where
  "parse_hex_at hex [] = Some (Ok [])"
| "parse_hex_at hex (i # is) =
     (if \<not> (is_char_boundary hex (i * 2) \<and> is_char_boundary hex (i * 2 + 2)) then None
      else case u8_from_str_radix16 (sub_slice hex (i * 2) (i * 2 + 2)) of
        None \<Rightarrow> Some (Err (i * 2))
      | Some b \<Rightarrow>
        (case parse_hex_at hex is of
           None \<Rightarrow> None
         | Some (Err p) \<Rightarrow> Some (Err p)
         | Some (Ok bs) \<Rightarrow> Some (Ok (b # bs))))"

definition parse_fingerprint :: "string \<Rightarrow> (fingerprint, engine_error) result option" where
  "parse_fingerprint hex =
     (if length hex \<noteq> 64
      then Some (Err (BadFingerprint (Fmt ''expected 64 hex characters, got {}'' [TNum (length hex)])))
      else case parse_hex_at hex [0..<32] of
        None \<Rightarrow> None
      | Some (Err p) \<Rightarrow> Some (Err (BadFingerprint (Fmt ''bad hex at position {}'' [TNum p])))
      | Some (Ok out) \<Rightarrow> Some (Ok out))"

fun decimal :: "nat \<Rightarrow> string" where
  "decimal n = (if n < 10 then [char_of (48 + n)] else decimal (n div 10) @ [char_of (48 + n mod 10)])"

declare decimal.simps [simp del]

definition protocol_version :: u8 where
  "protocol_version = PROTOCOL_VERSION"

section \<open>The observer\<close>

datatype notification =
    State_Changed session_state
  | On_Progress u64 u64 rat
  | On_File_Completed path
  | On_Finished u64 u64
  | On_Error core_error

text \<open>\<open>ObserverBridge\<close>; times are in microseconds since \<open>started\<close>.\<close>

fun bridge :: "nat \<Rightarrow> event \<Rightarrow> notification" where
  "bridge elapsed (Progress bytes_done bytes_total) =
     (let secs = of_nat elapsed / 1000000;
          mbps = (if secs > 0 then (of_nat (unat bytes_done) / 1000000) / secs else 0) in
      On_Progress bytes_done bytes_total mbps)"
| "bridge elapsed (FileCompleted file_id p) = On_File_Completed p"

definition megabytes_per_second :: "transfer_stats \<Rightarrow> rat" where
  "megabytes_per_second s =
     (let secs = of_nat (ts_elapsed_micros s) / 1000000 in
      if secs \<le> 0 then 0 else (of_nat (unat (ts_bytes s)) / 1000000) / secs)"

definition megabits_per_second :: "transfer_stats \<Rightarrow> rat" where
  "megabits_per_second s = megabytes_per_second s * 8"

section \<open>The session\<close>

type_synonym listener = nat

text \<open>The future that \<open>spawn\<close> runs, by the entry point it calls.\<close>

datatype transfer_job =
    Receive_As_Host listener host_identity path config
  | Send_As_Host listener host_identity "outgoing_file list" config
  | Send_To string fingerprint "outgoing_file list" config
  | Receive_From string fingerprint path config

datatype outcome = Finished transfer_stats | Broke core_error

text \<open>
  A task works until its future resolves; then, in the same poll, the reporter hands the slot back,
  announces the state and tells the outcome.  An abort takes effect only while the task works.
\<close>

datatype task_phase =
    Working
  | Resolved outcome
  | Released outcome
  | Announced outcome
  | Ended outcome
  | Aborted

record task =
  t_job :: transfer_job
  t_sink :: throttled
  t_phase :: task_phase
  t_abort :: bool

record engine_session =
  es_config :: transfer_config
  es_state :: session_state
  es_running :: bool
  es_task :: "nat option"
  es_tasks :: "task list"
  es_log :: "notification list"

definition session_start :: "transfer_config \<Rightarrow> engine_session" where
  "session_start config = \<lparr>es_config = config, es_state = Idle, es_running = False, es_task = None,
     es_tasks = [], es_log = []\<rparr>"

text \<open>\<open>runtime_ok\<close> is whether the Tokio runtime starts with that many worker threads.\<close>

definition engine_session_new ::
    "(u8 \<Rightarrow> bool) \<Rightarrow> nat option \<Rightarrow> transfer_config \<Rightarrow> (engine_session, engine_error) result" where
  "engine_session_new runtime_ok parallelism config =
     (if runtime_ok (default_stream_count parallelism) then Ok (session_start config)
      else Err (Engine_Text ''starting runtime: {e}''))"

definition claim :: "engine_session \<Rightarrow> (unit, engine_error) result \<times> engine_session" where
  "claim s = (if es_running s then (Err Busy, s) else (Ok (), s\<lparr>es_running := True\<rparr>))"

definition set_state :: "session_state \<Rightarrow> engine_session \<Rightarrow> engine_session" where
  "set_state st s = s\<lparr>es_state := st, es_log := es_log s @ [State_Changed st]\<rparr>"

definition sink :: throttled where
  "sink = throttled_new DEFAULT_INTERVAL"

definition spawn :: "transfer_job \<Rightarrow> engine_session \<Rightarrow> engine_session" where
  "spawn job s = s\<lparr>
     es_tasks := es_tasks s @ [\<lparr>t_job = job, t_sink = sink, t_phase = Working, t_abort = False\<rparr>],
     es_task := Some (length (es_tasks s))\<rparr>"

record host_env =
  he_tls :: tls_env
  he_blake3 :: "bytes \<Rightarrow> hash"
  he_bind :: "u16 \<Rightarrow> listener option"
  he_local_port :: "listener \<Rightarrow> u16 option"
  he_parallelism :: "nat option"

definition recv_bind :: "host_env \<Rightarrow> u16 \<Rightarrow> (listener, core_error) result" where
  "recv_bind he port =
     (case he_bind he port of
        None \<Rightarrow> Err (Io (Fmt ''binding port {port}: {e}'' [TNum (unat port)]))
      | Some l \<Rightarrow> Ok l)"

text \<open>What \<open>bind_host\<close> does once it holds the slot: only a failed bind hands it back.\<close>

definition bind_claimed ::
    "host_env \<Rightarrow> u16 \<Rightarrow> engine_session
     \<Rightarrow> (host_handle \<times> listener \<times> host_identity, engine_error) result \<times> engine_session" where
  "bind_claimed he port s =
     (case host_identity_generate (he_tls he) (he_blake3 he) of
        Err e \<Rightarrow> (Err (Engine_Error e), s)
      | Ok identity \<Rightarrow>
      case recv_bind he port of
        Err e \<Rightarrow> (Err (Engine_Error e), s\<lparr>es_running := False\<rparr>)
      | Ok l \<Rightarrow>
      case he_local_port he l of
        None \<Rightarrow> (Err (Engine_Text ''reading bound port: {e}''), s)
      | Some bound_port \<Rightarrow>
        (Ok (\<lparr>hh_port = bound_port, hh_fingerprint_hex = fingerprint_hex identity\<rparr>, l, identity), s))"

definition bind_host ::
    "host_env \<Rightarrow> u16 \<Rightarrow> engine_session
     \<Rightarrow> (host_handle \<times> listener \<times> host_identity, engine_error) result \<times> engine_session" where
  "bind_host he port s =
     (case claim s of
        (Err e, s1) \<Rightarrow> (Err e, s1)
      | (Ok _, s1) \<Rightarrow> bind_claimed he port s1)"

definition start_host_receiving ::
    "host_env \<Rightarrow> u16 \<Rightarrow> string \<Rightarrow> engine_session \<Rightarrow> (host_handle, engine_error) result \<times> engine_session" where
  "start_host_receiving he port output_dir s =
     (case bind_host he port s of
        (Err e, s1) \<Rightarrow> (Err e, s1)
      | (Ok (handle, l, identity), s1) \<Rightarrow>
        let config = resolve (he_parallelism he) (es_config s1); out = path_join [] output_dir in
        (Ok handle, spawn (Receive_As_Host l identity out config) (set_state Listening s1)))"

definition start_host_sending ::
    "host_env \<Rightarrow> u16 \<Rightarrow> file_item list \<Rightarrow> engine_session \<Rightarrow> (host_handle, engine_error) result \<times> engine_session" where
  "start_host_sending he port files s =
     (case bind_host he port s of
        (Err e, s1) \<Rightarrow> (Err e, s1)
      | (Ok (handle, l, identity), s1) \<Rightarrow>
        let config = resolve (he_parallelism he) (es_config s1) in
        (Ok handle, spawn (Send_As_Host l identity (to_outgoing files) config) (set_state Listening s1)))"

definition start_client_sending ::
    "host_env \<Rightarrow> string \<Rightarrow> u16 \<Rightarrow> string \<Rightarrow> file_item list \<Rightarrow> engine_session
     \<Rightarrow> (unit, engine_error) result option \<times> engine_session" where
  "start_client_sending he host_ip port hex files s =
     (case parse_fingerprint hex of
        None \<Rightarrow> (None, s)
      | Some (Err e) \<Rightarrow> (Some (Err e), s)
      | Some (Ok pinned) \<Rightarrow>
      case claim s of
        (Err e, s1) \<Rightarrow> (Some (Err e), s1)
      | (Ok _, s1) \<Rightarrow>
        let addr = host_ip @ '':'' @ decimal (unat port);
            config = resolve (he_parallelism he) (es_config s1) in
        (Some (Ok ()), spawn (Send_To addr pinned (to_outgoing files) config) (set_state Transferring s1)))"

definition start_client_receiving ::
    "host_env \<Rightarrow> string \<Rightarrow> u16 \<Rightarrow> string \<Rightarrow> string \<Rightarrow> engine_session
     \<Rightarrow> (unit, engine_error) result option \<times> engine_session" where
  "start_client_receiving he host_ip port hex output_dir s =
     (case parse_fingerprint hex of
        None \<Rightarrow> (None, s)
      | Some (Err e) \<Rightarrow> (Some (Err e), s)
      | Some (Ok pinned) \<Rightarrow>
      case claim s of
        (Err e, s1) \<Rightarrow> (Some (Err e), s1)
      | (Ok _, s1) \<Rightarrow>
        let addr = host_ip @ '':'' @ decimal (unat port);
            config = resolve (he_parallelism he) (es_config s1); out = path_join [] output_dir in
        (Some (Ok ()), spawn (Receive_From addr pinned out config) (set_state Transferring s1)))"

definition abort_stored :: "engine_session \<Rightarrow> engine_session" where
  "abort_stored s =
     (case es_task s of
        None \<Rightarrow> s
      | Some i \<Rightarrow> s\<lparr>es_task := None, es_tasks := (es_tasks s)[i := (es_tasks s ! i)\<lparr>t_abort := True\<rparr>]\<rparr>)"

definition cancel :: "engine_session \<Rightarrow> engine_session" where
  "cancel s =
     (let s1 = abort_stored s in
      if es_running s1 then set_state Cancelled (s1\<lparr>es_running := False\<rparr>) else s1)"

definition resolved_stream_count :: "nat option \<Rightarrow> engine_session \<Rightarrow> u8" where
  "resolved_stream_count parallelism s = cfg_stream_count (resolve parallelism (es_config s))"

section \<open>Calls and tasks interleaved\<close>

text \<open>\<open>Reporter::finished\<close> and \<open>Reporter::failed\<close>: what they announce and what they tell.\<close>

fun reported_state :: "outcome \<Rightarrow> session_state" where
  "reported_state (Finished stats) = Completed"
| "reported_state (Broke e) = Failed_State"

fun reported_outcome :: "outcome \<Rightarrow> notification" where
  "reported_outcome (Finished stats) = On_Finished (ts_bytes stats) (of_nat (ts_elapsed_micros stats div 1000))"
| "reported_outcome (Broke e) = On_Error e"

definition set_phase :: "nat \<Rightarrow> task_phase \<Rightarrow> engine_session \<Rightarrow> engine_session" where
  "set_phase i ph s = s\<lparr>es_tasks := (es_tasks s)[i := (es_tasks s ! i)\<lparr>t_phase := ph\<rparr>]\<rparr>"

definition notify :: "notification list \<Rightarrow> engine_session \<Rightarrow> engine_session" where
  "notify ns s = s\<lparr>es_log := es_log s @ ns\<rparr>"

text \<open>A report of a working task, through its rate limiter and the bridge.\<close>

definition sink_call :: "nat \<Rightarrow> u64 \<Rightarrow> nat \<Rightarrow> event \<Rightarrow> engine_session \<Rightarrow> engine_session" where
  "sink_call i now elapsed e s =
     (let t = es_tasks s ! i; th = throttled_call (now, e) (t_sink t);
          fresh = drop (length (th_out (t_sink t))) (th_out th) in
      notify (map (bridge elapsed) fresh) (s\<lparr>es_tasks := (es_tasks s)[i := t\<lparr>t_sink := th\<rparr>]\<rparr>))"

datatype api_call =
    Host_Receiving u16 string
  | Host_Sending u16 "file_item list"
  | Client_Sending string u16 string "file_item list"
  | Client_Receiving string u16 string string
  | Cancel_Call

datatype reply = Handle host_handle | Accepted_Call | Refused engine_error | Panicked | Cancel_Returned

fun reply_of :: "(host_handle, engine_error) result \<Rightarrow> reply" where
  "reply_of (Ok h) = Handle h"
| "reply_of (Err e) = Refused e"

fun reply_of_client :: "(unit, engine_error) result option \<Rightarrow> reply" where
  "reply_of_client None = Panicked"
| "reply_of_client (Some (Err e)) = Refused e"
| "reply_of_client (Some (Ok _)) = Accepted_Call"

fun api :: "host_env \<Rightarrow> api_call \<Rightarrow> engine_session \<Rightarrow> reply \<times> engine_session" where
  "api he (Host_Receiving port dir) s = map_prod reply_of id (start_host_receiving he port dir s)"
| "api he (Host_Sending port files) s = map_prod reply_of id (start_host_sending he port files s)"
| "api he (Client_Sending ip port hex files) s =
     map_prod reply_of_client id (start_client_sending he ip port hex files s)"
| "api he (Client_Receiving ip port hex dir) s =
     map_prod reply_of_client id (start_client_receiving he ip port hex dir s)"
| "api he Cancel_Call s = (Cancel_Returned, cancel s)"

datatype session_event =
    Call host_env api_call
  | Reports nat u64 nat event
  | Resolves nat outcome
  | Releases nat
  | Announces nat
  | Tells nat
  | Drops nat

inductive session_step :: "session_event \<Rightarrow> engine_session \<Rightarrow> engine_session \<Rightarrow> bool" where
  call: "session_step (Call he c) s (snd (api he c s))"
| reports: "i < length (es_tasks s) \<Longrightarrow> t_phase (es_tasks s ! i) = Working \<Longrightarrow>
     session_step (Reports i now elapsed e) s (sink_call i now elapsed e s)"
| resolves: "i < length (es_tasks s) \<Longrightarrow> t_phase (es_tasks s ! i) = Working \<Longrightarrow>
     session_step (Resolves i out) s (set_phase i (Resolved out) s)"
| releases: "i < length (es_tasks s) \<Longrightarrow> t_phase (es_tasks s ! i) = Resolved out \<Longrightarrow>
     session_step (Releases i) s (set_phase i (Released out) (s\<lparr>es_running := False\<rparr>))"
| announces: "i < length (es_tasks s) \<Longrightarrow> t_phase (es_tasks s ! i) = Released out \<Longrightarrow>
     session_step (Announces i) s (set_phase i (Announced out) (notify [State_Changed (reported_state out)] s))"
| tells: "i < length (es_tasks s) \<Longrightarrow> t_phase (es_tasks s ! i) = Announced out \<Longrightarrow>
     session_step (Tells i) s (set_phase i (Ended out) (notify [reported_outcome out] s))"
| drops: "i < length (es_tasks s) \<Longrightarrow> t_phase (es_tasks s ! i) = Working \<Longrightarrow> t_abort (es_tasks s ! i) \<Longrightarrow>
     session_step (Drops i) s (set_phase i Aborted s)"

inductive_cases releasesE: "session_step (Releases i) s s'"
inductive_simps call_step: "session_step (Call he c) s s'"

text \<open>The states a session can get to, by events that satisfy \<open>ok\<close>.\<close>

inductive reachable :: "(session_event \<Rightarrow> engine_session \<Rightarrow> bool) \<Rightarrow> engine_session \<Rightarrow> engine_session \<Rightarrow> bool"
  for ok s0 where
  start: "reachable ok s0 s0"
| step: "reachable ok s0 s \<Longrightarrow> ok e s \<Longrightarrow> session_step e s s' \<Longrightarrow> reachable ok s0 s'"

text \<open>An invariant of the steps is an invariant of the session.\<close>

locale session_invariant =
  fixes ok :: "session_event \<Rightarrow> engine_session \<Rightarrow> bool" and inv :: "engine_session \<Rightarrow> bool"
  assumes inv_start: "inv (session_start config)"
    and inv_kept: "inv s \<Longrightarrow> ok e s \<Longrightarrow> session_step e s s' \<Longrightarrow> inv s'"
begin

lemma inv_from: "reachable ok s0 s \<Longrightarrow> inv s0 \<Longrightarrow> inv s"
  by (induction rule: reachable.induct) (auto intro: inv_kept)

lemma inv_always: "reachable ok (session_start config) s \<Longrightarrow> inv s"
  by (rule inv_from [OF _ inv_start])

end

subsection \<open>What a call does\<close>

text \<open>
  A call either starts a task on a free slot, or leaves the tasks alone; a refused host call may keep
  the slot.
\<close>

definition starts :: "session_state \<Rightarrow> transfer_job \<Rightarrow> engine_session \<Rightarrow> engine_session" where
  "starts st job s = spawn job (set_state st (s\<lparr>es_running := True\<rparr>))"

definition host_ready :: "host_env \<Rightarrow> bool" where
  "host_ready he \<longleftrightarrow> (\<exists>identity. host_identity_generate (he_tls he) (he_blake3 he) = Ok identity)
     \<and> (\<forall>port l. he_bind he port = Some l \<longrightarrow> he_local_port he l \<noteq> None)"

lemma bind_host_cases:
  obtains (bound) handle l identity where "\<not> es_running s"
      "bind_host he port s = (Ok (handle, l, identity), s\<lparr>es_running := True\<rparr>)"
  | (busy) "es_running s" "bind_host he port s = (Err Busy, s)"
  | (freed) e where "\<not> es_running s" "e \<noteq> Busy" "bind_host he port s = (Err e, s)"
  | (leaked) e where "\<not> es_running s" "e \<noteq> Busy" "\<not> host_ready he"
      "bind_host he port s = (Err e, s\<lparr>es_running := True\<rparr>)"
proof (cases "es_running s")
  case True
  then show thesis using busy by (simp add: bind_host_def bind_claimed_def claim_def)
next
  case False
  show thesis
  proof (cases "host_identity_generate (he_tls he) (he_blake3 he)")
    case (Err e)
    with False leaked [of "Engine_Error e"] show thesis
      by (simp add: bind_host_def bind_claimed_def claim_def host_ready_def)
  next
    case (Ok identity)
    show thesis
    proof (cases "he_bind he port")
      case None
      with False Ok freed show thesis by (auto simp: bind_host_def bind_claimed_def claim_def recv_bind_def)
    next
      case (Some l)
      then show thesis
        using False Ok leaked bound
        by (cases "he_local_port he l") (auto simp: bind_host_def bind_claimed_def claim_def recv_bind_def host_ready_def)
    qed
  qed
qed

lemma parse_fingerprint_cases:
  obtains (panic) "parse_fingerprint hex = None"
  | (bad) e where "parse_fingerprint hex = Some (Err e)" "e \<noteq> Busy"
  | (good) pinned where "parse_fingerprint hex = Some (Ok pinned)"
proof (cases "parse_fingerprint hex")
  case (Some r)
  show thesis
  proof (cases r)
    case (Err e)
    with Some have "e \<noteq> Busy"
      by (auto simp: parse_fingerprint_def split: option.splits result.splits if_splits)
    with Some Err show thesis by (intro bad) auto
  qed (use Some good in simp)
qed (use panic in simp)

lemma api_cases:
  obtains (started) st job where "\<not> es_running s" "st = Listening \<or> st = Transferring"
      "snd (api he c s) = starts st job s" "(\<exists>h. fst (api he c s) = Handle h) \<or> fst (api he c s) = Accepted_Call"
  | (busy) "es_running s" "api he c s = (Refused Busy, s)"
  | (unchanged) r where "api he c s = (r, s)" "r = Panicked \<or> (\<exists>e. r = Refused e \<and> e \<noteq> Busy)"
  | (leaked) e where "\<not> es_running s" "e \<noteq> Busy" "\<not> host_ready he"
      "api he c s = (Refused e, s\<lparr>es_running := True\<rparr>)"
  | (cancelled) "c = Cancel_Call" "api he c s = (Cancel_Returned, cancel s)"
proof (cases c)
  case (Host_Receiving port dir)
  then show thesis
    by (cases rule: bind_host_cases [of s he port])
      (use started busy unchanged leaked in \<open>auto simp: start_host_receiving_def starts_def Let_def\<close>)
next
  case (Host_Sending port files)
  then show thesis
    by (cases rule: bind_host_cases [of s he port])
      (use started busy unchanged leaked in \<open>auto simp: start_host_sending_def starts_def Let_def\<close>)
next
  case (Client_Sending ip port hex files)
  then show thesis
    using started busy unchanged
    by (cases hex rule: parse_fingerprint_cases; cases "es_running s")
      (auto simp: start_client_sending_def claim_def starts_def Let_def)
next
  case (Client_Receiving ip port hex dir)
  then show thesis
    using started busy unchanged
    by (cases hex rule: parse_fingerprint_cases; cases "es_running s")
      (auto simp: start_client_receiving_def claim_def starts_def Let_def)
next
  case Cancel_Call
  then show thesis using cancelled by simp
qed

section \<open>Every outcome is reported once\<close>

fun is_outcome :: "notification \<Rightarrow> bool" where
  "is_outcome (On_Finished _ _) = True"
| "is_outcome (On_Error _) = True"
| "is_outcome _ = False"

fun is_terminal :: "notification \<Rightarrow> bool" where
  "is_terminal (State_Changed st) = (st = Completed \<or> st = Failed_State)"
| "is_terminal _ = False"

definition told :: "task \<Rightarrow> notification list" where
  "told t = (case t_phase t of Ended out \<Rightarrow> [reported_outcome out] | _ \<Rightarrow> [])"

definition announced :: "task \<Rightarrow> notification list" where
  "announced t =
     (case t_phase t of
        Announced out \<Rightarrow> [State_Changed (reported_state out)]
      | Ended out \<Rightarrow> [State_Changed (reported_state out)]
      | _ \<Rightarrow> [])"

definition reports_match :: "(notification \<Rightarrow> bool) \<Rightarrow> (task \<Rightarrow> notification list) \<Rightarrow> engine_session \<Rightarrow> bool" where
  "reports_match P f s \<longleftrightarrow> mset (filter P (es_log s)) = mset (concat (map f (es_tasks s)))"

definition report_inv :: "engine_session \<Rightarrow> bool" where
  "report_inv s \<longleftrightarrow> reports_match is_outcome told s \<and> reports_match is_terminal announced s"

lemma reported_outcome_kind [simp]:
  "is_outcome (reported_outcome out)" "\<not> is_terminal (reported_outcome out)"
  by (cases out; simp)+

lemma reported_state_kind [simp]: "reported_state out = Completed \<or> reported_state out = Failed_State"
  by (cases out) auto

lemma bridge_kind [simp]: "\<not> is_outcome (bridge elapsed e)" "\<not> is_terminal (bridge elapsed e)"
  by (cases e; simp add: Let_def)+

lemma filter_bridge [simp]:
  "filter is_outcome (map (bridge elapsed) es) = []" "filter is_terminal (map (bridge elapsed) es) = []"
  by (simp_all add: filter_empty_conv)

lemma session_fields [simp]:
  "es_log (set_phase i ph s) = es_log s" "es_running (set_phase i ph s) = es_running s"
  "es_task (set_phase i ph s) = es_task s" "es_state (set_phase i ph s) = es_state s"
  "es_tasks (set_phase i ph s) = (es_tasks s)[i := (es_tasks s ! i)\<lparr>t_phase := ph\<rparr>]"
  "es_log (notify ns s) = es_log s @ ns" "es_running (notify ns s) = es_running s"
  "es_task (notify ns s) = es_task s" "es_tasks (notify ns s) = es_tasks s" "es_state (notify ns s) = es_state s"
  by (simp_all add: set_phase_def notify_def)

lemma starts_fields [simp]:
  "es_running (starts st job s)" "es_state (starts st job s) = st"
  "es_log (starts st job s) = es_log s @ [State_Changed st]" "es_task (starts st job s) = Some (length (es_tasks s))"
  "es_tasks (starts st job s) =
     es_tasks s @ [\<lparr>t_job = job, t_sink = sink, t_phase = Working, t_abort = False\<rparr>]"
  by (simp_all add: starts_def spawn_def set_state_def)

lemma sink_call_fields [simp]:
  "es_running (sink_call i now elapsed e s) = es_running s" "es_task (sink_call i now elapsed e s) = es_task s"
  "es_state (sink_call i now elapsed e s) = es_state s"
  by (simp_all add: sink_call_def Let_def)

lemma cancel_fields [simp]:
  "\<not> es_running (cancel s)" "es_task (cancel s) = None"
  "es_log (cancel s) = es_log s @ (if es_running s then [State_Changed Cancelled] else [])"
  "es_state (cancel s) = (if es_running s then Cancelled else es_state s)"
  "es_tasks (cancel s) =
     (case es_task s of None \<Rightarrow> es_tasks s
      | Some i \<Rightarrow> (es_tasks s)[i := (es_tasks s ! i)\<lparr>t_abort := True\<rparr>])"
  by (auto simp: cancel_def abort_stored_def set_state_def Let_def split: option.splits)

text \<open>A step that changes one task and adds notifications keeps the match when the two agree.\<close>

lemma reports_match_update:
  assumes "reports_match P f s" and "i < length (es_tasks s)"
    and "es_tasks s' = (es_tasks s)[i := t]" and "es_log s' = es_log s @ ns"
    and "mset (f t) = mset (f (es_tasks s ! i)) + mset (filter P ns)"
  shows "reports_match P f s'"
proof -
  have "mset (concat (map f (es_tasks s'))) + mset (f (es_tasks s ! i)) = mset (concat (map f (es_tasks s))) + mset (f t)"
    using mset_concat_update [of i "map f (es_tasks s)" "f t"] assms(2, 3) by (simp add: map_update)
  with assms(1, 4, 5) show ?thesis by (simp add: reports_match_def)
qed

lemma reports_match_same:
  assumes "reports_match P f s" and "map f (es_tasks s') = map f (es_tasks s)"
    and "es_log s' = es_log s @ ns" and "filter P ns = []"
  shows "reports_match P f s'"
  using assms by (simp add: reports_match_def)

lemma map_abort_same:
  assumes "\<And>t. f (t\<lparr>t_abort := True\<rparr>) = f t"
  shows "map f (es_tasks (cancel s)) = map f (es_tasks s)"
proof (cases "es_task s")
  case (Some i)
  then show ?thesis
    by (cases "i < length (es_tasks s)") (simp_all add: map_update assms list_update_same_conv list_update_beyond)
qed simp

lemma reports_match_call:
  assumes inv: "reports_match P f s"
    and abort: "\<And>t. f (t\<lparr>t_abort := True\<rparr>) = f t"
    and fresh: "\<And>job. f \<lparr>t_job = job, t_sink = sink, t_phase = Working, t_abort = False\<rparr> = []"
    and quiet: "\<And>st. st \<noteq> Completed \<Longrightarrow> st \<noteq> Failed_State \<Longrightarrow> \<not> P (State_Changed st)"
  shows "reports_match P f (snd (api he c s))"
proof (cases rule: api_cases [of s he c])
  case (started st job)
  then show ?thesis using inv fresh quiet [of st] by (auto simp: reports_match_def)
next
  case (leaked e)
  then show ?thesis using inv by (simp add: reports_match_def)
next
  case cancelled
  have "map f (es_tasks (cancel s)) = map f (es_tasks s)" by (rule map_abort_same) (rule abort)
  from reports_match_same [OF inv this, of "if es_running s then [State_Changed Cancelled] else []"]
  have "reports_match P f (cancel s)" using quiet [of Cancelled] by auto
  with cancelled show ?thesis by simp
qed (use inv in simp_all)

lemma report_inv_step:
  assumes "report_inv s" and "session_step e s s'"
  shows "report_inv s'"
  using assms(2)
proof cases
  case (call he c)
  then show ?thesis
    using assms(1) by (auto intro!: reports_match_call simp: report_inv_def told_def announced_def)
qed (use assms(1) in \<open>auto elim!: reports_match_update [where ns = "[]"] reports_match_update
    simp: report_inv_def sink_call_def Let_def told_def announced_def\<close>)

interpretation reporting: session_invariant "\<lambda>_ _. True" report_inv
proof
  show "report_inv (session_start config)" for config
    by (simp add: report_inv_def reports_match_def session_start_def)
qed (rule report_inv_step)

section \<open>One transfer at a time\<close>

text \<open>
  A task is live while it has neither been cancelled nor handed the slot back.  The slot is tight when
  the flag \<open>running\<close> is set exactly while a live task exists, and that task is the stored one.
\<close>

definition live :: "task \<Rightarrow> bool" where
  "live t \<longleftrightarrow> \<not> t_abort t \<and> (t_phase t = Working \<or> (\<exists>out. t_phase t = Resolved out))"

definition stored_live :: "engine_session \<Rightarrow> bool" where
  "stored_live s \<longleftrightarrow> (\<forall>i < length (es_tasks s). live (es_tasks s ! i) \<longrightarrow> es_running s \<and> es_task s = Some i)"

definition slot_tight :: "engine_session \<Rightarrow> bool" where
  "slot_tight s \<longleftrightarrow> stored_live s \<and> (es_running s \<longrightarrow> (\<exists>i < length (es_tasks s). live (es_tasks s ! i)))"

text \<open>
  A cancelled task that has already resolved still hands the slot back.  \<open>prompt\<close> leaves that out;
  \<open>prompt_ready\<close> also leaves out host calls that fail after they have claimed the slot.
\<close>

fun prompt :: "session_event \<Rightarrow> engine_session \<Rightarrow> bool" where
  "prompt (Releases i) s = (\<not> t_abort (es_tasks s ! i))"
| "prompt _ s = True"

fun prompt_ready :: "session_event \<Rightarrow> engine_session \<Rightarrow> bool" where
  "prompt_ready (Call he c) s = host_ready he"
| "prompt_ready e s = prompt e s"

text \<open>What an observer of the slot sees of a step.\<close>

datatype slot_label = Begin transfer_job | Refuse | Reject | Stop | Finish | Internal

fun label_of :: "session_event \<Rightarrow> engine_session \<Rightarrow> slot_label" where
  "label_of (Call he c) s =
     (case api he c s of
        (Refused Busy, s') \<Rightarrow> Refuse
      | (Refused _, s') \<Rightarrow> Reject
      | (Panicked, s') \<Rightarrow> Reject
      | (Cancel_Returned, s') \<Rightarrow> Stop
      | (_, s') \<Rightarrow> Begin (t_job (List.last (es_tasks s'))))"
| "label_of (Releases i) s = Finish"
| "label_of _ s = Internal"

lemma prompt_ready_prompt: "prompt_ready e s \<Longrightarrow> prompt e s"
  by (cases e) auto

lemma stored_live_idle:
  "stored_live s \<Longrightarrow> \<not> es_running s \<Longrightarrow> i < length (es_tasks s) \<Longrightarrow> \<not> live (es_tasks s ! i)"
  by (auto simp: stored_live_def)

lemma stored_live_cancel:
  assumes "stored_live s" and "i < length (es_tasks (cancel s))"
  shows "\<not> live (es_tasks (cancel s) ! i)"
proof (cases "es_task s = Some i")
  case True
  with assms(2) show ?thesis by (simp add: live_def)
next
  case False
  have n: "i < length (es_tasks s)" using assms(2) by (simp split: option.splits)
  have "es_tasks (cancel s) ! i = es_tasks s ! i"
    using False by (auto split: option.splits)
  with assms(1) n False show ?thesis by (auto simp: stored_live_def)
qed

lemma stored_live_unique:
  assumes "stored_live s" and "i < length (es_tasks s)" "live (es_tasks s ! i)"
    and "j < length (es_tasks s)" "live (es_tasks s ! j)"
  shows "j = i"
  using assms unfolding stored_live_def by (metis option.inject)

text \<open>A step that only touches task \<open>i\<close> and does not make it live keeps the property.\<close>

lemma stored_live_update:
  assumes "stored_live s" and "i < length (es_tasks s)" and "es_tasks s' = (es_tasks s)[i := t]"
    and "live t \<longrightarrow> live (es_tasks s ! i)" and "es_running s' = es_running s" "es_task s' = es_task s"
  shows "stored_live s'"
  using assms by (auto simp: stored_live_def nth_list_update)

text \<open>Every step but a call and a release touches one task and leaves what it counts for.\<close>

lemma step_kinds:
  assumes "session_step e s s'"
  obtains (call) he c where "e = Call he c" "s' = snd (api he c s)"
  | (release) i out where "e = Releases i" "i < length (es_tasks s)" "t_phase (es_tasks s ! i) = Resolved out"
      "s' = set_phase i (Released out) (s\<lparr>es_running := False\<rparr>)"
  | (quiet) i t where "i < length (es_tasks s)" "es_tasks s' = (es_tasks s)[i := t]"
      "live t \<longleftrightarrow> live (es_tasks s ! i)" "t_job t = t_job (es_tasks s ! i)"
      "es_running s' = es_running s" "es_task s' = es_task s" "label_of e s = Internal"
  using assms
proof cases
  case (reports i now elapsed e')
  then show thesis
    by (intro quiet [of i "(es_tasks s ! i)\<lparr>t_sink := throttled_call (now, e') (t_sink (es_tasks s ! i))\<rparr>"])
      (simp_all add: live_def sink_call_def Let_def)
next
  case (resolves i out)
  then show thesis by (intro quiet [of i "(es_tasks s ! i)\<lparr>t_phase := Resolved out\<rparr>"]) (simp_all add: live_def)
next
  case (announces i out)
  then show thesis by (intro quiet [of i "(es_tasks s ! i)\<lparr>t_phase := Announced out\<rparr>"]) (simp_all add: live_def)
next
  case (tells i out)
  then show thesis by (intro quiet [of i "(es_tasks s ! i)\<lparr>t_phase := Ended out\<rparr>"]) (simp_all add: live_def)
next
  case (drops i)
  then show thesis by (intro quiet [of i "(es_tasks s ! i)\<lparr>t_phase := Aborted\<rparr>"]) (simp_all add: live_def)
qed (use call release in simp_all)

lemma stored_live_call:
  assumes "stored_live s"
  shows "stored_live (snd (api he c s))"
proof (cases rule: api_cases [of s he c])
  case (started st job)
  then show ?thesis
    using stored_live_idle [OF assms] by (auto simp: stored_live_def nth_append less_Suc_eq)
next
  case (leaked e)
  then show ?thesis using stored_live_idle [OF assms] by (auto simp: stored_live_def)
next
  case cancelled
  then show ?thesis using stored_live_cancel [OF assms] by (auto simp: stored_live_def)
qed (use assms in simp_all)

lemma stored_live_step:
  assumes "stored_live s" and "prompt e s" and "session_step e s s'"
  shows "stored_live s'"
  using assms(3)
proof (cases rule: step_kinds)
  case (call he c)
  then show ?thesis using stored_live_call [OF assms(1)] by simp
next
  case (release i out)
  then have "live (es_tasks s ! i)" using assms(2) by (auto simp: live_def)
  with release(2) have only: "j < length (es_tasks s) \<Longrightarrow> live (es_tasks s ! j) \<Longrightarrow> j = i" for j
    using stored_live_unique [OF assms(1)] by blast
  have "\<not> live (es_tasks s' ! j)" if j: "j < length (es_tasks s')" for j
    using only [of j] j release(2, 4) by (cases "j = i") (auto simp: live_def)
  then show ?thesis by (simp add: stored_live_def)
next
  case (quiet i t)
  then show ?thesis by (intro stored_live_update [OF assms(1)]) auto
qed

interpretation slot: session_invariant prompt stored_live
proof
  show "stored_live (session_start config)" for config
    by (simp add: stored_live_def session_start_def)
qed (rule stored_live_step)

lemma slot_tight_stays:
  assumes "slot_tight s" and "stored_live s'" and "i < length (es_tasks s)" and "es_tasks s' = (es_tasks s)[i := t]"
    and "live (es_tasks s ! i) \<longrightarrow> live t" and "es_running s' = es_running s"
  shows "slot_tight s'"
proof -
  have "\<exists>j < length (es_tasks s'). live (es_tasks s' ! j)" if r: "es_running s"
  proof -
    from assms(1) r obtain j where "j < length (es_tasks s)" "live (es_tasks s ! j)" by (auto simp: slot_tight_def)
    with assms(4, 5) show ?thesis
      by (intro exI [of _ j], cases "j = i") (auto simp: nth_list_update)
  qed
  with assms(2, 6) show ?thesis by (simp add: slot_tight_def)
qed

lemma slot_tight_step:
  assumes "slot_tight s" and "prompt_ready e s" and "session_step e s s'"
  shows "slot_tight s'"
proof -
  have new: "stored_live s'"
    using stored_live_step [OF _ prompt_ready_prompt [OF assms(2)] assms(3)] assms(1) by (simp add: slot_tight_def)
  show ?thesis
    using assms(3)
  proof (cases rule: step_kinds)
    case (call he c)
    then have ready: "host_ready he" using assms(2) by simp
    show ?thesis
    proof (cases rule: api_cases [of s he c])
      case (started st job)
      with call new show ?thesis
        by (auto simp: slot_tight_def live_def intro!: exI [of _ "length (es_tasks s)"])
    next
      case (leaked e)
      then show ?thesis using ready by simp
    next
      case cancelled
      then show ?thesis using call new by (simp add: slot_tight_def)
    qed (use assms(1) call in simp_all)
  next
    case (release i out)
    then show ?thesis using new by (simp add: slot_tight_def)
  next
    case (quiet i t)
    then show ?thesis by (intro slot_tight_stays [OF assms(1) new]) auto
  qed
qed

interpretation tight: session_invariant prompt_ready slot_tight
proof
  show "slot_tight (session_start config)" for config
    by (simp add: slot_tight_def stored_live_def session_start_def)
qed (rule slot_tight_step)

section \<open>The slot as a specification\<close>

text \<open>
  What the session promises a caller: at most one transfer; a start is refused as busy exactly while one
  is there; cancelling and finishing empty the slot, and nothing else does.
\<close>

inductive slot_step :: "transfer_job option \<Rightarrow> slot_label \<Rightarrow> transfer_job option \<Rightarrow> bool" where
  begins: "slot_step None (Begin j) (Some j)"
| refuses: "slot_step (Some j) Refuse (Some j)"
| rejects: "slot_step x Reject x"
| stops: "slot_step x Stop None"
| finishes: "slot_step (Some j) Finish None"
| internal: "slot_step x Internal x"

definition slot_of :: "engine_session \<Rightarrow> transfer_job option" where
  "slot_of s = map_option t_job (find live (es_tasks s))"

lemma slot_of_None: "slot_of s = None \<longleftrightarrow> (\<forall>i < length (es_tasks s). \<not> live (es_tasks s ! i))"
  by (auto simp: slot_of_def find_None_iff in_set_conv_nth)

lemma slot_of_Some:
  assumes "stored_live s" and "i < length (es_tasks s)" and "live (es_tasks s ! i)"
  shows "slot_of s = Some (t_job (es_tasks s ! i))"
proof -
  obtain t where t: "find live (es_tasks s) = Some t"
    using assms(2, 3) by (metis find_None_iff nth_mem option.exhaust)
  then obtain j where "j < length (es_tasks s)" "live (es_tasks s ! j)" "t = es_tasks s ! j"
    by (auto simp: find_Some_iff)
  with assms have "j = i" using stored_live_unique by blast
  with t \<open>t = es_tasks s ! j\<close> show ?thesis by (simp add: slot_of_def)
qed

lemma slot_tight_running: "slot_tight s \<Longrightarrow> es_running s \<longleftrightarrow> slot_of s \<noteq> None"
  by (auto simp: slot_tight_def stored_live_def slot_of_None)

lemma slot_of_update:
  assumes "stored_live s" "stored_live s'" and "i < length (es_tasks s)" and "es_tasks s' = (es_tasks s)[i := t]"
    and "live t \<longleftrightarrow> live (es_tasks s ! i)" and "t_job t = t_job (es_tasks s ! i)"
  shows "slot_of s' = slot_of s"
proof (cases "slot_of s")
  case None
  then have "slot_of s' = None" unfolding slot_of_None using assms(3-5) by (auto simp: nth_list_update)
  with None show ?thesis by simp
next
  case (Some job)
  then obtain j where j: "j < length (es_tasks s)" "live (es_tasks s ! j)"
    by (metis option.distinct(1) slot_of_None)
  then have "j < length (es_tasks s')" "live (es_tasks s' ! j)" "t_job (es_tasks s' ! j) = t_job (es_tasks s ! j)"
    using assms(3-6) by (auto simp: nth_list_update)
  with slot_of_Some [OF assms(2)] slot_of_Some [OF assms(1) j] show ?thesis by simp
qed

lemma slot_simulation:
  assumes "slot_tight s" and "prompt_ready e s" and "session_step e s s'"
  shows "slot_step (slot_of s) (label_of e s) (slot_of s')"
proof -
  have sl: "stored_live s" and sl': "stored_live s'"
    using slot_tight_step [OF assms] assms(1) by (simp_all add: slot_tight_def)
  note run = slot_tight_running [OF assms(1)] slot_tight_running [OF slot_tight_step [OF assms]]
  note same = slot_of_update [OF sl sl']
  show ?thesis
    using assms(3)
  proof (cases rule: step_kinds)
    case (call he c)
    show ?thesis
    proof (cases rule: api_cases [of s he c])
      case (started st job)
      have "slot_of s' = Some job"
        using slot_of_Some [OF sl', of "length (es_tasks s)"] started(3) call by (simp add: live_def)
      moreover have "label_of e s = Begin job"
        using started(3, 4) call by (cases "api he c s") auto
      ultimately show ?thesis using run(1) started(1) by (simp add: begins)
    next
      case busy
      then show ?thesis using call run(1) by (auto intro: refuses)
    next
      case (unchanged r)
      have "label_of e s = Reject" using unchanged(2) call unchanged(1) by (auto split: engine_error.split)
      then show ?thesis using call unchanged(1) by (simp add: rejects)
    next
      case (leaked e')
      then show ?thesis using assms(2) call by simp
    next
      case cancelled
      then have "slot_of s' = None" "label_of e s = Stop" using call run(2) by simp_all
      then show ?thesis by (simp add: stops)
    qed
  next
    case (release i out)
    then have "live (es_tasks s ! i)" using assms(2) by (auto simp: live_def)
    with release have "slot_of s \<noteq> None" using slot_of_None by blast
    moreover have "slot_of s' = None" using run(2) release by simp
    ultimately show ?thesis using release by (auto intro: finishes)
  next
    case (quiet i t)
    then have "slot_of s' = slot_of s" by (intro same [of i t]) simp_all
    with quiet show ?thesis by (simp add: internal)
  qed
qed

section \<open>Fingerprints as text\<close>

lemma hex_digit_props:
  assumes "d < 16"
  shows "to_digit16 (hex_digit d) = Some d" "(of_char (hex_digit d) :: nat) < 128" "hex_digit d \<noteq> CHR ''+''"
    "hex_digit d \<noteq> CHR ''-''"
proof -
  have "d \<in> set [0..<16]" using assms by simp
  then have "to_digit16 (hex_digit d) = Some d \<and> (of_char (hex_digit d) :: nat) < 128
      \<and> hex_digit d \<noteq> CHR ''+'' \<and> hex_digit d \<noteq> CHR ''-''"
    by (auto simp: hex_digit_def to_digit16_def upt_rec [of _ 16])
  then show "to_digit16 (hex_digit d) = Some d" "(of_char (hex_digit d) :: nat) < 128" "hex_digit d \<noteq> CHR ''+''"
    "hex_digit d \<noteq> CHR ''-''" by auto
qed

lemma radix16_hex_byte: "u8_from_str_radix16 (hex_byte b) = Some b"
proof -
  have n: "unat b < 256" using unat_less_exp [of b] by simp
  then have "unat b div 16 < 16" "unat b mod 16 < 16" by auto
  note d = hex_digit_props [OF this(1)] hex_digit_props [OF this(2)]
  have "unat b div 16 * 16 + unat b mod 16 = unat b" by simp
  with d n show ?thesis by (simp add: u8_from_str_radix16_def hex_byte_def)
qed

lemma hex_text_nth:
  "i < 2 * length fp \<Longrightarrow> (of_char (concat (map hex_byte fp) ! i) :: nat) < 128"
proof (induction fp arbitrary: i)
  case (Cons b fp)
  have "unat b div 16 < 16" "unat b mod 16 < 16" using unat_less_exp [of b] by auto
  note d = hex_digit_props(2) [OF this(1)] hex_digit_props(2) [OF this(2)]
  show ?case
  proof (cases "i < 2")
    case True
    then have "i = 0 \<or> i = 1" by auto
    then show ?thesis using d by (auto simp: hex_byte_def)
  next
    case False
    then have "i - 2 < 2 * length fp" using Cons.prems by simp
    from Cons.IH [OF this] False show ?thesis by (simp add: hex_byte_def nth_append nth_Cons' numeral_2_eq_2)
  qed
qed simp

lemma length_hex_text [simp]: "length (concat (map hex_byte fp)) = 2 * length fp"
  by (induction fp) (auto simp: hex_byte_def)

lemma hex_text_slice:
  "i < length fp \<Longrightarrow> sub_slice (concat (map hex_byte fp)) (i * 2) (i * 2 + 2) = hex_byte (fp ! i)"
proof (induction fp arbitrary: i)
  case (Cons b fp)
  show ?case
  proof (cases i)
    case 0
    then show ?thesis by (simp add: sub_slice_def hex_byte_def)
  next
    case (Suc k)
    with Cons show ?thesis by (simp add: sub_slice_def hex_byte_def)
  qed
qed simp

lemma hex_text_boundary: "i \<le> length fp \<Longrightarrow> is_char_boundary (concat (map hex_byte fp)) (i * 2)"
  using hex_text_nth [of "i * 2" fp] by (auto simp: is_char_boundary_def)

lemma parse_hex_text:
  "\<forall>i \<in> set is. i < length fp \<Longrightarrow> parse_hex_at (concat (map hex_byte fp)) is = Some (Ok (map ((!) fp) is))"
proof (induction "is")
  case (Cons i "is")
  then show ?case
    using hex_text_boundary [of i fp] hex_text_boundary [of "Suc i" fp] hex_text_slice [of i fp]
    by (simp add: radix16_hex_byte)
qed simp

lemma parse_fingerprint_hex:
  "length fp = 32 \<Longrightarrow> parse_fingerprint (concat (map hex_byte fp)) = Some (Ok fp)"
  using parse_hex_text [of "[0..<32]" fp] map_nth [of fp] by (simp add: parse_fingerprint_def)


section \<open>Properties\<close>

text \<open>
  C11: the session refines a slot for one transfer.  As long as no cancelled task reports after its
  cancellation and no host call fails between claiming and binding, every step of the interleaved calls
  and tasks is a step of the specification: a start is refused as busy exactly while a transfer is there,
  an accepted start fills an empty slot, and only a cancellation and the end of the transfer empty it.
\<close>

theorem session_refines_slot:
  assumes "reachable prompt_ready (session_start config) s" and "prompt_ready e s" and "session_step e s s'"
  shows "slot_step (slot_of s) (label_of e s) (slot_of s')"
  by (rule slot_simulation [OF tight.inv_always [OF assms(1)] assms(2, 3)])

text \<open>An environment in which a host call succeeds, one in which the identity cannot be generated, and a few calls.\<close>

definition sample_hash :: "bytes \<Rightarrow> hash" where
  "sample_hash bs = replicate 32 (sum_list bs)"

definition sample_host :: host_env where
  "sample_host = \<lparr>he_tls = plain_tls, he_blake3 = sample_hash, he_bind = (\<lambda>p. Some 1),
     he_local_port = (\<lambda>_. Some 52080), he_parallelism = Some 4\<rparr>"

lemma sample_host_ready: "host_ready sample_host"
  by (simp add: host_ready_def sample_host_def host_identity_generate_def plain_tls_def)

abbreviation hosting :: session_event where
  "hosting \<equiv> Call sample_host (Host_Receiving 0 ''out'')"

definition sample_job :: transfer_job where
  "sample_job = Receive_As_Host 1 \<lparr>hi_cert = [7, 7], hi_key = [1], hi_fingerprint = sample_hash [7, 7]\<rparr>
     (path_join [] ''out'') (resolve (Some 4) transfer_config_default)"

lemma hosting_api:
  "\<not> es_running s \<Longrightarrow> es_config s = transfer_config_default \<Longrightarrow>
     \<exists>h. api sample_host (Host_Receiving 0 ''out'') s = (Handle h, starts Listening sample_job s)"
  by (simp add: start_host_receiving_def bind_host_def bind_claimed_def claim_def recv_bind_def sample_host_def
    host_identity_generate_def plain_tls_def Let_def starts_def sample_job_def)

theorem session_refines_slot_witness:
  "slot_step None (Begin sample_job) (Some sample_job)"
proof -
  let ?s = "session_start transfer_config_default"
  obtain h where h: "api sample_host (Host_Receiving 0 ''out'') ?s = (Handle h, starts Listening sample_job ?s)"
    using hosting_api [of ?s] by (auto simp: session_start_def)
  have "slot_step (slot_of ?s) (label_of hosting ?s) (slot_of (snd (api sample_host (Host_Receiving 0 ''out'') ?s)))"
    by (rule session_refines_slot [OF reachable.start _ session_step.call]) (simp add: sample_host_ready)
  then show ?thesis unfolding label_of.simps h by (simp add: slot_of_def live_def session_start_def)
qed

text \<open>
  Every outcome is reported exactly once.  Whatever the interleaving of calls, cancellations
  and tasks, the final notifications (\<open>on_finished\<close>, \<open>on_error\<close>) the observer has received are the
  outcomes of the tasks that ended, one each, and the announcements of \<open>Completed\<close> and \<open>Failed\<close> are
  those of the tasks that have announced.
\<close>

theorem outcomes_reported_once:
  assumes "reachable (\<lambda>_ _. True) (session_start config) s"
  shows "mset (filter is_outcome (es_log s)) = mset (concat (map told (es_tasks s)))
    \<and> mset (filter is_terminal (es_log s)) = mset (concat (map announced (es_tasks s)))"
  using reporting.inv_always [OF assms] by (simp add: report_inv_def reports_match_def)

lemmas reach = reachable.step [OF _ TrueI]

definition ended_session :: engine_session where
  "ended_session = set_phase 0 (Ended (Broke io_error)) (notify [reported_outcome (Broke io_error)]
     (set_phase 0 (Announced (Broke io_error)) (notify [State_Changed (reported_state (Broke io_error))]
     (set_phase 0 (Released (Broke io_error)) ((set_phase 0 (Resolved (Broke io_error))
     (starts Listening sample_job (session_start transfer_config_default)))\<lparr>es_running := False\<rparr>)))))"

lemma ended_reachable: "reachable (\<lambda>_ _. True) (session_start transfer_config_default) ended_session"
proof -
  let ?s = "session_start transfer_config_default"
  obtain h where "api sample_host (Host_Receiving 0 ''out'') ?s = (Handle h, starts Listening sample_job ?s)"
    using hosting_api [of ?s] by (auto simp: session_start_def)
  then have "session_step hosting ?s (starts Listening sample_job ?s)" by (simp add: call_step del: api.simps)
  note r1 = reach [OF reachable.start this]
  note r2 = reach [OF r1 resolves [of 0 _ "Broke io_error"]]
  note r3 = reach [OF r2 releases [of 0 _ "Broke io_error"]]
  note r4 = reach [OF r3 announces [of 0 _ "Broke io_error"]]
  note r5 = reach [OF r4 tells [of 0 _ "Broke io_error"]]
  show ?thesis
    unfolding ended_session_def by (rule r5) (simp_all add: session_start_def)
qed

theorem outcomes_reported_once_witness:
  "\<exists>s. reachable (\<lambda>_ _. True) (session_start transfer_config_default) s
     \<and> mset (filter is_outcome (es_log s)) = {#On_Error io_error#}"
proof -
  have "mset (filter is_outcome (es_log ended_session)) = mset (concat (map told (es_tasks ended_session)))"
    using outcomes_reported_once [OF ended_reachable] by blast
  also have "\<dots> = {#On_Error io_error#}"
    by (simp add: ended_session_def told_def session_start_def)
  finally show ?thesis using ended_reachable by blast
qed



text \<open>
  A 32-byte fingerprint printed by \<open>fingerprint_hex\<close> is read back unchanged by
  \<open>parse_fingerprint\<close>.
\<close>

theorem fingerprint_text_roundtrip:
  "length (hi_fingerprint identity) = 32 \<Longrightarrow>
     parse_fingerprint (fingerprint_hex identity) = Some (Ok (hi_fingerprint identity))"
  unfolding fingerprint_hex_def by (rule parse_fingerprint_hex)

theorem fingerprint_text_roundtrip_witness:
  "parse_fingerprint (fingerprint_hex \<lparr>hi_cert = [], hi_key = [], hi_fingerprint = replicate 32 171\<rparr>)
     = Some (Ok (replicate 32 171))"
  using fingerprint_text_roundtrip [of "\<lparr>hi_cert = [], hi_key = [], hi_fingerprint = replicate 32 171\<rparr>"] by simp

text \<open>
  A resolved configuration always opens at least one stream, and one that leaves the number
  to the device opens between two and eight, whatever the device reports.
\<close>

theorem resolved_streams_bounded:
  "0 < cfg_stream_count (resolve parallelism c)
    \<and> (if tc_stream_count c = 0
       then 2 \<le> cfg_stream_count (resolve parallelism c) \<and> cfg_stream_count (resolve parallelism c) \<le> 8
       else cfg_stream_count (resolve parallelism c) = tc_stream_count c)"
proof -
  have "2 \<le> default_stream_count parallelism \<and> default_stream_count parallelism \<le> 8"
  proof -
    define n where "n = (let cores = (case parallelism of Some n \<Rightarrow> n | None \<Rightarrow> 4) in
      if cores < 2 then 2 else if 8 < cores then 8 else cores)"
    have n: "2 \<le> n" "n \<le> 8" by (auto simp: n_def Let_def)
    then have "unat (of_nat n :: u8) = n" by (simp add: unat_of_nat)
    then have "2 \<le> (of_nat n :: u8) \<and> (of_nat n :: u8) \<le> 8" using n by (simp add: word_le_nat_alt)
    then show ?thesis by (simp add: default_stream_count_def n_def Let_def)
  qed
  moreover have "0 < (w :: u8)" if w: "2 \<le> w" for w using w by (simp add: word_less_nat_alt word_le_nat_alt)
  ultimately show ?thesis by (auto simp: resolve_def word_neq_0_conv)
qed

text \<open>
  C40: the state a caller can query never becomes \<open>Completed\<close> or \<open>Failed\<close>: the reporter of a task
  announces these states to the observer and leaves the session's own state as it was.
\<close>

theorem queried_state_never_terminal:
  assumes "reachable (\<lambda>_ _. True) (session_start config) s"
  shows "es_state s \<noteq> Completed \<and> es_state s \<noteq> Failed_State"
  using assms
proof (induction rule: reachable.induct)
  case start
  then show ?case by (simp add: session_start_def)
next
  case (step s e s')
  from step.hyps(3) show ?case
  proof cases
    case (call he c)
    then show ?thesis using step.IH by (cases rule: api_cases [of s he c]) auto
  qed (use step.IH in auto)
qed

theorem queried_state_never_terminal_witness:
  "es_log ended_session = [State_Changed Listening, State_Changed Failed_State, On_Error io_error]
     \<and> es_state ended_session \<noteq> Failed_State"
  using queried_state_never_terminal [OF ended_reachable] by (simp add: ended_session_def session_start_def)

text \<open>
  Cancelling always frees the slot, and does nothing visible when nothing runs: after
  \<open>cancel\<close> a client call with a readable fingerprint is accepted, and a cancel on an idle session
  notifies nobody.
\<close>

theorem cancel_frees_slot:
  assumes "parse_fingerprint hex = Some (Ok pinned)"
  shows "fst (start_client_sending he ip port hex files (cancel s)) = Some (Ok ())
    \<and> (\<not> es_running s \<longrightarrow> es_log (cancel s) = es_log s \<and> es_state (cancel s) = es_state s)"
  using assms by (simp add: start_client_sending_def claim_def Let_def)

theorem cancel_frees_slot_witness:
  "fst (start_client_sending sample_host ''10.0.0.1'' 1 (fingerprint_hex \<lparr>hi_cert = [], hi_key = [], hi_fingerprint = replicate 32 171\<rparr>)
     [] (cancel ended_session)) = Some (Ok ())"
proof -
  have "parse_fingerprint (fingerprint_hex \<lparr>hi_cert = [], hi_key = [], hi_fingerprint = replicate 32 171\<rparr>)
      = Some (Ok (replicate 32 171))"
    using parse_fingerprint_hex [of "replicate 32 171"] by (simp add: fingerprint_hex_def)
  from cancel_frees_slot [OF this] show ?thesis by blast
qed

section \<open>Where the session falls short\<close>

text \<open>
  C39: a cancelled task that had already resolved frees the slot of its successor: a run of calls and
  tasks ends with two transfers live, neither of them cancelled, although the session means to have one.
\<close>

theorem late_report_frees_successor:
  "\<exists>s. reachable (\<lambda>_ _. True) (session_start transfer_config_default) s
     \<and> length (filter live (es_tasks s)) = 2"
proof -
  let ?s = "session_start transfer_config_default"
  let ?go = "starts Listening sample_job"
  have host: "session_step hosting s (?go s)" if h: "\<not> es_running s" "es_config s = transfer_config_default" for s
    using hosting_api [OF h] by (auto simp: call_step simp del: api.simps)
  let ?a = "set_phase 0 (Resolved (Broke io_error)) (?go ?s)"
  let ?b = "set_phase 0 (Released (Broke io_error)) ((?go (cancel ?a))\<lparr>es_running := False\<rparr>)"
  have config: "es_config ?a = transfer_config_default" "es_config (cancel ?a) = transfer_config_default"
    "es_config ?b = transfer_config_default"
    by (simp_all add: session_start_def starts_def spawn_def set_state_def set_phase_def cancel_def abort_stored_def Let_def)
  have "session_step hosting ?s (?go ?s)" by (rule host) (simp_all add: session_start_def)
  note r = reach [OF reachable.start this]
  have "session_step (Resolves 0 (Broke io_error)) (?go ?s) ?a"
    by (rule resolves) (simp_all add: session_start_def)
  note r = reach [OF r this]
  have "session_step (Call sample_host Cancel_Call) ?a (cancel ?a)" by (simp add: call_step)
  note r = reach [OF r this]
  have "session_step hosting (cancel ?a) (?go (cancel ?a))" by (rule host) (simp_all add: config)
  note r = reach [OF r this]
  have "session_step (Releases 0) (?go (cancel ?a)) ?b"
    by (rule releases) (simp_all add: session_start_def)
  note r = reach [OF r this]
  have "session_step hosting ?b (?go ?b)" by (rule host) (simp_all add: config)
  from reach [OF r this] have "reachable (\<lambda>_ _. True) ?s (?go ?b)" .
  moreover have "length (filter live (es_tasks (?go ?b))) = 2"
    by (simp add: session_start_def live_def)
  ultimately show ?thesis by blast
qed

text \<open>
  A host call that cannot generate its identity keeps the slot: every later start is refused until
  someone cancels a session that never ran.
\<close>

lemma failed_identity_keeps_slot:
  assumes "\<not> es_running s" and "host_identity_generate (he_tls he) (he_blake3 he) = Err e"
    and "start_host_receiving he port dir s = (r, s')"
  shows "r = Err (Engine_Error e) \<and> es_tasks s' = es_tasks s
    \<and> fst (start_host_receiving he' port' dir' s') = Err Busy"
  using assms by (auto simp: start_host_receiving_def bind_host_def bind_claimed_def claim_def)

text \<open>
  The reader of fingerprints takes a plus sign for a digit, and panics on a text of 64 bytes that has a
  character across a byte pair.
\<close>

lemma fingerprint_plus_sign:
  "\<exists>hex pinned. parse_fingerprint hex = Some (Ok pinned) \<and> CHR ''+'' \<in> set hex"
proof -
  let ?hex = "''+f'' @ replicate 62 (CHR ''0'')"
  have "parse_fingerprint ?hex = Some (Ok (15 # replicate 31 0))"
    by code_simp
  then show ?thesis by force
qed

lemma fingerprint_panics: "parse_fingerprint (CHR ''a'' # CHR 0xC3 # CHR 0xA9 # replicate 61 (CHR ''a'')) = None"
  by code_simp

end
