(* ===== verification/Session_Threads.thy ===== *)
theory Session_Threads
  imports Session
begin

text \<open>
  Calls on one session object from several threads: \<open>aetherlink-ffi/src/lib.rs\<close> at the grain of its
  shared accesses.  \<open>Session\<close> takes every exported method as one step; here a method is a sequence of
  phases, each ending at the next access to \<open>running\<close>, \<open>state\<close>, \<open>task\<close>, the runtime or the observer, and
  the phases of any number of calls interleave with each other and with the tasks.  The lemmas show that
  an undisturbed call does what \<open>Session\<close> says, what holds under every interleaving, and what a
  cancellation that overlaps a start breaks.
\<close>

section \<open>A call, access by access\<close>

datatype host_work = Receive_Into string | Send_Out "file_item list"

fun host_job :: "host_work \<Rightarrow> listener \<Rightarrow> host_identity \<Rightarrow> config \<Rightarrow> transfer_job" where
  "host_job (Receive_Into dir) l identity config = Receive_As_Host l identity (path_join [] dir) config"
| "host_job (Send_Out files) l identity config = Send_As_Host l identity (to_outgoing files) config"

text \<open>
  Where a call stands.  \<open>Binding\<close> holds the slot; \<open>Storing\<close> and \<open>Announcing\<close> are the two halves of
  \<open>set_state\<close>, \<open>Launching\<close> and \<open>Keeping\<close> those of \<open>spawn\<close>; the last three but one are the rest of \<open>cancel\<close>
  after it has aborted the stored task.
\<close>

datatype call_phase =
    Entered_Call host_env api_call
  | Binding host_env u16 host_work
  | Storing session_state transfer_job reply
  | Announcing session_state transfer_job reply
  | Launching transfer_job reply
  | Keeping nat reply
  | Swapping
  | Storing_Cancelled
  | Announcing_Cancelled
  | Returned reply

text \<open>The head of a client call: the fingerprint is read before the slot is claimed.\<close>

definition enter_client :: "string \<Rightarrow> (fingerprint \<Rightarrow> transfer_job) \<Rightarrow> engine_session \<Rightarrow> call_phase \<times> engine_session" where
  "enter_client hex job s =
     (case parse_fingerprint hex of
        None \<Rightarrow> (Returned Panicked, s)
      | Some (Err e) \<Rightarrow> (Returned (Refused e), s)
      | Some (Ok pinned) \<Rightarrow>
        (case claim s of
           (Err e, s1) \<Rightarrow> (Returned (Refused e), s1)
         | (Ok _, s1) \<Rightarrow> (Storing Transferring (job pinned) Accepted_Call, s1)))"

definition enter_host :: "host_env \<Rightarrow> u16 \<Rightarrow> host_work \<Rightarrow> engine_session \<Rightarrow> call_phase \<times> engine_session" where
  "enter_host he port work s =
     (case claim s of
        (Err e, s1) \<Rightarrow> (Returned (Refused e), s1)
      | (Ok _, s1) \<Rightarrow> (Binding he port work, s1))"

fun enter :: "host_env \<Rightarrow> api_call \<Rightarrow> engine_session \<Rightarrow> call_phase \<times> engine_session" where
  "enter he (Host_Receiving port dir) s = enter_host he port (Receive_Into dir) s"
| "enter he (Host_Sending port files) s = enter_host he port (Send_Out files) s"
| "enter he (Client_Sending host_ip port hex files) s =
     enter_client hex (\<lambda>pinned. Send_To (host_ip @ '':'' @ decimal (unat port)) pinned (to_outgoing files)
       (resolve (he_parallelism he) (es_config s))) s"
| "enter he (Client_Receiving host_ip port hex dir) s =
     enter_client hex (\<lambda>pinned. Receive_From (host_ip @ '':'' @ decimal (unat port)) pinned (path_join [] dir)
       (resolve (he_parallelism he) (es_config s))) s"
| "enter he Cancel_Call s = (Swapping, abort_stored s)"

fun phase_step :: "call_phase \<Rightarrow> engine_session \<Rightarrow> call_phase \<times> engine_session" where
  "phase_step (Entered_Call he c) s = enter he c s"
| "phase_step (Binding he port work) s =
     (case bind_claimed he port s of
        (Err e, s1) \<Rightarrow> (Returned (Refused e), s1)
      | (Ok (handle, l, identity), s1) \<Rightarrow>
          (Storing Listening (host_job work l identity (resolve (he_parallelism he) (es_config s1))) (Handle handle), s1))"
| "phase_step (Storing st job r) s = (Announcing st job r, s\<lparr>es_state := st\<rparr>)"
| "phase_step (Announcing st job r) s = (Launching job r, notify [State_Changed st] s)"
| "phase_step (Launching job r) s =
     (Keeping (length (es_tasks s)) r,
      s\<lparr>es_tasks := es_tasks s @ [\<lparr>t_job = job, t_sink = sink, t_phase = Working, t_abort = False\<rparr>]\<rparr>)"
| "phase_step (Keeping i r) s = (Returned r, s\<lparr>es_task := Some i\<rparr>)"
| "phase_step Swapping s =
     (if es_running s then (Storing_Cancelled, s\<lparr>es_running := False\<rparr>) else (Returned Cancel_Returned, s))"
| "phase_step Storing_Cancelled s = (Announcing_Cancelled, s\<lparr>es_state := Cancelled\<rparr>)"
| "phase_step Announcing_Cancelled s = (Returned Cancel_Returned, notify [State_Changed Cancelled] s)"
| "phase_step (Returned r) s = (Returned r, s)"

section \<open>Threads and tasks interleaved\<close>

record call_sys =
  cs_session :: engine_session
  cs_calls :: "call_phase list"

datatype thread_event =
    Enters host_env api_call
  | Advances nat
  | Task_Event session_event

definition advance :: "nat \<Rightarrow> call_sys \<Rightarrow> call_sys" where
  "advance k S =
     (case phase_step (cs_calls S ! k) (cs_session S) of
        (p, s) \<Rightarrow> \<lparr>cs_session = s, cs_calls = (cs_calls S)[k := p]\<rparr>)"

fun is_call :: "session_event \<Rightarrow> bool" where
  "is_call (Call he c) = True"
| "is_call _ = False"

inductive threads_step :: "thread_event \<Rightarrow> call_sys \<Rightarrow> call_sys \<Rightarrow> bool" where
  enters: "threads_step (Enters he c) S (S\<lparr>cs_calls := cs_calls S @ [Entered_Call he c]\<rparr>)"
| advances: "k < length (cs_calls S) \<Longrightarrow> threads_step (Advances k) S (advance k S)"
| tasks: "\<not> is_call e \<Longrightarrow> session_step e (cs_session S) s \<Longrightarrow> threads_step (Task_Event e) S (S\<lparr>cs_session := s\<rparr>)"

inductive_simps enters_simps: "threads_step (Enters he c) S S'"
inductive_simps advances_simps: "threads_step (Advances k) S S'"

text \<open>What threads can bring about from \<open>S0\<close> by events that satisfy \<open>ok\<close>.\<close>

inductive threads_reach :: "(thread_event \<Rightarrow> bool) \<Rightarrow> call_sys \<Rightarrow> call_sys \<Rightarrow> bool" for ok S0 where
  start: "threads_reach ok S0 S0"
| step: "threads_reach ok S0 S \<Longrightarrow> ok e \<Longrightarrow> threads_step e S S' \<Longrightarrow> threads_reach ok S0 S'"

definition threads_start :: "transfer_config \<Rightarrow> call_sys" where
  "threads_start config = \<lparr>cs_session = session_start config, cs_calls = []\<rparr>"

locale threads_invariant =
  fixes ok :: "thread_event \<Rightarrow> bool" and inv :: "call_sys \<Rightarrow> bool"
  assumes inv_start: "inv (threads_start config)"
    and inv_kept: "inv S \<Longrightarrow> ok e \<Longrightarrow> threads_step e S S' \<Longrightarrow> inv S'"
begin

lemma inv_from: "threads_reach ok S0 S \<Longrightarrow> inv S0 \<Longrightarrow> inv S"
  by (induction rule: threads_reach.induct) (auto intro: inv_kept)

lemma inv_always: "threads_reach ok (threads_start config) S \<Longrightarrow> inv S"
  by (rule inv_from [OF _ inv_start])

end

text \<open>Undisturbed, a call has returned after at most six accesses; \<open>Returned\<close> stays.\<close>

lemma undisturbed_call:
  "((\<lambda>(p, s). phase_step p s) ^^ 6) (Entered_Call he c, s) = (Returned (fst (api he c s)), snd (api he c s))"
proof -
  have six: "(f ^^ 6) x = f (f (f (f (f (f x)))))" for f :: "'a \<Rightarrow> 'a" and x
    by (simp add: eval_nat_numeral)
  show ?thesis
    unfolding six
    by (cases c) (auto simp: enter_host_def enter_client_def claim_def bind_host_def start_host_receiving_def
        start_host_sending_def start_client_sending_def start_client_receiving_def spawn_def set_state_def
        notify_def cancel_def Let_def split: prod.splits result.splits option.splits)
qed

lemma advance_iterated:
  "k < length (cs_calls S) \<Longrightarrow> (advance k ^^ n) S =
     (case ((\<lambda>(p, s). phase_step p s) ^^ n) (cs_calls S ! k, cs_session S) of
        (p, s) \<Rightarrow> \<lparr>cs_session = s, cs_calls = (cs_calls S)[k := p]\<rparr>)"
  by (induction n) (auto simp: advance_def split: prod.splits)

lemma length_calls_advance [simp]:
  "length (cs_calls (advance k S)) = length (cs_calls S)"
  "length (cs_calls ((advance k ^^ n) S)) = length (cs_calls S)"
proof -
  show one: "length (cs_calls (advance k S)) = length (cs_calls S)" for S
    by (simp add: advance_def split: prod.splits)
  show "length (cs_calls ((advance k ^^ n) S)) = length (cs_calls S)"
    by (induction n) (simp_all add: one)
qed

lemma threads_reach_advance:
  "threads_reach ok S0 S \<Longrightarrow> ok (Advances k) \<Longrightarrow> k < length (cs_calls S) \<Longrightarrow> threads_reach ok S0 (advance k S)"
  by (auto intro: threads_reach.step advances)

lemma threads_reach_advances:
  "threads_reach ok S0 S \<Longrightarrow> ok (Advances k) \<Longrightarrow> k < length (cs_calls S) \<Longrightarrow> threads_reach ok S0 ((advance k ^^ n) S)"
  by (induction n) (simp_all add: threads_reach_advance)

text \<open>So the histories of \<open>Session\<close>, whose calls do not overlap, are histories of threads.\<close>

lemma atomic_history:
  "reachable (\<lambda>_ _. True) s0 s \<Longrightarrow> \<exists>calls. threads_reach (\<lambda>_. True) \<lparr>cs_session = s0, cs_calls = []\<rparr> \<lparr>cs_session = s, cs_calls = calls\<rparr>"
proof (induction rule: reachable.induct)
  case start
  show ?case by (rule exI) (rule threads_reach.start)
next
  case (step s e s')
  obtain calls where r: "threads_reach (\<lambda>_. True) \<lparr>cs_session = s0, cs_calls = []\<rparr> \<lparr>cs_session = s, cs_calls = calls\<rparr>"
    using step.IH by blast
  show ?case
  proof (cases "is_call e")
    case True
    then obtain he c where e: "e = Call he c" by (cases e) auto
    let ?S = "\<lparr>cs_session = s, cs_calls = calls @ [Entered_Call he c]\<rparr>"
    have "threads_reach (\<lambda>_. True) \<lparr>cs_session = s0, cs_calls = []\<rparr> ?S"
      using threads_reach.step [OF r TrueI enters, of he c] by simp
    from threads_reach_advances [OF this, of "length calls" 6]
    have "threads_reach (\<lambda>_. True) \<lparr>cs_session = s0, cs_calls = []\<rparr> ((advance (length calls) ^^ 6) ?S)" by simp
    moreover have "(advance (length calls) ^^ 6) ?S = \<lparr>cs_session = s', cs_calls = calls @ [Returned (fst (api he c s))]\<rparr>"
      using step.hyps(3) unfolding e call_step by (subst advance_iterated) (simp_all add: undisturbed_call del: api.simps)
    ultimately show ?thesis by metis
  next
    case False
    with r threads_reach.step [OF r TrueI tasks [OF False]] step.hyps(3) show ?thesis by auto
  qed
qed

section \<open>What every interleaving keeps\<close>

text \<open>
  No call announces an end: what the observer hears of ends comes from the reporters of the tasks, each
  once, however many threads call.
\<close>

fun quiet_phase :: "call_phase \<Rightarrow> bool" where
  "quiet_phase (Storing st job r) = (st \<noteq> Completed \<and> st \<noteq> Failed_State)"
| "quiet_phase (Announcing st job r) = (st \<noteq> Completed \<and> st \<noteq> Failed_State)"
| "quiet_phase p = True"

definition threads_report_inv :: "call_sys \<Rightarrow> bool" where
  "threads_report_inv S \<longleftrightarrow> report_inv (cs_session S) \<and> (\<forall>p \<in> set (cs_calls S). quiet_phase p)"

lemma enter_quiet: "quiet_phase (fst (enter he c s))"
  by (cases c) (simp_all add: enter_host_def enter_client_def claim_def split: option.splits result.splits)

lemma phase_step_quiet: "quiet_phase p \<Longrightarrow> quiet_phase (fst (phase_step p s))"
  by (cases p) (simp_all add: enter_quiet split: prod.splits result.splits)

lemma reports_match_abort:
  assumes "\<And>t. f (t\<lparr>t_abort := True\<rparr>) = f t"
  shows "reports_match P f (abort_stored s) \<longleftrightarrow> reports_match P f s"
proof (cases "es_task s")
  case (Some i)
  have "(map f (es_tasks s))[i := f (es_tasks s ! i)] = map f (es_tasks s)" if "i < length (es_tasks s)"
    using that by (metis list_update_id nth_map)
  with Some show ?thesis
    by (cases "i < length (es_tasks s)")
      (simp_all add: reports_match_def abort_stored_def map_update assms list_update_beyond)
qed (simp add: abort_stored_def)

lemma report_inv_abort: "report_inv (abort_stored s) \<longleftrightarrow> report_inv s"
  unfolding report_inv_def by (simp add: reports_match_abort told_def announced_def)

text \<open>Only the log and the tasks count.\<close>

lemma report_inv_cong: "es_log s' = es_log s \<Longrightarrow> es_tasks s' = es_tasks s \<Longrightarrow> report_inv s' \<longleftrightarrow> report_inv s"
  by (simp add: report_inv_def reports_match_def)

lemma quiet_accesses [simp]:
  "es_log (snd (bind_claimed he port s)) = es_log s" "es_tasks (snd (bind_claimed he port s)) = es_tasks s"
  "es_log (snd (claim s)) = es_log s" "es_tasks (snd (claim s)) = es_tasks s"
  by (simp_all add: bind_claimed_def claim_def split: result.splits option.splits)

lemma snd_enter:
  "snd (enter he c s) = abort_stored s \<or> snd (enter he c s) = s \<or> snd (enter he c s) = snd (claim s)"
  by (cases c) (simp_all add: enter_host_def enter_client_def split: prod.splits option.splits result.splits)

lemma report_inv_announce: "st \<noteq> Completed \<Longrightarrow> st \<noteq> Failed_State \<Longrightarrow> report_inv (notify [State_Changed st] s) \<longleftrightarrow> report_inv s"
  by (simp add: report_inv_def reports_match_def)

lemma report_inv_launch:
  "report_inv (s\<lparr>es_tasks := es_tasks s @ [\<lparr>t_job = job, t_sink = th, t_phase = Working, t_abort = False\<rparr>]\<rparr>) \<longleftrightarrow> report_inv s"
  by (simp add: report_inv_def reports_match_def told_def announced_def)

lemma phase_step_reports:
  assumes "report_inv s" and "quiet_phase p"
  shows "report_inv (snd (phase_step p s))"
proof (cases p)
  case (Entered_Call he c)
  have "report_inv (snd (claim s))" using assms(1) report_inv_cong [of "snd (claim s)" s] by simp
  with Entered_Call assms(1) show ?thesis
    using snd_enter [of he c s] by (auto simp: report_inv_abort)
next
  case (Binding he port work)
  have "report_inv (snd (bind_claimed he port s))"
    using assms(1) report_inv_cong [of "snd (bind_claimed he port s)" s] by simp
  with Binding show ?thesis by (auto split: prod.splits result.splits)
next
  case (Storing st job r)
  then show ?thesis using assms(1) report_inv_cong [of "s\<lparr>es_state := st\<rparr>" s] by simp
next
  case (Announcing st job r)
  with assms show ?thesis by (simp add: report_inv_announce)
next
  case (Launching job r)
  with assms(1) show ?thesis by (simp add: report_inv_launch)
next
  case (Keeping i r)
  then show ?thesis using assms(1) report_inv_cong [of "s\<lparr>es_task := Some i\<rparr>" s] by simp
next
  case Swapping
  then show ?thesis using assms(1) report_inv_cong [of "s\<lparr>es_running := False\<rparr>" s] by simp
next
  case Storing_Cancelled
  then show ?thesis using assms(1) report_inv_cong [of "s\<lparr>es_state := Cancelled\<rparr>" s] by simp
next
  case Announcing_Cancelled
  with assms(1) show ?thesis by (simp add: report_inv_announce)
qed (use assms(1) in simp)

lemma threads_report_step:
  assumes "threads_report_inv S" and "threads_step e S S'"
  shows "threads_report_inv S'"
  using assms(2)
proof cases
  case (enters he c)
  with assms(1) show ?thesis by (simp add: threads_report_inv_def)
next
  case (advances k)
  then have q: "quiet_phase (cs_calls S ! k)" using assms(1) by (simp add: threads_report_inv_def)
  have "report_inv (cs_session S)" using assms(1) by (simp add: threads_report_inv_def)
  note phase_step_reports [OF this q] phase_step_quiet [OF q, of "cs_session S"]
  with advances assms(1) show ?thesis
    by (auto simp: threads_report_inv_def advance_def split: prod.splits dest!: set_update_cases)
next
  case (tasks e s)
  have "report_inv s" by (rule report_inv_step [OF _ tasks(4)]) (use assms(1) in \<open>simp add: threads_report_inv_def\<close>)
  with assms(1) tasks(2) show ?thesis by (simp add: threads_report_inv_def)
qed

interpretation threads_reporting: threads_invariant "\<lambda>_. True" threads_report_inv
proof
  show "threads_report_inv (threads_start config)" for config
    by (simp add: threads_report_inv_def threads_start_def report_inv_def reports_match_def session_start_def)
qed (rule threads_report_step)

section \<open>Without cancellation the slot is exclusive\<close>

text \<open>The calls that have claimed the slot and not yet passed it to a task.\<close>

fun holding :: "call_phase \<Rightarrow> bool" where
  "holding (Binding he port work) = True"
| "holding (Storing st job r) = True"
| "holding (Announcing st job r) = True"
| "holding (Launching job r) = True"
| "holding p = False"

fun cancelling :: "call_phase \<Rightarrow> bool" where
  "cancelling (Entered_Call he c) = (c = Cancel_Call)"
| "cancelling Swapping = True"
| "cancelling Storing_Cancelled = True"
| "cancelling Announcing_Cancelled = True"
| "cancelling p = False"

fun no_cancel :: "thread_event \<Rightarrow> bool" where
  "no_cancel (Enters he c) = (c \<noteq> Cancel_Call)"
| "no_cancel e = True"

definition owners :: "call_sys \<Rightarrow> nat" where
  "owners S = length (filter live (es_tasks (cs_session S))) + length (filter holding (cs_calls S))"

definition exclusive :: "call_sys \<Rightarrow> bool" where
  "exclusive S \<longleftrightarrow> owners S \<le> (if es_running (cs_session S) then 1 else 0)
     \<and> (\<forall>p \<in> set (cs_calls S). \<not> cancelling p) \<and> (\<forall>t \<in> set (es_tasks (cs_session S)). \<not> t_abort t)"

text \<open>What one access of a call that is no cancellation does to the slot.\<close>

lemma claim_count:
  "claim s = (r, s') \<Longrightarrow> es_tasks s' = es_tasks s
     \<and> (\<exists>e. r = Err e \<and> s' = s \<or> r = Ok () \<and> \<not> es_running s \<and> es_running s')"
  by (auto simp: claim_def split: if_splits)

lemma enter_holds:
  assumes "enter he c s = (p, s')" and "c \<noteq> Cancel_Call"
  shows "es_tasks s' = es_tasks s" "\<not> cancelling p"
    "holding p \<and> \<not> es_running s \<and> es_running s' \<or> \<not> holding p \<and> es_running s' = es_running s"
  using assms
  by (cases c; auto simp: enter_host_def enter_client_def dest!: claim_count split: prod.splits option.splits result.splits)+

lemma bind_holds:
  assumes "bind_claimed he port s = (r, s')"
  shows "es_tasks s' = es_tasks s" "es_running s' = es_running s \<or> (\<exists>e. r = Err e)"
  using assms by (auto simp: bind_claimed_def split: result.splits option.splits)

text \<open>The owners before and after an access.\<close>

lemma length_filter_update:
  "k < length xs \<Longrightarrow> length (filter P (xs[k := y])) + of_bool (P (xs ! k)) = length (filter P xs) + of_bool (P y)"
proof (induction xs arbitrary: k)
  case (Cons x xs)
  then show ?case by (cases k) auto
qed simp

lemma owners_advance:
  assumes "k < length (cs_calls S)" and "phase_step (cs_calls S ! k) (cs_session S) = (p, s)"
  shows "owners (advance k S) + length (filter live (es_tasks (cs_session S))) + of_bool (holding (cs_calls S ! k)) =
     owners S + length (filter live (es_tasks s)) + of_bool (holding p)"
  using length_filter_update [OF assms(1), of holding p] by (simp add: owners_def advance_def assms(2))

lemma exclusive_advance:
  assumes "exclusive S" and k: "k < length (cs_calls S)"
  shows "exclusive (advance k S)"
proof -
  let ?s = "cs_session S" and ?q = "cs_calls S ! k"
  obtain p s where st: "phase_step ?q ?s = (p, s)" by force
  have ex: "owners S \<le> (if es_running ?s then 1 else 0)" "\<forall>p \<in> set (cs_calls S). \<not> cancelling p"
      "\<forall>t \<in> set (es_tasks ?s). \<not> t_abort t"
    using assms(1) by (simp_all add: exclusive_def)
  have q: "\<not> cancelling ?q" using ex(2) k by simp
  note own = owners_advance [OF k st]
  have held: "es_running ?s" "length (filter live (es_tasks ?s)) = 0" if "holding ?q"
  proof -
    have pos: "0 < length (filter holding (cs_calls S))"
      using that k by (simp add: filter_empty_conv) (metis nth_mem)
    with ex(1) show "es_running ?s" by (auto simp: owners_def split: if_splits)
    have "owners S \<le> 1" using ex(1) by (auto split: if_splits)
    with pos show "length (filter live (es_tasks ?s)) = 0" unfolding owners_def by linarith
  qed
  have "owners (advance k S) \<le> (if es_running s then 1 else 0) \<and> \<not> cancelling p \<and> (\<forall>t \<in> set (es_tasks s). \<not> t_abort t)"
  proof (cases ?q)
    case (Entered_Call he c)
    then have "enter he c ?s = (p, s)" "c \<noteq> Cancel_Call" using st q by simp_all
    note e = enter_holds [OF this]
    show ?thesis using e own ex Entered_Call by (auto split: if_splits)
  next
    case (Binding he port work)
    obtain r s1 where b: "bind_claimed he port ?s = (r, s1)" by force
    note bind_holds [OF b]
    then show ?thesis using st b own ex held Binding by (auto split: if_splits result.splits)
  next
    case (Launching job r)
    then show ?thesis using st own ex held by (auto simp: live_def split: if_splits)
  qed (use st own ex q held in \<open>auto simp: notify_def split: if_splits\<close>)
  with ex(2) show ?thesis by (auto simp: exclusive_def advance_def st dest!: set_update_cases)
qed

lemma exclusive_update:
  assumes ex: "exclusive S" and i: "i < length (es_tasks (cs_session S))"
    and ts: "es_tasks s = (es_tasks (cs_session S))[i := t]" and same: "es_running s = es_running (cs_session S)"
    and t: "t_abort t = t_abort (es_tasks (cs_session S) ! i)" "live t \<Longrightarrow> live (es_tasks (cs_session S) ! i)"
  shows "exclusive (S\<lparr>cs_session := s\<rparr>)"
proof -
  have "length (filter live (es_tasks s)) \<le> length (filter live (es_tasks (cs_session S)))"
    using length_filter_update [OF i, of live t] t(2) ts
    by (cases "live t"; cases "live (es_tasks (cs_session S) ! i)") simp_all
  then have "owners (S\<lparr>cs_session := s\<rparr>) \<le> owners S" by (simp add: owners_def)
  with ex i ts same t(1) show ?thesis
    by (auto simp: exclusive_def split: if_splits dest!: set_update_cases)
qed

text \<open>A task gives up the slot only by handing it back: no task is aborted.\<close>

lemma exclusive_task:
  assumes ex: "exclusive S" and e: "\<not> is_call e" and st: "session_step e (cs_session S) s"
  shows "exclusive (S\<lparr>cs_session := s\<rparr>)"
  using st
proof cases
  case (call he c)
  with e show ?thesis by simp
next
  case (releases i out)
  let ?ts = "es_tasks (cs_session S)"
  have "\<not> t_abort (?ts ! i)" using ex releases(3) by (simp add: exclusive_def)
  then have "live (?ts ! i)" using releases(4) by (simp add: live_def)
  moreover have "\<not> live ((?ts ! i)\<lparr>t_phase := Released out\<rparr>)" by (simp add: live_def)
  ultimately have fewer: "Suc (length (filter live (es_tasks s))) = length (filter live ?ts)"
    using length_filter_update [OF releases(3), of live "(?ts ! i)\<lparr>t_phase := Released out\<rparr>"] by (simp add: releases(2))
  moreover have "owners S \<le> 1" using ex by (auto simp: exclusive_def split: if_splits)
  moreover have "owners (S\<lparr>cs_session := s\<rparr>) = length (filter live (es_tasks s)) + length (filter holding (cs_calls S))"
    by (simp add: owners_def)
  ultimately have "owners (S\<lparr>cs_session := s\<rparr>) = 0" unfolding owners_def by linarith
  with ex releases(2,3) show ?thesis by (auto simp: exclusive_def dest!: set_update_cases)
next
  case (drops i)
  then show ?thesis using ex by (simp add: exclusive_def)
qed (auto intro!: exclusive_update [OF ex] simp: sink_call_def live_def Let_def)

lemma exclusive_step:
  assumes "exclusive S" and "no_cancel e" and "threads_step e S S'"
  shows "exclusive S'"
  using assms(3)
proof cases
  case (enters he c)
  with assms(1,2) show ?thesis by (simp add: exclusive_def owners_def)
next
  case (advances k)
  with exclusive_advance [OF assms(1)] show ?thesis by simp
next
  case (tasks e s)
  with exclusive_task [OF assms(1)] show ?thesis by simp
qed

interpretation exclusive_slot: threads_invariant no_cancel exclusive
proof
  show "exclusive (threads_start config)" for config
    by (simp add: exclusive_def owners_def threads_start_def session_start_def)
qed (rule exclusive_step)

section \<open>A cancellation that overlaps a start\<close>

text \<open>
  A start that has claimed the slot, a cancellation that runs from end to end, the rest of the start; then
  a second start.
\<close>

definition sample_fingerprint :: string where
  "sample_fingerprint = concat (map hex_byte (replicate 32 171))"

definition sample_call :: api_call where
  "sample_call = Client_Sending ''10.0.0.1'' 1 sample_fingerprint []"

definition put_call :: "api_call \<Rightarrow> call_sys \<Rightarrow> call_sys" where
  "put_call c S = S\<lparr>cs_calls := cs_calls S @ [Entered_Call sample_host c]\<rparr>"

definition overlapped :: call_sys where
  "overlapped = (advance 0 ^^ 4) ((advance 1 ^^ 4) (advance 0
     (put_call Cancel_Call (put_call sample_call (threads_start transfer_config_default)))))"

definition doubled :: call_sys where
  "doubled = (advance 2 ^^ 5) (put_call sample_call overlapped)"

lemma reach_put: "threads_reach (\<lambda>_. True) S0 S \<Longrightarrow> threads_reach (\<lambda>_. True) S0 (put_call c S)"
  unfolding put_call_def by (rule threads_reach.step [OF _ TrueI enters])

lemma sample_parse: "parse_fingerprint sample_fingerprint = Some (Ok (replicate 32 171))"
  using parse_fingerprint_hex [of "replicate 32 171"] by (simp add: sample_fingerprint_def)

lemma few_turns:
  "(f ^^ 4) x = f (f (f (f x)))" "(f ^^ 5) x = f (f (f (f (f x))))" for f :: "'a \<Rightarrow> 'a" and x
  by (simp_all add: eval_nat_numeral)

definition fresh_task :: task where
  "fresh_task = \<lparr>t_job = Send_To ''10.0.0.1:1'' (replicate 32 171) [] (resolve (Some 4) transfer_config_default),
     t_sink = sink, t_phase = Working, t_abort = False\<rparr>"

lemma overlapped_eq:
  "overlapped = \<lparr>cs_session = \<lparr>es_config = transfer_config_default, es_state = Transferring, es_running = False,
       es_task = Some 0, es_tasks = [fresh_task], es_log = [State_Changed Cancelled, State_Changed Transferring]\<rparr>,
     cs_calls = [Returned Accepted_Call, Returned Cancel_Returned]\<rparr>"
proof -
  have one: "decimal (Suc 0) = ''1''" by (simp add: decimal.simps) code_simp
  show ?thesis
    by (simp add: overlapped_def few_turns advance_def put_call_def threads_start_def session_start_def sample_call_def
      enter_client_def sample_parse claim_def notify_def abort_stored_def fresh_task_def one to_outgoing_def sample_host_def)
qed

lemma overlapped_reach: "threads_reach (\<lambda>_. True) (threads_start transfer_config_default) overlapped"
  unfolding overlapped_def
  by (intro threads_reach_advances reach_put threads_reach_advance threads_reach.start TrueI)
    (simp_all add: put_call_def threads_start_def)

lemma doubled_eq:
  "doubled = \<lparr>cs_session = \<lparr>es_config = transfer_config_default, es_state = Transferring, es_running = True,
       es_task = Some 1, es_tasks = [fresh_task, fresh_task],
       es_log = [State_Changed Cancelled, State_Changed Transferring, State_Changed Transferring]\<rparr>,
     cs_calls = [Returned Accepted_Call, Returned Cancel_Returned, Returned Accepted_Call]\<rparr>"
proof -
  have one: "decimal (Suc 0) = ''1''" by (simp add: decimal.simps) code_simp
  show ?thesis
    by (simp add: doubled_def overlapped_eq few_turns advance_def put_call_def sample_call_def
      enter_client_def sample_parse claim_def notify_def fresh_task_def one to_outgoing_def sample_host_def)
qed

lemma doubled_reach: "threads_reach (\<lambda>_. True) overlapped doubled"
  unfolding doubled_def
  by (rule threads_reach_advances [OF reach_put [OF threads_reach.start]]) (simp_all add: put_call_def overlapped_eq)

section \<open>Properties\<close>


text \<open>
  C16: however many threads call, and however their accesses interleave with each other and with the
  tasks: every outcome is told exactly once, by the task it is the outcome of, and so is every terminal
  state.
\<close>

theorem threads_report_once:
  assumes "threads_reach (\<lambda>_. True) (threads_start config) S"
  shows "mset (filter is_outcome (es_log (cs_session S))) = mset (concat (map told (es_tasks (cs_session S))))
    \<and> mset (filter is_terminal (es_log (cs_session S))) = mset (concat (map announced (es_tasks (cs_session S))))"
  using threads_reporting.inv_always [OF assms]
  by (simp add: threads_report_inv_def report_inv_def reports_match_def)

theorem threads_report_once_witness:
  "\<exists>S. threads_reach (\<lambda>_. True) (threads_start transfer_config_default) S
     \<and> mset (filter is_outcome (es_log (cs_session S))) = {#On_Error io_error#}"
proof -
  obtain calls where r: "threads_reach (\<lambda>_. True) (threads_start transfer_config_default)
      \<lparr>cs_session = ended_session, cs_calls = calls\<rparr>"
    using atomic_history [OF ended_reachable] by (auto simp: threads_start_def)
  from threads_report_once [OF r] have "mset (filter is_outcome (es_log ended_session)) = {#On_Error io_error#}"
    by (simp add: ended_session_def told_def session_start_def)
  with r show ?thesis by (intro exI [of _ "\<lparr>cs_session = ended_session, cs_calls = calls\<rparr>"]) simp
qed

text \<open>
  C15: any number of threads that start transfers and never cancel share one slot: at every moment at most
  one of them has claimed it or has its transfer alive, and then \<open>running\<close> says so.
\<close>

theorem one_transfer_without_cancel:
  assumes "threads_reach no_cancel (threads_start config) S"
  shows "length (filter live (es_tasks (cs_session S))) + length (filter holding (cs_calls S)) \<le> 1
    \<and> (\<not> es_running (cs_session S) \<longrightarrow>
         (\<forall>t \<in> set (es_tasks (cs_session S)). \<not> live t) \<and> (\<forall>p \<in> set (cs_calls S). \<not> holding p))"
  using exclusive_slot.inv_always [OF assms]
  by (auto simp: exclusive_def owners_def filter_empty_conv split: if_splits)

theorem one_transfer_without_cancel_witness:
  "\<exists>S. threads_reach no_cancel (threads_start transfer_config_default) S
     \<and> length (filter live (es_tasks (cs_session S))) + length (filter holding (cs_calls S)) \<le> 1 \<and> holding (cs_calls S ! 0)"
proof -
  let ?S = "advance 0 (put_call sample_call (threads_start transfer_config_default))"
  have "threads_reach no_cancel (threads_start transfer_config_default) (put_call sample_call (threads_start transfer_config_default))"
    unfolding put_call_def by (rule threads_reach.step [OF threads_reach.start _ enters]) (simp add: sample_call_def)
  then have r: "threads_reach no_cancel (threads_start transfer_config_default) ?S"
    by (rule threads_reach_advance) (simp_all add: put_call_def)
  have "holding (cs_calls ?S ! 0)"
    by (simp add: advance_def put_call_def threads_start_def sample_call_def enter_client_def sample_parse claim_def
        session_start_def)
  with r one_transfer_without_cancel [OF r] show ?thesis by blast
qed

text \<open>
  C18: a cancellation can return and leave the transfer it meant to stop running.  When \<open>cancel\<close> runs
  between the claim of a start and its spawn, it finds no task to abort and frees the slot; both calls have
  returned and one transfer is alive.  A second start is then accepted beside it, and since \<open>task\<close> names
  the second one alone, no later cancellation reaches the first.
\<close>

theorem cancel_misses_start:
  "\<exists>S S2. threads_reach (\<lambda>_. True) (threads_start transfer_config_default) S
     \<and> cs_calls S = [Returned Accepted_Call, Returned Cancel_Returned] \<and> \<not> es_running (cs_session S)
     \<and> length (filter live (es_tasks (cs_session S))) = 1
     \<and> threads_reach (\<lambda>_. True) S S2 \<and> List.last (cs_calls S2) = Returned Accepted_Call
     \<and> length (filter live (es_tasks (cs_session S2))) = 2
     \<and> length (filter live (es_tasks (cancel (cs_session S2)))) = 1 \<and> es_task (cancel (cs_session S2)) = None"
proof -
  have "live fresh_task" "\<not> live (fresh_task\<lparr>t_abort := True\<rparr>)" by (simp_all add: live_def fresh_task_def)
  then show ?thesis
    by (intro exI [of _ overlapped] exI [of _ doubled] conjI overlapped_reach doubled_reach)
      (simp_all add: overlapped_eq doubled_eq)
qed

end
