(* ===== verification/Receiver.thy ===== *)
theory Receiver
  imports Engine Progress
begin

text \<open>
  The receiving end: \<open>aetherlink-core/src/recv.rs\<close>.  The shared state of a session is the map of
  file states, the file system, the part of it that would survive a power loss, the byte counter and
  the progress events reported so far.  A stream worker is a state machine whose steps are the pieces of
  \<open>drain_stream\<close> between two points where other workers can run; a session is a schedule of such
  steps.  The lemmas show what every step keeps: a chunk is marked only when its bytes on disk
  hash to the commitment, whatever the peer sends and however the workers interleave.
\<close>

section \<open>State\<close>

record file_state =
  st_sink :: sink_file
  st_layout :: chunk_layout
  st_chunk_hashes :: "hash list"
  st_bitmap :: chunk_bitmap
  st_key :: state_key
  st_since_checkpoint :: u64
  st_checkpointing :: bool

record recv_shared =
  rs_files :: "u64 \<rightharpoonup> file_state"
  rs_fs :: fs
  rs_durable :: fs
  rs_counter :: u64
  rs_events :: "event list"

type_synonym current_chunk = "u64 \<times> u64 \<times> u64 \<times> u32"

record stream_state =
  ss_in :: in_stream
  ss_buf :: bytes
  ss_current :: "current_chunk option"

definition stream_start :: "in_stream \<Rightarrow> stream_state" where
  "stream_start r = \<lparr>ss_in = r, ss_buf = [], ss_current = None\<rparr>"

section \<open>Reading frames\<close>

text \<open>One pass through the loop of \<open>drain_stream\<close> up to the complete chunk.\<close>

datatype frame_outcome =
    Closed
  | Broken core_error
  | More stream_state
  | Whole stream_state current_chunk bytes

definition begin_chunk ::
    "chunk_layout \<Rightarrow> frame_header \<Rightarrow> stream_state \<Rightarrow> (current_chunk \<times> bytes, core_error) result" where
  "begin_chunk layout h ss =
     (case ss_current ss of
        Some c \<Rightarrow> Ok (c, ss_buf ss)
      | None \<Rightarrow>
      case index_of layout (fh_offset h) of
        Err e \<Rightarrow> Err (Wire e)
      | Ok chunk_index \<Rightarrow>
      case layout_range layout chunk_index of
        Err e \<Rightarrow> Err (Wire e)
      | Ok (start, expected_len) \<Rightarrow>
      if fh_offset h \<noteq> start
      then Err (Protocol (Fmt ''chunk must begin at its own offset; got {} expected {start}''
             [TNum (unat (fh_offset h)), TNum (unat start)]))
      else Ok ((fh_file_id h, chunk_index, start, expected_len), []))"

definition read_payload :: "frame_header \<Rightarrow> current_chunk \<Rightarrow> bytes \<Rightarrow> in_stream \<Rightarrow> frame_outcome" where
  "read_payload h c buf r =
     (case c of (file_id, chunk_index, start, expected_len) \<Rightarrow>
      if fh_file_id h \<noteq> file_id
      then Broken (Protocol (Fmt ''stream interleaved files mid-chunk'' []))
      else if fh_offset h \<noteq> start + of_nat (length buf)
      then Broken (Protocol (Fmt ''out-of-order frame at offset {}, expected {}''
             [TNum (unat (fh_offset h)), TNum (unat (start + of_nat (length buf)))]))
      else if unat expected_len < length buf + unat (fh_length h)
      then Broken (Protocol (Fmt ''frame overruns its chunk'' []))
      else case read_exact r (unat (fh_length h)) of
        Err e \<Rightarrow> Broken (Io (Fmt ''reading frame payload: {e}'' []))
      | Ok (part, r') \<Rightarrow>
      let buf' = buf @ part in
      if length buf' = unat expected_len
      then Whole \<lparr>ss_in = r', ss_buf = [], ss_current = None\<rparr> c buf'
      else More \<lparr>ss_in = r', ss_buf = buf', ss_current = Some c\<rparr>)"

definition read_frame :: "(u64 \<rightharpoonup> file_state) \<Rightarrow> stream_state \<Rightarrow> frame_outcome" where
  "read_frame files ss =
     (case read_exact (ss_in ss) HEADER_LEN of
        Err UnexpectedEof \<Rightarrow> Closed
      | Err OtherIo \<Rightarrow> Broken (Io (Fmt ''reading frame header: {e}'' []))
      | Ok (header_buf, r) \<Rightarrow>
      case decode header_buf of
        Err e \<Rightarrow> Broken (Wire e)
      | Ok h \<Rightarrow>
      case fh_msg_type h of
        Keepalive \<Rightarrow> More (ss\<lparr>ss_in := r\<rparr>)
      | Control \<Rightarrow> Broken (Protocol (Fmt ''unexpected Control on a data stream'' []))
      | FileEnd \<Rightarrow> Broken (Protocol (Fmt ''unexpected FileEnd on a data stream'' []))
      | FileData \<Rightarrow>
      case files (fh_file_id h) of
        None \<Rightarrow> Broken (Protocol (Fmt ''unknown file id {}'' [TNum (unat (fh_file_id h))]))
      | Some st \<Rightarrow>
      case begin_chunk (st_layout st) h ss of
        Err e \<Rightarrow> Broken e
      | Ok (c, buf) \<Rightarrow> read_payload h c buf r)"

section \<open>Checkpoints\<close>

text \<open>
  \<open>sync_data\<close> makes the content of the staging file durable; the record goes through a synced
  temporary file, so the renamed sidecar is durable as well once the rename is.
\<close>

definition sync_data :: "os_env \<Rightarrow> recv_shared \<Rightarrow> path \<Rightarrow> (unit, core_error) result \<times> recv_shared" where
  "sync_data os sh p =
     (if os_fails os (SyncData p) then (Err (Io (Fmt ''syncing {}: {e}'' [])), sh)
      else (Ok (), sh\<lparr>rs_durable := (rs_durable sh)(p := rs_fs sh p)\<rparr>))"

definition persist_state ::
    "os_env \<Rightarrow> (bytes \<Rightarrow> hash) \<Rightarrow> recv_shared \<Rightarrow> file_state \<Rightarrow> chunk_bitmap
     \<Rightarrow> (unit, core_error) result \<times> recv_shared" where
  "persist_state os blake3 sh st snapshot =
     (case persist os blake3 (rs_fs sh) (sk_path (st_sink st)) (st_key st) snapshot of
        (r, fs') \<Rightarrow> (r, sh\<lparr>rs_fs := fs'\<rparr>))"

definition checkpoint ::
    "os_env \<Rightarrow> (bytes \<Rightarrow> hash) \<Rightarrow> recv_shared \<Rightarrow> file_state \<Rightarrow> (unit, core_error) result \<times> recv_shared" where
  "checkpoint os blake3 sh st =
     (let snapshot = st_bitmap st in
      if bm_set_count snapshot = 0 then (Ok (), sh)
      else case sync_data os sh (sk_path (st_sink st)) of
        (Err e, sh1) \<Rightarrow> (Err e, sh1)
      | (Ok _, sh1) \<Rightarrow> persist_state os blake3 sh1 st snapshot)"

section \<open>Stream workers\<close>

text \<open>
  The states of a worker: reading frames, then for a complete chunk the blocking verification and
  write, the update of the bitmap under its lock, the counter and the events, the accounting of
  \<open>checkpoint_if_due\<close>, its attempt to take the checkpoint lock, and the three stages of the
  checkpoint made while holding it.
\<close>

datatype worker =
    Reading stream_state
  | Verifying stream_state current_chunk bytes
  | Marking stream_state current_chunk
  | Counting stream_state current_chunk bool
  | Accounting stream_state current_chunk
  | Locking stream_state current_chunk
  | Snapshotting stream_state current_chunk
  | Syncing stream_state current_chunk chunk_bitmap
  | Persisting stream_state current_chunk chunk_bitmap
  | Done "(unit, core_error) result"

definition panicked :: core_error where
  "panicked = Io (Fmt ''stream worker panicked: {e}'' [])"

abbreviation set_file :: "recv_shared \<Rightarrow> u64 \<Rightarrow> file_state \<Rightarrow> recv_shared" where
  "set_file sh fid st \<equiv> sh\<lparr>rs_files := (rs_files sh)(fid \<mapsto> st)\<rparr>"

definition do_read :: "recv_shared \<Rightarrow> stream_state \<Rightarrow> worker" where
  "do_read sh ss =
     (case read_frame (rs_files sh) ss of
        Closed \<Rightarrow>
          if ss_current ss \<noteq> None then Done (Err (Incomplete (Fmt ''stream closed mid-chunk'' [])))
          else Done (Ok ())
      | Broken e \<Rightarrow> Done (Err e)
      | More ss' \<Rightarrow> Reading ss'
      | Whole ss' c payload \<Rightarrow> Verifying ss' c payload)"

definition do_verify ::
    "os_env \<Rightarrow> (bytes \<Rightarrow> hash) \<Rightarrow> recv_shared \<Rightarrow> file_state \<Rightarrow> stream_state \<Rightarrow> current_chunk \<Rightarrow> bytes
     \<Rightarrow> worker \<times> recv_shared" where
  "do_verify os blake3 sh st ss c payload =
     (case c of (file_id, chunk_index, start, expected_len) \<Rightarrow>
      if length (st_chunk_hashes st) \<le> unat chunk_index then (Done (Err panicked), sh)
      else case verify_and_write os blake3 (rs_fs sh) (sk_path (st_sink st)) start payload
                  (st_chunk_hashes st ! unat chunk_index) of
        (Err e, fs') \<Rightarrow> (Done (Err e), sh\<lparr>rs_fs := fs'\<rparr>)
      | (Ok _, fs') \<Rightarrow> (Marking ss c, sh\<lparr>rs_fs := fs'\<rparr>))"

definition do_mark ::
    "recv_shared \<Rightarrow> file_state \<Rightarrow> stream_state \<Rightarrow> current_chunk \<Rightarrow> worker \<times> recv_shared" where
  "do_mark sh st ss c =
     (case c of (file_id, chunk_index, start, expected_len) \<Rightarrow>
      case bitmap_set (st_bitmap st) chunk_index of
        Err e \<Rightarrow> (Done (Err (Wire e)), sh)
      | Ok b \<Rightarrow> (Counting ss c (bitmap_is_complete b), set_file sh file_id (st\<lparr>st_bitmap := b\<rparr>)))"

definition do_count ::
    "u64 \<Rightarrow> recv_shared \<Rightarrow> file_state \<Rightarrow> stream_state \<Rightarrow> current_chunk \<Rightarrow> bool \<Rightarrow> worker \<times> recv_shared" where
  "do_count total_sz sh st ss c complete =
     (case c of (file_id, chunk_index, start, expected_len) \<Rightarrow>
      let counter = rs_counter sh + ucast expected_len;
          evs = Progress counter total_sz
                # (if complete then [FileCompleted file_id (sk_path (st_sink st))] else [])
      in (Accounting ss c, sh\<lparr>rs_counter := counter, rs_events := rs_events sh @ evs\<rparr>))"

definition do_account ::
    "u64 \<Rightarrow> recv_shared \<Rightarrow> file_state \<Rightarrow> stream_state \<Rightarrow> current_chunk \<Rightarrow> worker \<times> recv_shared" where
  "do_account threshold sh st ss c =
     (case c of (file_id, chunk_index, start, expected_len) \<Rightarrow>
      if threshold = 0 then (Reading ss, sh)
      else let before = st_since_checkpoint st; added = ucast expected_len;
               sh' = set_file sh file_id (st\<lparr>st_since_checkpoint := before + added\<rparr>)
      in if before + added < threshold then (Reading ss, sh') else (Locking ss c, sh'))"

definition do_lock ::
    "recv_shared \<Rightarrow> file_state \<Rightarrow> stream_state \<Rightarrow> current_chunk \<Rightarrow> worker \<times> recv_shared" where
  "do_lock sh st ss c =
     (if st_checkpointing st then (Reading ss, sh)
      else (Snapshotting ss c,
            set_file sh (fst c) (st\<lparr>st_checkpointing := True, st_since_checkpoint := 0\<rparr>)))"

definition unlock :: "recv_shared \<Rightarrow> file_state \<Rightarrow> u64 \<Rightarrow> recv_shared" where
  "unlock sh st fid = set_file sh fid (st\<lparr>st_checkpointing := False\<rparr>)"

definition do_snapshot ::
    "recv_shared \<Rightarrow> file_state \<Rightarrow> stream_state \<Rightarrow> current_chunk \<Rightarrow> worker \<times> recv_shared" where
  "do_snapshot sh st ss c =
     (let snapshot = st_bitmap st in
      if bm_set_count snapshot = 0 then (Reading ss, unlock sh st (fst c))
      else (Syncing ss c snapshot, sh))"

definition do_sync ::
    "os_env \<Rightarrow> recv_shared \<Rightarrow> file_state \<Rightarrow> stream_state \<Rightarrow> current_chunk \<Rightarrow> chunk_bitmap
     \<Rightarrow> worker \<times> recv_shared" where
  "do_sync os sh st ss c snapshot =
     (case sync_data os sh (sk_path (st_sink st)) of
        (Err e, sh') \<Rightarrow> (Done (Err e), unlock sh' st (fst c))
      | (Ok _, sh') \<Rightarrow> (Persisting ss c snapshot, sh'))"

definition do_persist ::
    "os_env \<Rightarrow> (bytes \<Rightarrow> hash) \<Rightarrow> recv_shared \<Rightarrow> file_state \<Rightarrow> stream_state \<Rightarrow> current_chunk \<Rightarrow> chunk_bitmap
     \<Rightarrow> worker \<times> recv_shared" where
  "do_persist os blake3 sh st ss c snapshot =
     (case persist_state os blake3 sh st snapshot of
        (Err e, sh') \<Rightarrow> (Done (Err e), unlock sh' st (fst c))
      | (Ok _, sh') \<Rightarrow> (Reading ss, unlock sh' st (fst c)))"

text \<open>
  One step of a worker.  The map of files never changes its keys, so the file of a chunk that was begun
  is always found.
\<close>

record recv_env =
  re_os :: os_env
  re_blake3 :: "bytes \<Rightarrow> hash"
  re_total :: u64
  re_checkpoint :: u64

fun worker_chunk :: "worker \<Rightarrow> current_chunk option" where
  "worker_chunk (Verifying ss c p) = Some c"
| "worker_chunk (Marking ss c) = Some c"
| "worker_chunk (Counting ss c b) = Some c"
| "worker_chunk (Accounting ss c) = Some c"
| "worker_chunk (Locking ss c) = Some c"
| "worker_chunk (Snapshotting ss c) = Some c"
| "worker_chunk (Syncing ss c b) = Some c"
| "worker_chunk (Persisting ss c b) = Some c"
| "worker_chunk _ = None"

definition chunk_file :: "recv_shared \<Rightarrow> worker \<Rightarrow> file_state option" where
  "chunk_file sh w = (case worker_chunk w of None \<Rightarrow> None | Some c \<Rightarrow> rs_files sh (fst c))"

definition worker_step :: "recv_env \<Rightarrow> worker \<Rightarrow> recv_shared \<Rightarrow> worker \<times> recv_shared" where
  "worker_step env w sh =
     (case w of
        Reading ss \<Rightarrow> (do_read sh ss, sh)
      | Done r \<Rightarrow> (Done r, sh)
      | _ \<Rightarrow>
      (case chunk_file sh w of
         None \<Rightarrow> (Done (Err panicked), sh)
       | Some st \<Rightarrow>
       (case w of
          Verifying ss c payload \<Rightarrow> do_verify (re_os env) (re_blake3 env) sh st ss c payload
        | Marking ss c \<Rightarrow> do_mark sh st ss c
        | Counting ss c complete \<Rightarrow> do_count (re_total env) sh st ss c complete
        | Accounting ss c \<Rightarrow> do_account (re_checkpoint env) sh st ss c
        | Locking ss c \<Rightarrow> do_lock sh st ss c
        | Snapshotting ss c \<Rightarrow> do_snapshot sh st ss c
        | Syncing ss c snapshot \<Rightarrow> do_sync (re_os env) sh st ss c snapshot
        | Persisting ss c snapshot \<Rightarrow> do_persist (re_os env) (re_blake3 env) sh st ss c snapshot
        | _ \<Rightarrow> (w, sh))))"

section \<open>The data phase\<close>

text \<open>
  A schedule is a list of actions: worker \<open>i\<close> takes its next step, or the kernel writes a file back to
  the device, chunk \<open>k\<close> of a staging file or the directory entry and content of a sidecar.
\<close>

datatype action = Turn nat | Flush u64 nat | FlushRecord u64

record recv_sys =
  sys_shared :: recv_shared
  sys_workers :: "worker list"

definition flush_chunk :: "recv_shared \<Rightarrow> file_state \<Rightarrow> nat \<Rightarrow> recv_shared" where
  "flush_chunk sh st k =
     (let p = sk_path (st_sink st) in
      if k < ccount (st_layout st) \<and> rs_fs sh p \<noteq> None \<and> rs_durable sh p \<noteq> None
      then sh\<lparr>rs_durable := (rs_durable sh)(p \<mapsto>
             place (st_layout st) k (chunk_of (st_layout st) (content (rs_fs sh) p) k)
               (content (rs_durable sh) p))\<rparr>
      else sh)"

definition flush_record :: "recv_shared \<Rightarrow> file_state \<Rightarrow> recv_shared" where
  "flush_record sh st =
     (let p = state_path (sk_path (st_sink st)) in
      sh\<lparr>rs_durable := (rs_durable sh)(p := rs_fs sh p)\<rparr>)"

definition act :: "recv_env \<Rightarrow> action \<Rightarrow> recv_sys \<Rightarrow> recv_sys" where
  "act env a sys =
     (case a of
        Turn i \<Rightarrow>
          if i < length (sys_workers sys)
          then (case worker_step env (sys_workers sys ! i) (sys_shared sys) of
                  (w, sh) \<Rightarrow> \<lparr>sys_shared = sh, sys_workers = (sys_workers sys)[i := w]\<rparr>)
          else sys
      | Flush fid k \<Rightarrow>
          (case rs_files (sys_shared sys) fid of
             None \<Rightarrow> sys
           | Some st \<Rightarrow> sys\<lparr>sys_shared := flush_chunk (sys_shared sys) st k\<rparr>)
      | FlushRecord fid \<Rightarrow>
          (case rs_files (sys_shared sys) fid of
             None \<Rightarrow> sys
           | Some st \<Rightarrow> sys\<lparr>sys_shared := flush_record (sys_shared sys) st\<rparr>))"

definition run_schedule :: "recv_env \<Rightarrow> action list \<Rightarrow> recv_sys \<Rightarrow> recv_sys" where
  "run_schedule env as sys = fold (act env) as sys"

section \<open>What a session keeps\<close>

text \<open>
  A chunk position is trusted when the bytes there hash to the commitment.  Positions at which the
  operating system refuses to write are exempt: a partial write may have reached them, and the
  worker that met the refusal has failed.
\<close>

abbreviation fpath :: "file_state \<Rightarrow> path" where
  "fpath st \<equiv> sk_path (st_sink st)"

definition trusted :: "recv_env \<Rightarrow> file_state \<Rightarrow> bytes \<Rightarrow> nat \<Rightarrow> bool" where
  "trusted env st c i \<longleftrightarrow>
     os_fails (re_os env) (WriteAt (fpath st) (chunk_start (st_layout st) i))
     \<or> re_blake3 env (chunk_of (st_layout st) c i) = st_chunk_hashes st ! i"

definition covers :: "recv_env \<Rightarrow> file_state \<Rightarrow> bytes \<Rightarrow> chunk_bitmap \<Rightarrow> bool" where
  "covers env st c b \<longleftrightarrow> (\<forall>i < ccount (st_layout st). bools b ! i \<longrightarrow> trusted env st c i)"

definition bitmap_for :: "file_state \<Rightarrow> chunk_bitmap \<Rightarrow> bool" where
  "bitmap_for st b \<longleftrightarrow> bitmap_ok b \<and> bm_count b = cl_count (st_layout st)"

definition static_ok :: "file_state \<Rightarrow> bool" where
  "static_ok st \<longleftrightarrow> layout_ok (st_layout st) \<and> sk_layout (st_sink st) = st_layout st
     \<and> length (st_chunk_hashes st) = ccount (st_layout st)
     \<and> length (key_root_hash (st_key st)) = 32 \<and> bitmap_for st (st_bitmap st)"

definition space_ok :: "fs \<Rightarrow> file_state \<Rightarrow> bool" where
  "space_ok m st \<longleftrightarrow> ccount (st_layout st) = 0 \<or>
     (m (fpath st) \<noteq> None \<and> file_fits (st_layout st) (content m (fpath st)))"

text \<open>A record found at the sidecar path only claims chunks that are trusted on disk, also after a crash.\<close>

definition claim_ok :: "recv_env \<Rightarrow> recv_shared \<Rightarrow> file_state \<Rightarrow> bytes option \<Rightarrow> bool" where
  "claim_ok env sh st r \<longleftrightarrow>
     (\<forall>b. r = Some (state_record (re_blake3 env) (st_key st) b) \<and> bitmap_ok b \<longrightarrow>
        bitmap_for st b \<and> covers env st (content (rs_fs sh) (fpath st)) b
        \<and> covers env st (content (rs_durable sh) (fpath st)) b)"

definition file_inv :: "recv_env \<Rightarrow> recv_shared \<Rightarrow> file_state \<Rightarrow> bool" where
  "file_inv env sh st \<longleftrightarrow> static_ok st \<and> space_ok (rs_fs sh) st \<and> space_ok (rs_durable sh) st
     \<and> covers env st (content (rs_fs sh) (fpath st)) (st_bitmap st)
     \<and> claim_ok env sh st (rs_fs sh (state_path (fpath st)))
     \<and> claim_ok env sh st (rs_durable sh (state_path (fpath st)))"

definition file_paths :: "(u64 \<rightharpoonup> file_state) \<Rightarrow> u64 \<rightharpoonup> path" where
  "file_paths files = (\<lambda>f. map_option fpath (files f))"

definition names_disjoint :: "(u64 \<rightharpoonup> path) \<Rightarrow> bool" where
  "names_disjoint ps \<longleftrightarrow>
     (\<forall>f p f' p'. ps f = Some p \<and> ps f' = Some p' \<longrightarrow>
        (f \<noteq> f' \<longrightarrow> p \<noteq> p' \<and> state_path p \<noteq> state_path p')
        \<and> p \<noteq> state_path p' \<and> p \<noteq> tmp_path p' \<and> state_path p \<noteq> tmp_path p')"

definition chunk_ok :: "recv_shared \<Rightarrow> current_chunk \<Rightarrow> bool" where
  "chunk_ok sh c \<longleftrightarrow>
     (\<exists>st. rs_files sh (fst c) = Some st \<and> layout_range (st_layout st) (fst (snd c)) = Ok (snd (snd c)))"

definition stream_inv :: "recv_shared \<Rightarrow> stream_state \<Rightarrow> bool" where
  "stream_inv sh ss \<longleftrightarrow> (case ss_current ss of None \<Rightarrow> True | Some c \<Rightarrow> chunk_ok sh c)"

fun worker_inv :: "recv_env \<Rightarrow> recv_shared \<Rightarrow> worker \<Rightarrow> bool" where
  "worker_inv env sh (Reading ss) \<longleftrightarrow> stream_inv sh ss"
| "worker_inv env sh (Verifying ss c payload) \<longleftrightarrow>
     stream_inv sh ss \<and> chunk_ok sh c \<and> length payload = unat (snd (snd (snd c)))"
| "worker_inv env sh (Marking ss c) \<longleftrightarrow> stream_inv sh ss \<and> chunk_ok sh c
     \<and> (\<forall>st. rs_files sh (fst c) = Some st \<longrightarrow>
          trusted env st (content (rs_fs sh) (fpath st)) (unat (fst (snd c))))"
| "worker_inv env sh (Counting ss c complete) \<longleftrightarrow> stream_inv sh ss \<and> chunk_ok sh c"
| "worker_inv env sh (Accounting ss c) \<longleftrightarrow> stream_inv sh ss \<and> chunk_ok sh c"
| "worker_inv env sh (Locking ss c) \<longleftrightarrow> stream_inv sh ss \<and> chunk_ok sh c"
| "worker_inv env sh (Snapshotting ss c) \<longleftrightarrow> stream_inv sh ss \<and> chunk_ok sh c"
| "worker_inv env sh (Syncing ss c b) \<longleftrightarrow> stream_inv sh ss \<and> chunk_ok sh c
     \<and> (\<forall>st. rs_files sh (fst c) = Some st \<longrightarrow>
          bitmap_for st b \<and> covers env st (content (rs_fs sh) (fpath st)) b)"
| "worker_inv env sh (Persisting ss c b) \<longleftrightarrow> stream_inv sh ss \<and> chunk_ok sh c
     \<and> (\<forall>st. rs_files sh (fst c) = Some st \<longrightarrow>
          bitmap_for st b \<and> covers env st (content (rs_fs sh) (fpath st)) b
          \<and> covers env st (content (rs_durable sh) (fpath st)) b)"
| "worker_inv env sh (Done r) \<longleftrightarrow> True"

definition shared_inv :: "recv_env \<Rightarrow> recv_shared \<Rightarrow> bool" where
  "shared_inv env sh \<longleftrightarrow> names_disjoint (file_paths (rs_files sh))
     \<and> (\<forall>f st. rs_files sh f = Some st \<longrightarrow> file_inv env sh st)"

definition sys_inv :: "recv_env \<Rightarrow> recv_sys \<Rightarrow> bool" where
  "sys_inv env sys \<longleftrightarrow> (\<forall>x. length (re_blake3 env x) = 32) \<and> shared_inv env (sys_shared sys)
     \<and> (\<forall>w \<in> set (sys_workers sys). worker_inv env (sys_shared sys) w)"

text \<open>
  How the shared state may change under a worker's feet: files keep their identity, and a position
  that is trusted stays trusted, in the file and, if both agree, on the device.
\<close>

definition same_file :: "file_state \<Rightarrow> file_state \<Rightarrow> bool" where
  "same_file st st' \<longleftrightarrow> st_sink st' = st_sink st \<and> st_layout st' = st_layout st
     \<and> st_chunk_hashes st' = st_chunk_hashes st \<and> st_key st' = st_key st"

definition file_evolves :: "recv_env \<Rightarrow> recv_shared \<Rightarrow> recv_shared \<Rightarrow> file_state \<Rightarrow> file_state \<Rightarrow> bool" where
  "file_evolves env sh sh' st st' \<longleftrightarrow> same_file st st'
     \<and> (\<forall>i < ccount (st_layout st).
          (trusted env st (content (rs_fs sh) (fpath st)) i \<longrightarrow>
             trusted env st (content (rs_fs sh') (fpath st)) i)
        \<and> (trusted env st (content (rs_fs sh) (fpath st)) i
             \<and> trusted env st (content (rs_durable sh) (fpath st)) i \<longrightarrow>
             trusted env st (content (rs_durable sh') (fpath st)) i))"

definition evolves :: "recv_env \<Rightarrow> recv_shared \<Rightarrow> recv_shared \<Rightarrow> bool" where
  "evolves env sh sh' \<longleftrightarrow> (\<forall>f. rel_option (file_evolves env sh sh') (rs_files sh f) (rs_files sh' f))"

lemma same_file_refl [simp]: "same_file st st"
  by (simp add: same_file_def)

lemma trusted_same: "same_file st st' \<Longrightarrow> trusted env st' c i = trusted env st c i"
  by (simp add: same_file_def trusted_def)

lemma covers_same: "same_file st st' \<Longrightarrow> covers env st' c b = covers env st c b"
  by (simp add: same_file_def covers_def trusted_def)

lemma bitmap_for_same: "same_file st st' \<Longrightarrow> bitmap_for st' b = bitmap_for st b"
  by (simp add: same_file_def bitmap_for_def)

lemma file_evolves_refl [simp]: "file_evolves env sh sh st st"
  by (simp add: file_evolves_def)

lemma evolves_refl [simp]: "evolves env sh sh"
  by (simp add: evolves_def option.rel_refl)

lemma evolvesI:
  assumes "rs_files sh' = rs_files sh" and "\<And>f st. rs_files sh f = Some st \<Longrightarrow> file_evolves env sh sh' st st"
  shows "evolves env sh sh'"
  unfolding evolves_def assms(1)
proof
  fix f
  show "rel_option (file_evolves env sh sh') (rs_files sh f) (rs_files sh f)"
    using assms(2) by (cases "rs_files sh f") auto
qed

text \<open>Updating one file's bookkeeping fields.\<close>

lemma evolves_set_file:
  "rs_files sh f = Some st \<Longrightarrow> same_file st st' \<Longrightarrow> evolves env sh (set_file sh f st')"
  by (simp add: evolves_def file_evolves_def option.rel_refl)

lemma evolvesD:
  assumes "evolves env sh sh'" and "rs_files sh' f = Some st'"
  obtains st where "rs_files sh f = Some st" "file_evolves env sh sh' st st'"
  using assms unfolding evolves_def by (metis option_rel_Some2)

lemma evolvesE:
  assumes "evolves env sh sh'" and "rs_files sh f = Some st"
  obtains st' where "rs_files sh' f = Some st'" "file_evolves env sh sh' st st'"
  using assms unfolding evolves_def by (metis option_rel_Some1)

lemma file_evolves_covers:
  assumes "file_evolves env sh sh' st st'" "covers env st (content (rs_fs sh) (fpath st)) b"
  shows "covers env st' (content (rs_fs sh') (fpath st')) b"
    "covers env st (content (rs_durable sh) (fpath st)) b \<Longrightarrow>
     covers env st' (content (rs_durable sh') (fpath st')) b"
  using assms by (auto simp: file_evolves_def covers_def same_file_def trusted_def)

lemma file_evolves_bitmap_for: "file_evolves env sh sh' st st' \<Longrightarrow> bitmap_for st' b = bitmap_for st b"
  by (simp add: file_evolves_def bitmap_for_same)

lemma chunk_ok_evolves:
  assumes "evolves env sh sh'" "chunk_ok sh c"
  shows "chunk_ok sh' c"
proof -
  obtain st where st: "rs_files sh (fst c) = Some st"
      "layout_range (st_layout st) (fst (snd c)) = Ok (snd (snd c))"
    using assms(2) by (auto simp: chunk_ok_def)
  obtain st' where "rs_files sh' (fst c) = Some st'" "file_evolves env sh sh' st st'"
    using evolvesE [OF assms(1) st(1)] .
  with st(2) show ?thesis
    by (auto simp: chunk_ok_def file_evolves_def same_file_def)
qed

lemma stream_inv_evolves: "evolves env sh sh' \<Longrightarrow> stream_inv sh ss \<Longrightarrow> stream_inv sh' ss"
  by (auto simp: stream_inv_def chunk_ok_evolves split: option.splits)

lemma chunk_in_range:
  assumes "rs_files sh f = Some st" and "chunk_ok sh c" and "f = fst c" and "layout_ok (st_layout st)"
  shows "unat (fst (snd c)) < ccount (st_layout st)"
    "unat (fst (snd (snd c))) = chunk_start (st_layout st) (unat (fst (snd c)))"
    "unat (snd (snd (snd c))) = chunk_len (st_layout st) (unat (fst (snd c)))"
  using assms layout_range_Ok [OF assms(4), of "fst (snd c)" "fst (snd (snd c))" "snd (snd (snd c))"]
  by (auto simp: chunk_ok_def)

lemma worker_inv_evolves:
  assumes "evolves env sh sh'" and "worker_inv env sh w" and "shared_inv env sh"
  shows "worker_inv env sh' w"
proof -
  note e = chunk_ok_evolves [OF assms(1)] stream_inv_evolves [OF assms(1)]
  show ?thesis
  proof (cases w)
    case (Marking ss c)
    have "trusted env st' (content (rs_fs sh') (fpath st')) (unat (fst (snd c)))"
      if h: "rs_files sh' (fst c) = Some st'" for st'
    proof -
      obtain st where st: "rs_files sh (fst c) = Some st" "file_evolves env sh sh' st st'"
        using evolvesD [OF assms(1) h] .
      moreover have "layout_ok (st_layout st)"
        using assms(3) st(1) by (auto simp: shared_inv_def file_inv_def static_ok_def)
      ultimately have "unat (fst (snd c)) < ccount (st_layout st)"
        using chunk_in_range(1) [OF st(1)] assms(2) Marking by auto
      with st assms(2) Marking show ?thesis
        by (auto simp: file_evolves_def trusted_same) (auto simp: same_file_def)
    qed
    with Marking e assms(2) show ?thesis by auto
  next
    case (Syncing ss c b)
    have "bitmap_for st' b \<and> covers env st' (content (rs_fs sh') (fpath st')) b"
      if h: "rs_files sh' (fst c) = Some st'" for st'
    proof -
      obtain st where "rs_files sh (fst c) = Some st" "file_evolves env sh sh' st st'"
        using evolvesD [OF assms(1) h] .
      with assms(2) Syncing show ?thesis
        by (simp add: file_evolves_covers file_evolves_bitmap_for)
    qed
    with Syncing e assms(2) show ?thesis by auto
  next
    case (Persisting ss c b)
    have "bitmap_for st' b \<and> covers env st' (content (rs_fs sh') (fpath st')) b
        \<and> covers env st' (content (rs_durable sh') (fpath st')) b"
      if h: "rs_files sh' (fst c) = Some st'" for st'
    proof -
      obtain st where "rs_files sh (fst c) = Some st" "file_evolves env sh sh' st st'"
        using evolvesD [OF assms(1) h] .
      with assms(2) Persisting show ?thesis
        by (simp add: file_evolves_covers file_evolves_bitmap_for)
    qed
    with Persisting e assms(2) show ?thesis by auto
  qed (use e assms(2) in auto)
qed

lemma claim_ok_evolves:
  assumes "file_evolves env sh sh' st st'" "claim_ok env sh st r"
  shows "claim_ok env sh' st' r"
proof -
  have "st_key st' = st_key st"
    using assms(1) by (simp add: file_evolves_def same_file_def)
  then show ?thesis
    using assms(2) file_evolves_covers [OF assms(1)] file_evolves_bitmap_for [OF assms(1)]
    by (simp add: claim_ok_def)
qed

section \<open>Preservation, step by step\<close>

lemma file_inv_evolves:
  assumes "file_inv env sh st" and "file_evolves env sh sh' st st'"
    and "bitmap_for st' (st_bitmap st')"
    and "covers env st' (content (rs_fs sh') (fpath st')) (st_bitmap st')"
    and "space_ok (rs_fs sh') st'" and "space_ok (rs_durable sh') st'"
    and "rs_fs sh' (state_path (fpath st')) = rs_fs sh (state_path (fpath st'))
         \<or> claim_ok env sh' st' (rs_fs sh' (state_path (fpath st')))"
    and "rs_durable sh' (state_path (fpath st')) \<in>
         {rs_fs sh (state_path (fpath st')), rs_durable sh (state_path (fpath st'))}"
  shows "file_inv env sh' st'"
proof -
  have same: "same_file st st'" using assms(2) by (simp add: file_evolves_def)
  then have "static_ok st'"
    using assms(1,3) by (simp add: file_inv_def static_ok_def same_file_def)
  moreover have "claim_ok env sh' st' (rs_fs sh' (state_path (fpath st')))"
    and "claim_ok env sh' st' (rs_durable sh' (state_path (fpath st')))"
    using assms(1,7,8) claim_ok_evolves [OF assms(2)] same
    by (auto simp: file_inv_def same_file_def)
  ultimately show ?thesis
    using assms(4-6) by (simp add: file_inv_def)
qed

lemma space_ok_same: "same_file st st' \<Longrightarrow> space_ok m st' = space_ok m st"
  by (simp add: space_ok_def same_file_def)

lemma shared_inv_D:
  assumes "shared_inv env sh" and "rs_files sh f = Some st"
  shows "file_inv env sh st" "static_ok st" "layout_ok (st_layout st)"
    "bitmap_for st (st_bitmap st)" "length (st_chunk_hashes st) = ccount (st_layout st)"
    "covers env st (content (rs_fs sh) (fpath st)) (st_bitmap st)"
  using assms by (auto simp: shared_inv_def file_inv_def static_ok_def)

lemma names_disjointD:
  assumes "names_disjoint ps" and "ps f = Some p" and "ps f' = Some p'"
  shows "(f \<noteq> f' \<longrightarrow> p \<noteq> p' \<and> state_path p \<noteq> state_path p')
     \<and> p \<noteq> state_path p' \<and> p \<noteq> tmp_path p' \<and> state_path p \<noteq> tmp_path p'"
  by (rule assms(1) [unfolded names_disjoint_def, rule_format, OF conjI [OF assms(2,3)]])

lemma shared_names:
  assumes "shared_inv env sh" and "rs_files sh f = Some st" and "rs_files sh f' = Some st'"
  shows "f \<noteq> f' \<Longrightarrow> fpath st \<noteq> fpath st'" "f \<noteq> f' \<Longrightarrow> state_path (fpath st) \<noteq> state_path (fpath st')"
    "fpath st \<noteq> state_path (fpath st')" "fpath st \<noteq> tmp_path (fpath st')"
    "state_path (fpath st) \<noteq> tmp_path (fpath st')"
proof -
  have "names_disjoint (file_paths (rs_files sh))" using assms(1) by (simp add: shared_inv_def)
  moreover have "file_paths (rs_files sh) f = Some (fpath st)" "file_paths (rs_files sh) f' = Some (fpath st')"
    using assms(2,3) by (simp_all add: file_paths_def)
  ultimately have n: "(f \<noteq> f' \<longrightarrow> fpath st \<noteq> fpath st' \<and> state_path (fpath st) \<noteq> state_path (fpath st'))
     \<and> fpath st \<noteq> state_path (fpath st') \<and> fpath st \<noteq> tmp_path (fpath st')
     \<and> state_path (fpath st) \<noteq> tmp_path (fpath st')"
    by (rule names_disjointD)
  then show "f \<noteq> f' \<Longrightarrow> fpath st \<noteq> fpath st'" by blast
  from n show "f \<noteq> f' \<Longrightarrow> state_path (fpath st) \<noteq> state_path (fpath st')" by blast
  from n show "fpath st \<noteq> state_path (fpath st')" by blast
  from n show "fpath st \<noteq> tmp_path (fpath st')" by blast
  from n show "state_path (fpath st) \<noteq> tmp_path (fpath st')" by blast
qed

text \<open>Bookkeeping on one file.\<close>

lemma set_file_step:
  assumes "shared_inv env sh" and "rs_files sh f = Some st" and "same_file st st'"
    and "bitmap_for st (st_bitmap st')"
    and "covers env st (content (rs_fs sh) (fpath st)) (st_bitmap st')"
  shows "evolves env sh (set_file sh f st')" "shared_inv env (set_file sh f st')"
proof -
  have fp: "fpath st' = fpath st" using assms(3) by (simp add: same_file_def)
  let ?sh = "set_file sh f st'"
  show "evolves env sh ?sh"
    using assms(2,3) by (rule evolves_set_file)
  have "file_evolves env sh ?sh st st'"
    using assms(3) by (simp add: file_evolves_def)
  then have "file_inv env ?sh st'"
  proof (rule file_inv_evolves [OF shared_inv_D(1) [OF assms(1,2)]])
    show "bitmap_for st' (st_bitmap st')"
      unfolding bitmap_for_same [OF assms(3)] by (rule assms(4))
    show "covers env st' (content (rs_fs ?sh) (fpath st')) (st_bitmap st')"
      unfolding covers_same [OF assms(3)] fp using assms(5) by simp
    show "space_ok (rs_fs ?sh) st'" "space_ok (rs_durable ?sh) st'"
      unfolding space_ok_same [OF assms(3)]
      using shared_inv_D(1) [OF assms(1,2)] by (simp_all add: file_inv_def)
  qed simp_all
  moreover have "file_inv env ?sh st''" if "rs_files sh f' = Some st''" for f' st''
    using shared_inv_D(1) [OF assms(1) that] by (simp add: file_inv_def claim_ok_def)
  moreover have "file_paths ((rs_files sh)(f \<mapsto> st')) = file_paths (rs_files sh)"
    using assms(2) fp by (simp add: file_paths_def fun_eq_iff)
  then have "names_disjoint (file_paths ((rs_files sh)(f \<mapsto> st')))"
    using assms(1) by (simp add: shared_inv_def)
  ultimately show "shared_inv env ?sh"
    by (auto simp: shared_inv_def)
qed

text \<open>The counter and the events do not matter.\<close>

lemma count_step:
  assumes "shared_inv env sh"
  shows "evolves env sh (sh\<lparr>rs_counter := n, rs_events := e\<rparr>)"
    "shared_inv env (sh\<lparr>rs_counter := n, rs_events := e\<rparr>)"
  using assms
  by (auto simp: evolves_def file_evolves_def option.rel_refl shared_inv_def file_inv_def claim_ok_def)

text \<open>A positional write inside one chunk leaves the others alone, even when it is cut short.\<close>

lemma chunk_of_place_other:
  assumes "file_fits l c" and "i < ccount l" and "length bs \<le> chunk_len l i" and "j \<noteq> i"
  shows "chunk_of l (place l i bs c) j = chunk_of l c j" "file_fits l (place l i bs c)"
proof -
  have b: "chunk_start l i + length bs \<le> length c"
    using assms chunk_len_bounds(3) [of l i] by (simp add: file_fits_def)
  then show "chunk_of l (place l i bs c) j = chunk_of l c j"
    using chunks_disjoint [OF assms(4), of l] assms(3)
    by (auto simp: chunk_of_def place_def intro!: sub_slice_write_at_other)
  show "file_fits l (place l i bs c)"
    using assms(1) b by (simp add: file_fits_def place_def length_write_at)
qed

text \<open>Changes of the file system or the device: file by file.\<close>

lemma disk_step:
  assumes "shared_inv env sh" and "rs_files sh' = rs_files sh"
    and "\<And>f st. rs_files sh f = Some st \<Longrightarrow> file_evolves env sh sh' st st
      \<and> space_ok (rs_fs sh') st \<and> space_ok (rs_durable sh') st
      \<and> (rs_fs sh' (state_path (fpath st)) = rs_fs sh (state_path (fpath st))
         \<or> claim_ok env sh' st (rs_fs sh' (state_path (fpath st))))
      \<and> rs_durable sh' (state_path (fpath st)) \<in>
         {rs_fs sh (state_path (fpath st)), rs_durable sh (state_path (fpath st))}"
  shows "evolves env sh sh'" "shared_inv env sh'"
proof -
  show "evolves env sh sh'"
    using assms(2,3) by (intro evolvesI) auto
  have "file_inv env sh' st" if h: "rs_files sh f = Some st" for f st
  proof -
    note a = assms(3) [OF h]
    have ev: "file_evolves env sh sh' st st" using a by (rule conjunct1)
    show ?thesis
    proof (rule file_inv_evolves [OF shared_inv_D(1) [OF assms(1) h] ev])
      show "bitmap_for st (st_bitmap st)"
        by (rule shared_inv_D(4) [OF assms(1) h])
      show "covers env st (content (rs_fs sh') (fpath st)) (st_bitmap st)"
        by (rule file_evolves_covers(1) [OF ev shared_inv_D(6) [OF assms(1) h]])
    qed (use a in simp_all)
  qed
  with assms(1,2) show "shared_inv env sh'" by (simp add: shared_inv_def)
qed

text \<open>Verifying and writing a chunk.\<close>

lemma verify_and_write_file:
  assumes "space_ok fs st" and "static_ok st" and "i < ccount (st_layout st)"
    and "unat start = chunk_start (st_layout st) i" and "length payload = chunk_len (st_layout st) i"
    and "verify_and_write (re_os env) (re_blake3 env) fs (fpath st) start payload (st_chunk_hashes st ! i) = (r, fs')"
  shows "\<And>q. q \<noteq> fpath st \<Longrightarrow> fs' q = fs q" "space_ok fs' st"
    "\<And>j. j < ccount (st_layout st) \<Longrightarrow> trusted env st (content fs (fpath st)) j \<Longrightarrow>
       trusted env st (content fs' (fpath st)) j"
    "r = Ok () \<Longrightarrow> trusted env st (content fs' (fpath st)) i"
proof -
  let ?l = "st_layout st" and ?c = "content fs (fpath st)"
  have fits: "file_fits ?l ?c" using assms(1,3) by (simp add: space_ok_def)
  consider "fs' = fs" "r \<noteq> Ok ()"
    | k where "fs' = fs(fpath st \<mapsto> place ?l i (take k payload) ?c)" "r \<noteq> Ok ()"
        "os_fails (re_os env) (WriteAt (fpath st) (chunk_start ?l i))"
    | "fs' = fs(fpath st \<mapsto> place ?l i payload ?c)" "re_blake3 env payload = st_chunk_hashes st ! i"
    using assms(4,6)
    by (auto simp: verify_and_write_def hash_chunk_def Let_def place_def split: if_splits)
  then have "(\<forall>q. q \<noteq> fpath st \<longrightarrow> fs' q = fs q) \<and> space_ok fs' st
    \<and> (\<forall>j < ccount ?l. trusted env st ?c j \<longrightarrow> trusted env st (content fs' (fpath st)) j)
    \<and> (r = Ok () \<longrightarrow> trusted env st (content fs' (fpath st)) i)"
  proof cases
    case 1
    with assms(1) show ?thesis by simp
  next
    case 2
    have "length (take k payload) \<le> chunk_len ?l i" using assms(5) by simp
    note p = chunk_of_place_other [OF fits assms(3) this]
    then have "file_fits ?l (place ?l i (take k payload) ?c)" by (metis n_not_Suc_n)
    moreover have "trusted env st ?c j \<Longrightarrow> trusted env st (place ?l i (take k payload) ?c) j" for j
      by (cases "j = i") (use 2 p(1) in \<open>auto simp: trusted_def\<close>)
    ultimately show ?thesis
      using 2 by (auto simp: space_ok_def)
  next
    case 3
    then show ?thesis
      using chunk_of_place [OF fits assms(3,5)] place_fits [OF fits assms(3,5)]
      by (auto simp: space_ok_def trusted_def)
  qed
  then show "\<And>q. q \<noteq> fpath st \<Longrightarrow> fs' q = fs q" "space_ok fs' st"
    "\<And>j. j < ccount ?l \<Longrightarrow> trusted env st ?c j \<Longrightarrow> trusted env st (content fs' (fpath st)) j"
    "r = Ok () \<Longrightarrow> trusted env st (content fs' (fpath st)) i"
    by auto
qed

lemma covers_mono:
  "covers env st c b \<Longrightarrow> (\<And>j. j < ccount (st_layout st) \<Longrightarrow> trusted env st c j \<Longrightarrow> trusted env st c' j)
   \<Longrightarrow> covers env st c' b"
  by (auto simp: covers_def)

lemma content_cong: "m p = m' p \<Longrightarrow> content m p = content m' p"
  by (simp add: content_def)

lemma write_step:
  assumes "shared_inv env sh" and "rs_files sh f = Some st" and "i < ccount (st_layout st)"
    and "unat start = chunk_start (st_layout st) i" and "length payload = chunk_len (st_layout st) i"
    and "verify_and_write (re_os env) (re_blake3 env) (rs_fs sh) (fpath st) start payload (st_chunk_hashes st ! i) = (r, fs')"
  shows "evolves env sh (sh\<lparr>rs_fs := fs'\<rparr>)" "shared_inv env (sh\<lparr>rs_fs := fs'\<rparr>)"
    "r = Ok () \<Longrightarrow> trusted env st (content fs' (fpath st)) i"
proof -
  let ?sh = "sh\<lparr>rs_fs := fs'\<rparr>"
  have sp: "space_ok (rs_fs sh) st"
    using shared_inv_D(1) [OF assms(1,2)] by (simp add: file_inv_def)
  note v = verify_and_write_file [OF sp shared_inv_D(2) [OF assms(1,2)] assms(3-6)]
  show "r = Ok () \<Longrightarrow> trusted env st (content fs' (fpath st)) i" by (rule v)
  have side: "fs' (state_path (fpath st')) = rs_fs sh (state_path (fpath st'))"
    if h: "rs_files sh f' = Some st'" for f' st'
    using shared_names(3) [OF assms(1,2) h] by (intro v) simp
  have st: "file_evolves env sh ?sh st' st' \<and> space_ok fs' st'" if h: "rs_files sh f' = Some st'" for f' st'
  proof (cases "f' = f")
    case True
    with h assms(2) v(2,3) show ?thesis by (simp add: file_evolves_def)
  next
    case False
    then have "fpath st' \<noteq> fpath st" using shared_names(1) [OF assms(1) h assms(2)] by simp
    then have "fs' (fpath st') = rs_fs sh (fpath st')" by (rule v)
    with shared_inv_D(1) [OF assms(1) h] show ?thesis
      by (simp add: file_evolves_def file_inv_def space_ok_def content_def)
  qed
  have d: "space_ok (rs_durable sh) st'" if "rs_files sh f' = Some st'" for f' st'
    using shared_inv_D(1) [OF assms(1) that] by (simp add: file_inv_def)
  show "evolves env sh ?sh" "shared_inv env ?sh"
    by (rule disk_step [OF assms(1)]; use st side d in simp)+
qed

text \<open>Syncing a staging file: the device now holds what the file holds.\<close>

lemma sync_step:
  assumes "shared_inv env sh" and "rs_files sh f = Some st"
    and "sync_data os sh (fpath st) = (r, sh')"
  shows "evolves env sh sh'" "shared_inv env sh'" "rs_files sh' = rs_files sh" "rs_fs sh' = rs_fs sh"
    "r = Ok () \<Longrightarrow> content (rs_durable sh') (fpath st) = content (rs_fs sh') (fpath st)"
proof -
  show base: "rs_files sh' = rs_files sh" "rs_fs sh' = rs_fs sh"
    using assms(3) by (auto simp: sync_data_def split: if_splits)
  show "r = Ok () \<Longrightarrow> content (rs_durable sh') (fpath st) = content (rs_fs sh') (fpath st)"
    using assms(3) by (auto simp: sync_data_def content_def split: if_splits)
  have d: "rs_durable sh' q = (if q = fpath st then rs_fs sh q else rs_durable sh q)
      \<or> rs_durable sh' = rs_durable sh" for q
    using assms(3) by (auto simp: sync_data_def split: if_splits)
  have st: "file_evolves env sh sh' st' st' \<and> space_ok (rs_durable sh') st'
      \<and> rs_durable sh' (state_path (fpath st')) = rs_durable sh (state_path (fpath st'))"
    if h: "rs_files sh f' = Some st'" for f' st'
  proof -
    have "rs_durable sh' (fpath st') \<in> {rs_fs sh (fpath st'), rs_durable sh (fpath st')}"
      using d [of "fpath st'"] by (auto split: if_splits)
    moreover have "rs_durable sh' (state_path (fpath st')) = rs_durable sh (state_path (fpath st'))"
      using d [of "state_path (fpath st')"] shared_names(3) [OF assms(1,2) h] by (auto split: if_splits)
    ultimately show ?thesis
      using shared_inv_D(1) [OF assms(1) h] base
      by (auto simp: file_evolves_def file_inv_def space_ok_def content_def)
  qed
  have sp: "space_ok (rs_fs sh) st'" if "rs_files sh f' = Some st'" for f' st'
    using shared_inv_D(1) [OF assms(1) that] by (simp add: file_inv_def)
  show "evolves env sh sh'" "shared_inv env sh'"
    by (rule disk_step [OF assms(1)]; use base st sp in simp)+
qed

text \<open>
  Writing the record: it replaces the sidecar of one file, and what it claims is trusted both in the
  file and on the device.
\<close>

lemma state_record_inject:
  assumes "\<And>x. length (blake3 x) = 32" and "length (key_root_hash key) = 32"
    and "state_record blake3 key b = state_record blake3 key b'" and "bitmap_ok b" and "bitmap_ok b'"
  shows "b = b'"
proof -
  define fs :: fs where "fs = [[''f''] \<mapsto> replicate (unat (key_file_size key)) 0,
      state_path [''f''] \<mapsto> state_record blake3 key b]"
  have "state_path [''f''] \<noteq> [''f'']" by (rule state_path_neq)
  then have "load quiet_os blake3 fs [''f''] key = Some b" "load quiet_os blake3 fs [''f''] key = Some b'"
    using assms by (auto simp: load_eq fs_def quiet_os_def)
  then show ?thesis by simp
qed

lemma persist_step:
  assumes "shared_inv env sh" and "\<And>x. length (re_blake3 env x) = 32" and "rs_files sh f = Some st"
    and "bitmap_for st b" and "covers env st (content (rs_fs sh) (fpath st)) b"
    and "covers env st (content (rs_durable sh) (fpath st)) b"
    and "persist_state os (re_blake3 env) sh st b = (r, sh')"
  shows "evolves env sh sh'" "shared_inv env sh'" "rs_files sh' = rs_files sh"
proof -
  obtain fs' where p: "persist os (re_blake3 env) (rs_fs sh) (fpath st) (st_key st) b = (r, fs')"
      "sh' = sh\<lparr>rs_fs := fs'\<rparr>"
    using assms(7) by (auto simp: persist_state_def split: prod.splits)
  note frame = persist_frame [OF p(1)]
  show base: "rs_files sh' = rs_files sh" by (simp add: p)
  have same: "fs' (fpath st') = rs_fs sh (fpath st')" if h: "rs_files sh f' = Some st'" for f' st'
    using frame [of "fpath st'"] shared_names(3,4) [OF assms(1) h assms(3)] by simp
  have ev: "file_evolves env sh sh' st' st' \<and> space_ok (rs_fs sh') st' \<and> space_ok (rs_durable sh') st'"
    if h: "rs_files sh f' = Some st'" for f' st'
    using same [OF h] shared_inv_D(1) [OF assms(1) h]
    by (simp add: file_evolves_def file_inv_def space_ok_def content_def p)
  have side: "rs_fs sh' (state_path (fpath st')) = rs_fs sh (state_path (fpath st'))
      \<or> claim_ok env sh' st' (rs_fs sh' (state_path (fpath st')))"
    if h: "rs_files sh f' = Some st'" for f' st'
  proof (cases "f' = f \<and> r = Ok ()")
    case False
    then have "\<not> (r = Ok () \<and> state_path (fpath st') = state_path (fpath st))"
      using shared_names(2) [OF assms(1) h assms(3)] by auto
    then show ?thesis
      using frame [of "state_path (fpath st')"] shared_names(5) [OF assms(1) h assms(3)] by (auto simp: p)
  next
    case True
    then have st': "st' = st" using h assms(3) by simp
    have "fs' (state_path (fpath st)) = Some (state_record (re_blake3 env) (st_key st) b)"
      using True frame [of "state_path (fpath st)"] tmp_path_neq(2) [of "fpath st"] by simp
    moreover have "content fs' (fpath st) = content (rs_fs sh) (fpath st)"
      using same [OF assms(3)] by (rule content_cong)
    moreover have "b' = b" if "state_record (re_blake3 env) (st_key st) b = state_record (re_blake3 env) (st_key st) b'"
      "bitmap_ok b'" for b'
      using state_record_inject [OF assms(2) _ that(1)] that(2) assms(4) shared_inv_D(2) [OF assms(1,3)]
      by (simp add: static_ok_def bitmap_for_def)
    ultimately have "claim_ok env sh' st (rs_fs sh' (state_path (fpath st)))"
      using assms(4-6) by (auto simp: claim_ok_def p)
    then show ?thesis by (simp add: st')
  qed
  have du: "rs_durable sh' = rs_durable sh" by (simp add: p)
  show "evolves env sh sh'" "shared_inv env sh'"
    by (rule disk_step [OF assms(1) base]; use ev side du in simp)+
qed

text \<open>Write-back by the kernel.\<close>

lemma flush_chunk_step:
  assumes "shared_inv env sh" and "rs_files sh f = Some st"
  shows "evolves env sh (flush_chunk sh st k) \<and> shared_inv env (flush_chunk sh st k)"
proof (cases "k < ccount (st_layout st) \<and> rs_fs sh (fpath st) \<noteq> None \<and> rs_durable sh (fpath st) \<noteq> None")
  case False
  then have "flush_chunk sh st k = sh" by (auto simp: flush_chunk_def Let_def)
  with assms(1) show ?thesis by simp
next
  case True
  let ?l = "st_layout st" and ?p = "fpath st"
  let ?c = "content (rs_fs sh) ?p" and ?d = "content (rs_durable sh) ?p"
  let ?sh = "flush_chunk sh st k"
  have sh: "?sh = sh\<lparr>rs_durable := (rs_durable sh)(?p \<mapsto> place ?l k (chunk_of ?l ?c k) ?d)\<rparr>"
    using True by (simp add: flush_chunk_def Let_def)
  have inv: "file_inv env sh st" by (rule shared_inv_D(1) [OF assms])
  then have fits: "file_fits ?l ?c" "file_fits ?l ?d"
    using True by (auto simp: file_inv_def space_ok_def)
  then have len: "length (chunk_of ?l ?c k) = chunk_len ?l k"
    using True by (simp add: length_chunk_of file_fits_def)
  note pl = chunk_of_place [OF fits(2) _ len] place_fits [OF fits(2) _ len]
  have st: "file_evolves env sh ?sh st' st' \<and> space_ok (rs_durable ?sh) st' \<and> space_ok (rs_fs ?sh) st'
      \<and> rs_durable ?sh (state_path (fpath st')) = rs_durable sh (state_path (fpath st'))"
    if h: "rs_files sh f' = Some st'" for f' st'
  proof -
    have side: "state_path (fpath st') \<noteq> ?p"
      using shared_names(3) [OF assms(1,2) h] by simp
    show ?thesis
    proof (cases "f' = f")
      case True': True
      then have "st' = st" using h assms(2) by simp
      then show ?thesis
        using pl True inv side
        by (auto simp: file_evolves_def space_ok_def sh trusted_def file_inv_def)
    next
      case False
      then have "fpath st' \<noteq> ?p" using shared_names(1) [OF assms(1) h assms(2)] by simp
      with side shared_inv_D(1) [OF assms(1) h] show ?thesis
        by (auto simp: file_evolves_def space_ok_def sh file_inv_def)
    qed
  qed
  have base: "rs_files ?sh = rs_files sh" "rs_fs ?sh = rs_fs sh" by (simp_all add: sh)
  have "evolves env sh ?sh" "shared_inv env ?sh"
    by (rule disk_step [OF assms(1) base(1)]; use st base in simp)+
  then show ?thesis ..
qed

lemma flush_record_step:
  assumes "shared_inv env sh" and "rs_files sh f = Some st"
  shows "evolves env sh (flush_record sh st) \<and> shared_inv env (flush_record sh st)"
proof -
  let ?sh = "flush_record sh st"
  have base: "rs_files ?sh = rs_files sh" "rs_fs ?sh = rs_fs sh"
    by (simp_all add: flush_record_def Let_def)
  have st: "file_evolves env sh ?sh st' st' \<and> space_ok (rs_durable ?sh) st' \<and> space_ok (rs_fs ?sh) st'
      \<and> rs_durable ?sh (state_path (fpath st')) \<in>
          {rs_fs sh (state_path (fpath st')), rs_durable sh (state_path (fpath st'))}"
    if h: "rs_files sh f' = Some st'" for f' st'
  proof -
    have "fpath st' \<noteq> state_path (fpath st)" by (rule shared_names(3) [OF assms(1) h assms(2)])
    with shared_inv_D(1) [OF assms(1) h] show ?thesis
      by (auto simp: file_evolves_def space_ok_def flush_record_def Let_def file_inv_def content_def)
  qed
  have "evolves env sh ?sh" "shared_inv env ?sh"
    by (rule disk_step [OF assms(1) base(1)]; use st base in simp)+
  then show ?thesis ..
qed

section \<open>Preservation by every action\<close>

text \<open>What reading a frame establishes, for any bytes the peer may have sent.\<close>

lemma begin_chunk_ok:
  assumes "begin_chunk (st_layout st) h ss = Ok (c, buf)" and "rs_files sh (fh_file_id h) = Some st"
    and "stream_inv sh ss"
  shows "chunk_ok sh c"
  using assms
  by (auto simp: begin_chunk_def stream_inv_def chunk_ok_def split: option.splits result.splits if_splits)

lemma read_frame_ok:
  assumes "stream_inv sh ss"
  shows "read_frame (rs_files sh) ss = More ss' \<Longrightarrow> stream_inv sh ss'"
    "read_frame (rs_files sh) ss = Whole ss' c payload \<Longrightarrow>
       stream_inv sh ss' \<and> chunk_ok sh c \<and> length payload = unat (snd (snd (snd c)))"
proof -
  have "case read_frame (rs_files sh) ss of
      More ss' \<Rightarrow> stream_inv sh ss'
    | Whole ss' c payload \<Rightarrow> stream_inv sh ss' \<and> chunk_ok sh c \<and> length payload = unat (snd (snd (snd c)))
    | _ \<Rightarrow> True"
    using assms
    by (auto simp: read_frame_def read_payload_def Let_def stream_inv_def
        split: result.splits io_kind.splits msg_type.splits option.splits
        dest!: begin_chunk_ok)
  then show "read_frame (rs_files sh) ss = More ss' \<Longrightarrow> stream_inv sh ss'"
    "read_frame (rs_files sh) ss = Whole ss' c payload \<Longrightarrow>
       stream_inv sh ss' \<and> chunk_ok sh c \<and> length payload = unat (snd (snd (snd c)))"
    by auto
qed

definition step_ok :: "recv_env \<Rightarrow> recv_shared \<Rightarrow> worker \<times> recv_shared \<Rightarrow> bool" where
  "step_ok env sh r \<longleftrightarrow> evolves env sh (snd r) \<and> shared_inv env (snd r) \<and> worker_inv env (snd r) (fst r)"

lemma do_read_ok:
  assumes "shared_inv env sh" and "worker_inv env sh (Reading ss)"
  shows "step_ok env sh (do_read sh ss, sh)"
proof -
  have si: "stream_inv sh ss" using assms(2) by simp
  show ?thesis
    using assms(1) read_frame_ok [OF si]
    by (cases "read_frame (rs_files sh) ss") (simp_all add: step_ok_def do_read_def)
qed

lemma do_verify_ok:
  assumes "shared_inv env sh" and "rs_files sh (fst c) = Some st" and "worker_inv env sh (Verifying ss c payload)"
  shows "step_ok env sh (do_verify (re_os env) (re_blake3 env) sh st ss c payload)"
proof -
  obtain f i start len where c: "c = (f, i, start, len)" by (cases c) auto
  have st: "rs_files sh f = Some st" and ck: "chunk_ok sh c" and si: "stream_inv sh ss"
    using assms(2,3) by (auto simp: c)
  note g = chunk_in_range [OF assms(2) ck refl shared_inv_D(3) [OF assms(1,2)]]
  obtain r fs' where v: "verify_and_write (re_os env) (re_blake3 env) (rs_fs sh) (fpath st) start payload
      (st_chunk_hashes st ! unat i) = (r, fs')" by force
  have w: "evolves env sh (sh\<lparr>rs_fs := fs'\<rparr>)" "shared_inv env (sh\<lparr>rs_fs := fs'\<rparr>)"
    "r = Ok () \<Longrightarrow> trusted env st (content fs' (fpath st)) (unat i)"
    using write_step [OF assms(1) st _ _ _ v] g assms(3) by (simp_all add: c)
  have "length (st_chunk_hashes st) = ccount (st_layout st)"
    by (rule shared_inv_D(5) [OF assms(1,2)])
  then have eq: "do_verify (re_os env) (re_blake3 env) sh st ss c payload =
      (case r of Err e \<Rightarrow> Done (Err e) | Ok _ \<Rightarrow> Marking ss c, sh\<lparr>rs_fs := fs'\<rparr>)"
    using g(1) v by (simp add: do_verify_def c split: result.splits)
  have "worker_inv env (sh\<lparr>rs_fs := fs'\<rparr>) (Marking ss c)" if "r = Ok ()"
    using w(3) [OF that] ck si st stream_inv_evolves [OF w(1)] chunk_ok_evolves [OF w(1)]
    by (simp add: c)
  then show ?thesis
    using w(1,2) by (auto simp: step_ok_def eq split: result.splits)
qed

lemma do_mark_ok:
  assumes "shared_inv env sh" and "rs_files sh (fst c) = Some st" and "worker_inv env sh (Marking ss c)"
  shows "step_ok env sh (do_mark sh st ss c)"
proof -
  obtain f i start len where c: "c = (f, i, start, len)" by (cases c) auto
  have st: "rs_files sh f = Some st" and ck: "chunk_ok sh c" and si: "stream_inv sh ss"
    and tr: "trusted env st (content (rs_fs sh) (fpath st)) (unat i)"
    using assms(2,3) by (auto simp: c)
  have bf: "bitmap_ok (st_bitmap st)" "bm_count (st_bitmap st) = cl_count (st_layout st)"
    using shared_inv_D(4) [OF assms(1,2)] by (auto simp: bitmap_for_def)
  have "unat i < unat (bm_count (st_bitmap st))"
    using chunk_in_range(1) [OF assms(2) ck refl shared_inv_D(3) [OF assms(1,2)]] bf by (simp add: c)
  then obtain b where b: "bitmap_set (st_bitmap st) i = Ok b" "bitmap_ok b" "bm_count b = bm_count (st_bitmap st)"
      "bools b = (bools (st_bitmap st))[unat i := True]"
    using bitmap_set_Ok [OF bf(1)] by blast
  have "covers env st (content (rs_fs sh) (fpath st)) b"
    using shared_inv_D(6) [OF assms(1,2)] tr bm.mark_nth [OF bf(1) b(1)] length_bools [OF bf(1)] bf(2)
    by (auto simp: covers_def)
  then have "evolves env sh (set_file sh f (st\<lparr>st_bitmap := b\<rparr>))"
    "shared_inv env (set_file sh f (st\<lparr>st_bitmap := b\<rparr>))"
    using set_file_step [OF assms(1) st, of "st\<lparr>st_bitmap := b\<rparr>"] b bf
    by (simp_all add: same_file_def bitmap_for_def)
  then show ?thesis
    using b(1) ck si stream_inv_evolves chunk_ok_evolves
    by (auto simp: step_ok_def do_mark_def c)
qed

lemma do_count_ok:
  assumes "shared_inv env sh" and "worker_inv env sh (Counting ss c d)"
  shows "step_ok env sh (do_count n sh st ss c d)"
proof -
  have "stream_inv sh ss" "chunk_ok sh c" using assms(2) by auto
  then show ?thesis
    using count_step [OF assms(1)] stream_inv_evolves [OF count_step(1) [OF assms(1)]]
      chunk_ok_evolves [OF count_step(1) [OF assms(1)]]
    by (cases c) (simp add: step_ok_def do_count_def Let_def)
qed

text \<open>Updates of the accounting and of the lock keep everything that matters.\<close>

lemma bookkeeping_step:
  assumes "shared_inv env sh" and "rs_files sh f = Some st"
    and "same_file st st'" and "st_bitmap st' = st_bitmap st"
  shows "evolves env sh (set_file sh f st') \<and> shared_inv env (set_file sh f st')
     \<and> (stream_inv sh ss \<longrightarrow> stream_inv (set_file sh f st') ss)
     \<and> (chunk_ok sh c \<longrightarrow> chunk_ok (set_file sh f st') c)"
proof -
  have "evolves env sh (set_file sh f st')" "shared_inv env (set_file sh f st')"
    using set_file_step [OF assms(1-3)] shared_inv_D(4,6) [OF assms(1,2)] assms(4) by simp_all
  then show ?thesis
    using stream_inv_evolves chunk_ok_evolves by blast
qed

lemma do_account_ok:
  assumes "shared_inv env sh" and "rs_files sh (fst c) = Some st" and "worker_inv env sh (Accounting ss c)"
  shows "step_ok env sh (do_account n sh st ss c)"
proof -
  obtain f i start len where c: "c = (f, i, start, len)" by (cases c) auto
  let ?st = "st\<lparr>st_since_checkpoint := st_since_checkpoint st + ucast len\<rparr>"
  have "same_file st ?st" "st_bitmap ?st = st_bitmap st" by (simp_all add: same_file_def)
  from bookkeeping_step [OF assms(1,2) this, of ss c] assms(1,3) show ?thesis
    by (simp add: step_ok_def do_account_def Let_def c)
qed

lemma do_lock_ok:
  assumes "shared_inv env sh" and "rs_files sh (fst c) = Some st" and "worker_inv env sh (Locking ss c)"
  shows "step_ok env sh (do_lock sh st ss c)"
proof -
  let ?st = "st\<lparr>st_checkpointing := True, st_since_checkpoint := 0\<rparr>"
  have "same_file st ?st" "st_bitmap ?st = st_bitmap st" by (simp_all add: same_file_def)
  from bookkeeping_step [OF assms(1,2) this, of ss c] assms(1,3) show ?thesis
    by (simp add: step_ok_def do_lock_def)
qed

lemma unlock_ok:
  assumes "shared_inv env sh" and "rs_files sh f = Some st"
  shows "evolves env sh (unlock sh st f) \<and> shared_inv env (unlock sh st f)
     \<and> (stream_inv sh ss \<longrightarrow> stream_inv (unlock sh st f) ss)"
proof -
  let ?st = "st\<lparr>st_checkpointing := False\<rparr>"
  have "same_file st ?st" "st_bitmap ?st = st_bitmap st" by (simp_all add: same_file_def)
  from bookkeeping_step [OF assms this, of ss] show ?thesis
    by (simp add: unlock_def)
qed

lemma do_snapshot_ok:
  assumes "shared_inv env sh" and "rs_files sh (fst c) = Some st" and "worker_inv env sh (Snapshotting ss c)"
  shows "step_ok env sh (do_snapshot sh st ss c)"
  using assms unlock_ok [OF assms(1,2), of ss] shared_inv_D(4,6) [OF assms(1,2)]
  by (simp add: step_ok_def do_snapshot_def Let_def)

lemma evolves_trans:
  assumes "evolves env sh sh1" and "evolves env sh1 sh2"
  shows "evolves env sh sh2"
  unfolding evolves_def
proof
  fix f
  show "rel_option (file_evolves env sh sh2) (rs_files sh f) (rs_files sh2 f)"
  proof (cases "rs_files sh f")
    case None
    then show ?thesis
      using assms unfolding evolves_def by (metis option.rel_distinct(1) option.exhaust option.rel_sel)
  next
    case (Some st)
    obtain st1 where st1: "rs_files sh1 f = Some st1" "file_evolves env sh sh1 st st1"
      using evolvesE [OF assms(1) Some] .
    obtain st2 where st2: "rs_files sh2 f = Some st2" "file_evolves env sh1 sh2 st1 st2"
      using evolvesE [OF assms(2) st1(1)] .
    have "same_file st st1" using st1(2) by (simp add: file_evolves_def)
    then have "file_evolves env sh sh2 st st2"
      using st1(2) st2(2) by (auto simp: file_evolves_def same_file_def trusted_def)
    with Some st2(1) show ?thesis by simp
  qed
qed

lemma do_sync_ok:
  assumes "shared_inv env sh" and "rs_files sh (fst c) = Some st" and "worker_inv env sh (Syncing ss c b)"
  shows "step_ok env sh (do_sync (re_os env) sh st ss c b)"
proof -
  obtain r sh1 where s: "sync_data (re_os env) sh (fpath st) = (r, sh1)" by force
  note d = sync_step [OF assms(1,2) s]
  have st1: "rs_files sh1 (fst c) = Some st" using assms(2) d(3) by simp
  have inv: "stream_inv sh1 ss" "chunk_ok sh1 c" "bitmap_for st b"
      "covers env st (content (rs_fs sh1) (fpath st)) b"
    using assms(2,3) d(4) stream_inv_evolves [OF d(1)] chunk_ok_evolves [OF d(1)] by auto
  show ?thesis
  proof (cases r)
    case (Ok u)
    then have "worker_inv env sh1 (Persisting ss c b)"
      using inv d(5) st1 by simp
    with Ok d(1,2) show ?thesis by (simp add: step_ok_def do_sync_def s)
  next
    case (Err e)
    with unlock_ok [OF d(2) st1] evolves_trans [OF d(1)] show ?thesis
      by (simp add: step_ok_def do_sync_def s)
  qed
qed

lemma do_persist_ok:
  assumes "shared_inv env sh" and "\<And>x. length (re_blake3 env x) = 32"
    and "rs_files sh (fst c) = Some st" and "worker_inv env sh (Persisting ss c b)"
  shows "step_ok env sh (do_persist (re_os env) (re_blake3 env) sh st ss c b)"
proof -
  obtain r sh1 where p: "persist_state (re_os env) (re_blake3 env) sh st b = (r, sh1)" by force
  have d: "evolves env sh sh1" "shared_inv env sh1" "rs_files sh1 = rs_files sh"
    using persist_step [OF assms(1,2,3) _ _ _ p] assms(3,4) by auto
  then have st1: "rs_files sh1 (fst c) = Some st" using assms(3) by simp
  have "stream_inv sh1 ss" using assms(4) stream_inv_evolves [OF d(1)] by simp
  then show ?thesis
    using unlock_ok [OF d(2) st1, of ss] evolves_trans [OF d(1)]
    by (cases r) (simp_all add: step_ok_def do_persist_def p)
qed

lemma worker_file:
  assumes "worker_inv env sh w" and "worker_chunk w = Some c"
  obtains st where "rs_files sh (fst c) = Some st" "chunk_file sh w = Some st"
proof -
  have "chunk_ok sh c" using assms by (cases w) auto
  then show thesis
    using that assms(2) by (auto simp: chunk_ok_def chunk_file_def)
qed

lemma worker_step_ok:
  assumes "shared_inv env sh" and "\<And>x. length (re_blake3 env x) = 32" and "worker_inv env sh w"
  shows "step_ok env sh (worker_step env w sh)"
proof (cases "worker_chunk w")
  case None
  then show ?thesis
    using do_read_ok [OF assms(1)] assms(1,3) by (cases w) (simp_all add: worker_step_def step_ok_def)
next
  case (Some c)
  obtain st where st: "rs_files sh (fst c) = Some st" "chunk_file sh w = Some st"
    using worker_file [OF assms(3) Some] .
  note rules = do_verify_ok [OF assms(1) st(1)] do_mark_ok [OF assms(1) st(1)] do_count_ok [OF assms(1)]
    do_account_ok [OF assms(1) st(1)] do_lock_ok [OF assms(1) st(1)] do_snapshot_ok [OF assms(1) st(1)]
    do_sync_ok [OF assms(1) st(1)] do_persist_ok [OF assms(1,2) st(1)]
  show ?thesis
    using Some assms(3) st(2) rules by (cases w) (simp_all add: worker_step_def)
qed

lemma act_ok:
  assumes "sys_inv env sys"
  shows "evolves env (sys_shared sys) (sys_shared (act env a sys)) \<and> sys_inv env (act env a sys)"
proof -
  let ?sh = "sys_shared sys"
  have inv: "shared_inv env ?sh" "\<And>x. length (re_blake3 env x) = 32"
      "\<And>w. w \<in> set (sys_workers sys) \<Longrightarrow> worker_inv env ?sh w"
    using assms by (auto simp: sys_inv_def)
  have others: "evolves env ?sh sh' \<and> sys_inv env \<lparr>sys_shared = sh', sys_workers = ws\<rparr>"
    if "evolves env ?sh sh'" "shared_inv env sh'"
      "\<And>w. w \<in> set ws \<Longrightarrow> w \<in> set (sys_workers sys) \<or> worker_inv env sh' w" for sh' ws
    using that inv(1,2) worker_inv_evolves [OF that(1) _ inv(1)] inv(3) by (auto simp: sys_inv_def)
  show ?thesis
  proof (cases a)
    case (Turn i)
    show ?thesis
    proof (cases "i < length (sys_workers sys)")
      case True
      obtain w sh' where s: "worker_step env (sys_workers sys ! i) ?sh = (w, sh')" by force
      have "step_ok env ?sh (w, sh')"
        using worker_step_ok [OF inv(1,2) inv(3) [OF nth_mem [OF True]]] by (simp add: s)
      moreover have "x \<in> set (sys_workers sys) \<or> x = w" if "x \<in> set ((sys_workers sys)[i := w])" for x
        using set_update_subset_insert [of "sys_workers sys" i w] that by auto
      ultimately have "evolves env ?sh sh' \<and>
          sys_inv env \<lparr>sys_shared = sh', sys_workers = (sys_workers sys)[i := w]\<rparr>"
        by (intro others) (auto simp: step_ok_def)
      with True s Turn show ?thesis by (simp add: act_def)
    qed (use assms Turn in \<open>simp add: act_def\<close>)
  next
    case (Flush f k)
    then show ?thesis
      using assms flush_chunk_step [OF inv(1)] others [of _ "sys_workers sys"]
      by (cases sys) (auto simp: act_def split: option.splits)
  next
    case (FlushRecord f)
    then show ?thesis
      using assms flush_record_step [OF inv(1)] others [of _ "sys_workers sys"]
      by (cases sys) (auto simp: act_def split: option.splits)
  qed
qed

interpretation recv: invariant_system "act env" "sys_inv env" for env
  by unfold_locales (simp add: act_ok)

lemma run_schedule_inv: "sys_inv env sys \<Longrightarrow> sys_inv env (run_schedule env as sys)"
  unfolding run_schedule_def by (rule recv.inv_run)

lemma run_schedule_evolves:
  "sys_inv env sys \<Longrightarrow> evolves env (sys_shared sys) (sys_shared (run_schedule env as sys))"
  unfolding run_schedule_def
proof (induction as arbitrary: sys)
  case (Cons a as)
  then show ?case
    using act_ok [OF Cons.prems, of a] evolves_trans by fastforce
qed simp

lemma sys_inv_D:
  assumes "sys_inv env sys" and "rs_files (sys_shared sys) f = Some st"
  shows "file_inv env (sys_shared sys) st" "\<And>x. length (re_blake3 env x) = 32"
  using assms by (auto simp: sys_inv_def shared_inv_def)

lemma covers_hash:
  assumes "covers env st c b" and "i < ccount (st_layout st)" and "bools b ! i"
    and "\<not> os_fails (re_os env) (WriteAt (fpath st) (chunk_start (st_layout st) i))"
  shows "re_blake3 env (chunk_of (st_layout st) c i) = st_chunk_hashes st ! i"
  using assms by (auto simp: covers_def trusted_def)

section \<open>Termination of the workers\<close>

text \<open>
  Every step of a worker that is not done uses up input or moves on to the next stage of the chunk in
  hand, whatever the peer sends; the measure counts what is left.
\<close>

fun worker_fuel :: "worker \<Rightarrow> nat" where
  "worker_fuel (Reading ss) = 16 * length (in_data (ss_in ss)) + 1"
| "worker_fuel (Persisting ss c b) = 16 * length (in_data (ss_in ss)) + 2"
| "worker_fuel (Syncing ss c b) = 16 * length (in_data (ss_in ss)) + 3"
| "worker_fuel (Snapshotting ss c) = 16 * length (in_data (ss_in ss)) + 4"
| "worker_fuel (Locking ss c) = 16 * length (in_data (ss_in ss)) + 5"
| "worker_fuel (Accounting ss c) = 16 * length (in_data (ss_in ss)) + 6"
| "worker_fuel (Counting ss c d) = 16 * length (in_data (ss_in ss)) + 7"
| "worker_fuel (Marking ss c) = 16 * length (in_data (ss_in ss)) + 8"
| "worker_fuel (Verifying ss c p) = 16 * length (in_data (ss_in ss)) + 9"
| "worker_fuel (Done r) = 0"

lemma read_exact_length: "read_exact r n = Ok (bs, r') \<Longrightarrow> length (in_data r') + n = length (in_data r)"
  by (auto simp: read_exact_def split: if_splits)

lemma read_payload_length:
  "read_payload h c buf r = More ss' \<Longrightarrow> length (in_data (ss_in ss')) \<le> length (in_data r)"
  "read_payload h c buf r = Whole ss' c' p \<Longrightarrow> length (in_data (ss_in ss')) \<le> length (in_data r)"
  by (auto simp: read_payload_def Let_def split: prod.splits if_splits result.splits dest!: read_exact_length)

lemma do_read_fuel: "worker_fuel (do_read sh ss) < worker_fuel (Reading ss)"
proof -
  have "case read_frame (rs_files sh) ss of
      More ss' \<Rightarrow> length (in_data (ss_in ss')) + 32 \<le> length (in_data (ss_in ss))
    | Whole ss' c p \<Rightarrow> length (in_data (ss_in ss')) + 32 \<le> length (in_data (ss_in ss))
    | _ \<Rightarrow> True"
    unfolding read_frame_def HEADER_LEN_def
    by (auto split: result.splits io_kind.splits prod.splits msg_type.splits option.splits frame_outcome.splits
        dest!: read_exact_length read_payload_length)
  then show ?thesis
    by (auto simp: do_read_def split: frame_outcome.splits)
qed

lemma worker_step_fuel:
  "worker_fuel w \<noteq> 0 \<Longrightarrow> worker_fuel (fst (worker_step env w sh)) < worker_fuel w"
  using do_read_fuel [of sh]
  by (cases w)
    (auto simp: worker_step_def do_verify_def do_mark_def do_count_def do_account_def do_lock_def
      do_snapshot_def do_sync_def do_persist_def Let_def split: option.splits prod.splits result.splits)

lemma worker_fuel_0: "worker_fuel w = 0 \<longleftrightarrow> (\<exists>r. w = Done r)"
  by (cases w) auto

lemma act_workers:
  "length (sys_workers (act env a sys)) = length (sys_workers sys)"
  "i < length (sys_workers sys) \<Longrightarrow> worker_fuel (sys_workers (act env a sys) ! i) \<le>
     worker_fuel (sys_workers sys ! i) - (if a = Turn i then 1 else 0)"
proof -
  show "length (sys_workers (act env a sys)) = length (sys_workers sys)"
    by (auto simp: act_def split: action.splits option.splits prod.splits)
  show "i < length (sys_workers sys) \<Longrightarrow> worker_fuel (sys_workers (act env a sys) ! i) \<le>
     worker_fuel (sys_workers sys ! i) - (if a = Turn i then 1 else 0)"
  proof (cases a)
    case (Turn j)
    assume i: "i < length (sys_workers sys)"
    let ?w = "sys_workers sys ! i"
    have "worker_fuel (fst (worker_step env ?w (sys_shared sys))) \<le> worker_fuel ?w - 1"
    proof (cases "worker_fuel ?w = 0")
      case True
      then obtain r where "?w = Done r" by (auto simp: worker_fuel_0)
      then show ?thesis by (simp add: worker_step_def)
    next
      case False
      from worker_step_fuel [OF this, of env "sys_shared sys"] show ?thesis by simp
    qed
    with i Turn show ?thesis
      by (auto simp: act_def nth_list_update split: prod.splits)
  qed (auto simp: act_def split: option.splits)
qed

lemma run_workers:
  "length (sys_workers (run_schedule env as sys)) = length (sys_workers sys)"
  "i < length (sys_workers sys) \<Longrightarrow> worker_fuel (sys_workers (run_schedule env as sys) ! i) \<le>
     worker_fuel (sys_workers sys ! i) - count_list as (Turn i)"
proof -
  show "length (sys_workers (run_schedule env as sys)) = length (sys_workers sys)"
    unfolding run_schedule_def by (induction as arbitrary: sys) (auto simp: act_workers)
  show "i < length (sys_workers sys) \<Longrightarrow> worker_fuel (sys_workers (run_schedule env as sys) ! i) \<le>
     worker_fuel (sys_workers sys ! i) - count_list as (Turn i)"
    unfolding run_schedule_def
  proof (induction as arbitrary: sys)
    case (Cons a as)
    have "worker_fuel (sys_workers (fold (act env) as (act env a sys)) ! i) \<le>
        worker_fuel (sys_workers (act env a sys) ! i) - count_list as (Turn i)"
      using Cons by (simp add: act_workers(1))
    also have "\<dots> \<le> worker_fuel (sys_workers sys ! i) - (if a = Turn i then 1 else 0) - count_list as (Turn i)"
      using act_workers(2) [OF Cons.prems, of env a] by (rule diff_le_mono)
    finally show ?case by (auto split: if_splits)
  qed simp
qed

section \<open>Properties\<close>

text \<open>
  C2: whatever bytes arrive on the data streams and however the workers interleave with each other and
  with write-back, a chunk is marked as present only when the bytes of that chunk in the staging file
  hash to the hash the offer committed to (positions at which the operating system refuses a write are
  excepted: the worker that met the refusal has failed).
\<close>

theorem marked_chunks_verified:
  assumes "sys_inv env sys"
    and "rs_files (sys_shared (run_schedule env as sys)) f = Some st"
    and "i < ccount (st_layout st)"
    and "bools (st_bitmap st) ! i"
    and "\<not> os_fails (re_os env) (WriteAt (fpath st) (chunk_start (st_layout st) i))"
  shows "re_blake3 env (chunk_of (st_layout st)
      (content (rs_fs (sys_shared (run_schedule env as sys))) (fpath st)) i) = st_chunk_hashes st ! i"
proof -
  have "covers env st (content (rs_fs (sys_shared (run_schedule env as sys))) (fpath st)) (st_bitmap st)"
    using sys_inv_D(1) [OF run_schedule_inv [OF assms(1)] assms(2)] by (simp add: file_inv_def)
  then show ?thesis by (rule covers_hash [OF _ assms(3-5)])
qed

text \<open>A session with one three-byte file, before and after its only chunk was taken.\<close>

definition sample_layout :: chunk_layout where
  "sample_layout = \<lparr>cl_file_size = 3, cl_chunk_size = MIN_CHUNK_SIZE, cl_count = 1\<rparr>"

definition sample_state :: file_state where
  "sample_state = \<lparr>st_sink = \<lparr>sk_path = [''f''], sk_layout = sample_layout\<rparr>, st_layout = sample_layout,
     st_chunk_hashes = [replicate 32 0], st_bitmap = full_bitmap, st_key = sample_key,
     st_since_checkpoint = 0, st_checkpointing = False\<rparr>"

definition sample_env :: recv_env where
  "sample_env = \<lparr>re_os = quiet_os, re_blake3 = (\<lambda>_. replicate 32 0), re_total = 3, re_checkpoint = 1\<rparr>"

definition sample_shared :: recv_shared where
  "sample_shared = \<lparr>rs_files = [0 \<mapsto> sample_state], rs_fs = [[''f''] \<mapsto> [1, 2, 3]],
     rs_durable = [[''f''] \<mapsto> [0, 0, 0]], rs_counter = 0, rs_events = []\<rparr>"

definition sample_sys :: recv_sys where
  "sample_sys = \<lparr>sys_shared = sample_shared,
     sys_workers = [Locking (stream_start \<lparr>in_data = [], in_broken = False\<rparr>) (0, 0, 0, 3)]\<rparr>"

lemma sample_sys_inv: "sys_inv sample_env sample_sys"
proof -
  have "layout_new 3 MIN_CHUNK_SIZE = Ok sample_layout" unfolding sample_layout_def by code_simp
  then have l: "layout_ok sample_layout" using layout_new_ok by blast
  have "bitmap_from_bytes [1] 1 = Ok full_bitmap" unfolding full_bitmap_def by code_simp
  then have b: "bitmap_ok full_bitmap" by (simp add: bitmap_from_bytes_Ok)
  have r: "layout_range sample_layout 0 = Ok (0, 3)"
    by (simp add: layout_range_def sample_layout_def MIN_CHUNK_SIZE_def)
  have nosc: "state_path [''f''] = [''f.aether_state'']"
    by (simp add: state_path_def file_name_def with_file_name_def)
  have "file_inv sample_env sample_shared sample_state"
    using l b nosc
    by (auto simp: file_inv_def static_ok_def space_ok_def covers_def trusted_def claim_ok_def bitmap_for_def
        sample_state_def sample_shared_def sample_env_def file_fits_def content_def sample_key_def
        full_bitmap_def) (simp_all add: sample_layout_def)
  moreover have "names_disjoint (file_paths [0 \<mapsto> sample_state])"
    using state_path_neq [of "[''f'']"] tmp_path_neq [of "[''f'']"]
    by (auto simp: names_disjoint_def file_paths_def sample_state_def split: if_splits)
  ultimately have "shared_inv sample_env sample_shared"
    by (auto simp: shared_inv_def sample_shared_def split: if_splits)
  moreover have "worker_inv sample_env sample_shared (Locking (stream_start r') (0, 0, 0, 3))" for r'
    using r by (auto simp: stream_inv_def stream_start_def chunk_ok_def sample_shared_def sample_state_def)
  ultimately show ?thesis
    by (simp add: sys_inv_def sample_sys_def sample_env_def)
qed

theorem marked_chunks_verified_witness:
  "sys_inv sample_env sample_sys
   \<and> rs_files (sys_shared (run_schedule sample_env [] sample_sys)) 0 = Some sample_state
   \<and> re_blake3 sample_env (chunk_of sample_layout [1, 2, 3] 0) = replicate 32 0"
proof -
  have h: "rs_files (sys_shared (run_schedule sample_env [] sample_sys)) 0 = Some sample_state"
    by (simp add: run_schedule_def sample_sys_def sample_shared_def)
  have "0 < ccount (st_layout sample_state)" "bools (st_bitmap sample_state) ! 0"
    by (simp add: sample_state_def sample_layout_def)
      (simp add: sample_state_def bools_def bit_list_def full_bitmap_def upt_conv_Cons)
  from marked_chunks_verified [OF sample_sys_inv h this] h sample_sys_inv show ?thesis
    by (simp add: sample_state_def sample_env_def quiet_os_def run_schedule_def sample_sys_def
        sample_shared_def content_def)
qed

text \<open>
  C4: power may fail at any moment, also in the middle of a checkpoint.  What is left is the device
  content.  If the next session then accepts the sidecar it finds there, the record has one bit per
  chunk of the file and every chunk that it claims is really on the device with the committed hash (same exception as before).  The order
  snapshot, sync, rename of \<open>checkpoint\<close> is what makes this true.
\<close>

theorem checkpoint_survives_crash:
  assumes "sys_inv env sys"
    and "rs_files (sys_shared (run_schedule env as sys)) f = Some st"
    and "load os (re_blake3 env) (rs_durable (sys_shared (run_schedule env as sys))) (fpath st) (st_key st) = Some b"
    and "i < ccount (st_layout st)" and "bools b ! i"
    and "\<not> os_fails (re_os env) (WriteAt (fpath st) (chunk_start (st_layout st) i))"
  shows "bm_count b = cl_count (st_layout st)
    \<and> re_blake3 env (chunk_of (st_layout st)
      (content (rs_durable (sys_shared (run_schedule env as sys))) (fpath st)) i) = st_chunk_hashes st ! i"
proof -
  let ?sh = "sys_shared (run_schedule env as sys)"
  note inv = sys_inv_D [OF run_schedule_inv [OF assms(1)] assms(2)]
  have "length (key_root_hash (st_key st)) = 32"
    using inv(1) by (simp add: file_inv_def static_ok_def)
  from assms(3) [unfolded load_eq [OF inv(2) this]]
  have "rs_durable ?sh (state_path (fpath st)) = Some (state_record (re_blake3 env) (st_key st) b)"
    and "bitmap_ok b" by auto
  then have "bitmap_for st b" and "covers env st (content (rs_durable ?sh) (fpath st)) b"
    using inv(1) by (auto simp: file_inv_def claim_ok_def)
  with covers_hash [OF this(2) assms(4-6)] show ?thesis by (simp add: bitmap_for_def)
qed

text \<open>The sample session makes a checkpoint: lock, snapshot, sync, rename, and the entry is written back.\<close>

definition checkpoint_schedule :: "action list" where
  "checkpoint_schedule = [Turn 0, Turn 0, Turn 0, Turn 0, FlushRecord 0]"

lemma sample_run:
  "sys_shared (run_schedule sample_env checkpoint_schedule sample_sys) =
     sample_shared\<lparr>rs_fs := [[''f''] \<mapsto> [1, 2, 3],
         [''f.aether_state''] \<mapsto> state_record (\<lambda>_. replicate 32 0) sample_key full_bitmap],
       rs_durable := [[''f''] \<mapsto> [1, 2, 3],
         [''f.aether_state''] \<mapsto> state_record (\<lambda>_. replicate 32 0) sample_key full_bitmap]\<rparr>"
proof -
  have p: "state_path [''f''] = [''f.aether_state'']" "with_extension [''f.aether_state''] ''tmp'' = [''f.tmp'']"
    by (simp_all add: state_path_def with_extension_def file_name_def with_file_name_def file_stem_def)
  show ?thesis
    using p
    by (simp add: checkpoint_schedule_def run_schedule_def act_def worker_step_def chunk_file_def
        sample_sys_def sample_shared_def sample_env_def quiet_os_def do_lock_def do_snapshot_def do_sync_def
        do_persist_def sync_data_def persist_state_def persist_def unlock_def flush_record_def Let_def
        sample_state_def full_bitmap_def fun_upd_twist)
qed

theorem checkpoint_survives_crash_witness:
  "load quiet_os (\<lambda>_. replicate 32 0)
     (rs_durable (sys_shared (run_schedule sample_env checkpoint_schedule sample_sys))) [''f''] sample_key
     = Some full_bitmap
   \<and> re_blake3 sample_env (chunk_of sample_layout [1, 2, 3] 0) = [replicate 32 0] ! 0"
proof -
  let ?sh = "sys_shared (run_schedule sample_env checkpoint_schedule sample_sys)"
  have "bitmap_from_bytes [1] 1 = Ok full_bitmap" unfolding full_bitmap_def by code_simp
  then have b: "bitmap_ok full_bitmap" by (simp add: bitmap_from_bytes_Ok)
  have st: "rs_files ?sh 0 = Some sample_state"
    by (simp add: sample_run) (simp add: sample_shared_def)
  have l: "load quiet_os (\<lambda>_. replicate 32 0) (rs_durable ?sh) [''f''] sample_key = Some full_bitmap"
    using b by (simp add: load_eq sample_run sample_key_def quiet_os_def state_path_def file_name_def
        with_file_name_def)
  have "0 < ccount (st_layout sample_state)" "bools full_bitmap ! 0"
    by (simp_all add: sample_state_def sample_layout_def bools_def bit_list_def full_bitmap_def upt_conv_Cons)
  then show ?thesis
    using checkpoint_survives_crash [OF sample_sys_inv st, of quiet_os full_bitmap 0] l
    by (simp add: sample_state_def sample_env_def quiet_os_def sample_run content_def)
qed

text \<open>
  C10: no input keeps a receiving worker busy for ever.  Whatever bytes are on its stream, a worker that
  gets as many turns as sixteen times the bytes on its stream, and one, has ended, with success or an
  error, under every interleaving with the other workers.
\<close>

theorem worker_terminates:
  assumes "i < length (sys_workers sys)" and "sys_workers sys ! i = Reading ss"
    and "16 * length (in_data (ss_in ss)) + 1 \<le> count_list as (Turn i)"
  shows "\<exists>r. sys_workers (run_schedule env as sys) ! i = Done r"
  using run_workers(2) [OF assms(1), of env as] assms(2,3) by (simp add: worker_fuel_0 [symmetric])

theorem worker_terminates_witness:
  "\<exists>r. sys_workers (run_schedule sample_env [Turn 0]
      \<lparr>sys_shared = sample_shared, sys_workers = [Reading (stream_start \<lparr>in_data = [], in_broken = False\<rparr>)]\<rparr>) ! 0 = Done r"
  by (rule worker_terminates [where ss = "stream_start \<lparr>in_data = [], in_broken = False\<rparr>"])
    (simp_all add: stream_start_def)

end
