(* ===== verification/Reception.thy ===== *)
theory Reception
  imports Receiver
begin

text \<open>
  A whole receiving session: the handshake, the offer taken as hostile input, the data phase under a
  schedule, and the completion of \<open>run\<close> in \<open>aetherlink-core/src/recv.rs\<close>.  The streams and the order
  in which the hash map of files is walked are arguments.  The lemmas show that a session which
  reports success leaves every offered file on disk with the offered root hash, and what an
  interrupted or refused one leaves behind.
\<close>

section \<open>The offer\<close>

definition split_hashes :: "bytes \<Rightarrow> u64 \<Rightarrow> (hash list, core_error) result" where
  "split_hashes concatenated count =
     (if length concatenated \<noteq> unat (count * 32)
      then Err (Protocol (Fmt ''manifest carries {} hash bytes, expected {} for {count} chunks''
             [TNum (length concatenated), TNum (unat (count * 32)), TNum (unat count)]))
      else Ok (filter (\<lambda>c. length c = 32) (chunks 32 concatenated)))"

text \<open>\<open>abort\<close>: best effort, a failing write is ignored.\<close>

definition abort :: "(control_message \<Rightarrow> bytes) \<Rightarrow> out_stream \<Rightarrow> msg_text \<Rightarrow> out_stream" where
  "abort enc w reason =
     (case write_control enc w (control_message_new (Abort \<lparr>ab_reason = reason\<rparr>)) of
        Ok w' \<Rightarrow> w'
      | Err _ \<Rightarrow> w)"

record offer_acc =
  oa_files :: "u64 \<rightharpoonup> file_state"
  oa_accepted :: "u64 list"
  oa_progress :: "file_progress list"
  oa_seen :: "string set"
  oa_total :: u64
  oa_resumed :: u64
  oa_fs :: fs

text \<open>A refused entry: the error, the reason told to the peer if any, and the disk as it is then.\<close>

datatype entry_outcome =
    Accepted offer_acc
  | Refused core_error "msg_text option" fs
  | EntryPanic fs

definition file_exists :: "os_env \<Rightarrow> fs \<Rightarrow> path \<Rightarrow> bool" where
  "file_exists os fs p \<longleftrightarrow> \<not> os_fails os (Stat p) \<and> fs p \<noteq> None"

definition choose_bitmap ::
    "os_env \<Rightarrow> (bytes \<Rightarrow> hash) \<Rightarrow> config \<Rightarrow> fs \<Rightarrow> path \<Rightarrow> state_key \<Rightarrow> sink_file \<Rightarrow> hash list \<Rightarrow> bool
     \<Rightarrow> (chunk_bitmap, core_error) result option" where
  "choose_bitmap os blake3 config fs dest key sink hs preexisting =
     (if \<not> cfg_resume config then Some (Ok (bitmap_new (cl_count (sk_layout sink))))
      else case load os blake3 fs dest key of
        Some recorded \<Rightarrow> Some (Ok recorded)
      | None \<Rightarrow>
          if preexisting then rebuild_by_verification os blake3 fs sink hs
          else Some (Ok (bitmap_new (cl_count (sk_layout sink)))))"

definition accept_entry ::
    "os_env \<Rightarrow> (bytes \<Rightarrow> hash) \<Rightarrow> config \<Rightarrow> path \<Rightarrow> u32 \<Rightarrow> file_entry \<Rightarrow> offer_acc \<Rightarrow> entry_outcome" where
  "accept_entry os blake3 config output_dir chunk_size entry acc =
     (case sanitize_relative_path (fe_relative_path entry) of
        Err e \<Rightarrow> Refused (Wire e) (Some (Display e)) (oa_fs acc)
      | Ok safe_path \<Rightarrow>
      if safe_path \<in> oa_seen acc
      then let reason = Fmt ''manifest resolves two entries to {safe_path}'' [TStr safe_path]
           in Refused (Protocol reason) (Some reason) (oa_fs acc)
      else case layout_new (fe_size_bytes entry) chunk_size of
        Err e \<Rightarrow> Refused (Wire e) None (oa_fs acc)
      | Ok layout \<Rightarrow>
      if cfg_max_file_bytes config < fe_size_bytes entry
      then let reason = Fmt ''{safe_path} is {} bytes, above the accepted maximum''
                          [TStr safe_path, TNum (unat (fe_size_bytes entry))]
           in Refused (Protocol reason) (Some reason) (oa_fs acc)
      else case split_hashes (fe_chunk_hashes entry) (cl_count layout) of
        Err e \<Rightarrow> Refused e None (oa_fs acc)
      | Ok hs \<Rightarrow>
      let computed = root_from_chunk_hashes blake3 hs in
      if fe_root_hash entry \<noteq> computed
      then let reason = Fmt ''root hash does not match the chunk hashes for {safe_path}'' [TStr safe_path]
           in Refused (Protocol reason) (Some reason) (oa_fs acc)
      else let dest = path_join output_dir safe_path;
               key = \<lparr>key_root_hash = computed, key_file_size = fe_size_bytes entry,
                      key_chunk_size = chunk_size\<rparr>;
               preexisting = file_exists os (oa_fs acc) dest in
      case sink_create os (oa_fs acc) dest (fe_size_bytes entry) chunk_size of
        (Err e, fs1) \<Rightarrow> Refused e None fs1
      | (Ok sink, fs1) \<Rightarrow>
      case choose_bitmap os blake3 config fs1 dest key sink hs preexisting of
        None \<Rightarrow> EntryPanic fs1
      | Some (Err e) \<Rightarrow> Refused e None fs1
      | Some (Ok bitmap) \<Rightarrow>
      Accepted \<lparr>
        oa_files = (oa_files acc)(fe_file_id entry \<mapsto>
          \<lparr>st_sink = sink, st_layout = layout, st_chunk_hashes = hs, st_bitmap = bitmap,
           st_key = key, st_since_checkpoint = 0, st_checkpointing = False\<rparr>),
        oa_accepted = oa_accepted acc @ [fe_file_id entry],
        oa_progress = oa_progress acc @ [\<lparr>fp_file_id = fe_file_id entry, fp_have_bitmap = bm_bits bitmap\<rparr>],
        oa_seen = insert safe_path (oa_seen acc),
        oa_total = oa_total acc + fe_size_bytes entry,
        oa_resumed = oa_resumed acc + bm_set_count bitmap * ucast chunk_size,
        oa_fs = fs1\<rparr>)"

fun accept_entries ::
    "os_env \<Rightarrow> (bytes \<Rightarrow> hash) \<Rightarrow> config \<Rightarrow> path \<Rightarrow> u32 \<Rightarrow> file_entry list \<Rightarrow> offer_acc \<Rightarrow> entry_outcome" where
  "accept_entries os blake3 config output_dir chunk_size [] acc = Accepted acc"
| "accept_entries os blake3 config output_dir chunk_size (entry # rest) acc =
     (case accept_entry os blake3 config output_dir chunk_size entry acc of
        Accepted acc' \<Rightarrow> accept_entries os blake3 config output_dir chunk_size rest acc'
      | outcome \<Rightarrow> outcome)"

definition offer_start :: "fs \<Rightarrow> offer_acc" where
  "offer_start fs = \<lparr>oa_files = Map.empty, oa_accepted = [], oa_progress = [], oa_seen = {},
     oa_total = 0, oa_resumed = 0, oa_fs = fs\<rparr>"

section \<open>The handshake\<close>

text \<open>The checks on the first message: version and the range of streams; the error carries its reason.\<close>

definition check_hello :: "config \<Rightarrow> hello \<Rightarrow> (u32, msg_text) result" where
  "check_hello config h =
     (if he_protocol_version h \<noteq> ucast PROTOCOL_VERSION
      then Err (Fmt ''peer speaks protocol v{}'' [TNum (unat (he_protocol_version h))])
      else if he_stream_count h = 0 \<or> ucast (cfg_max_streams config) < he_stream_count h
      then Err (Fmt ''peer requested {} streams, outside the accepted range 1..={}''
             [TNum (unat (he_stream_count h)), TNum (unat (cfg_max_streams config))])
      else Ok (he_stream_count h))"

datatype handshake =
    Ready u32 u32 offer_acc
  | Turned_down core_error
  | Handshake_panic

definition receive_handshake ::
    "os_env \<Rightarrow> (bytes \<Rightarrow> hash) \<Rightarrow> (control_message \<Rightarrow> bytes) \<Rightarrow> (bytes \<Rightarrow> control_message option) \<Rightarrow> config
     \<Rightarrow> path \<Rightarrow> fs \<Rightarrow> in_stream \<Rightarrow> out_stream \<Rightarrow> handshake \<times> out_stream \<times> fs" where
  "receive_handshake os blake3 enc dec config output_dir fs cin cout =
     (case read_control dec cin of
        Err e \<Rightarrow> (Turned_down e, cout, fs)
      | Ok (Hello h, cin1) \<Rightarrow>
      (case check_hello config h of
         Err reason \<Rightarrow> (Turned_down (Protocol reason), abort enc cout reason, fs)
       | Ok stream_count \<Rightarrow>
       (case read_control dec cin1 of
          Err e \<Rightarrow> (Turned_down e, cout, fs)
        | Ok (Offer offer, cin2) \<Rightarrow>
        (case accept_entries os blake3 config output_dir (mo_chunk_size offer) (mo_files offer) (offer_start fs) of
           Refused e reason fs1 \<Rightarrow>
             (Turned_down e, case reason of Some r \<Rightarrow> abort enc cout r | None \<Rightarrow> cout, fs1)
         | EntryPanic fs1 \<Rightarrow> (Handshake_panic, cout, fs1)
         | Accepted acc \<Rightarrow>
         (case write_control enc cout (control_message_new (Accept
                 \<lparr>ma_accepted_file_ids = oa_accepted acc, ma_progress = oa_progress acc\<rparr>)) of
            Err e \<Rightarrow> (Turned_down e, cout, oa_fs acc)
          | Ok cout1 \<Rightarrow> (Ready stream_count (mo_chunk_size offer) acc, cout1, oa_fs acc)))
        | Ok (_, cin2) \<Rightarrow> (Turned_down (Protocol (Fmt ''expected Offer, got {other:?}'' [])), cout, fs)))
      | Ok (_, cin1) \<Rightarrow> (Turned_down (Protocol (Fmt ''expected Hello, got {other:?}'' [])), cout, fs))"

section \<open>Opening the data streams\<close>

fun open_streams ::
    "(bytes \<Rightarrow> control_message option) \<Rightarrow> (nat \<Rightarrow> (in_stream, core_error) result) \<Rightarrow> nat list
     \<Rightarrow> (worker list, core_error) result" where
  "open_streams dec next_stream [] = Ok []"
| "open_streams dec next_stream (k # ks) =
     (case next_stream k of
        Err e \<Rightarrow> Err e
      | Ok stream \<Rightarrow>
      case read_control dec stream of
        Err e \<Rightarrow> Err e
      | Ok (Hello _, stream') \<Rightarrow>
          (case open_streams dec next_stream ks of
             Err e \<Rightarrow> Err e
           | Ok ws \<Rightarrow> Ok (Reading (stream_start stream') # ws))
      | Ok (_, stream') \<Rightarrow> Err (Protocol (Fmt ''expected Hello, got {other:?}'' [])))"

section \<open>Completion\<close>

fun first_error :: "(unit, core_error) result list \<Rightarrow> core_error option" where
  "first_error [] = None"
| "first_error (Err e # rs) = Some e"
| "first_error (Ok _ # rs) = first_error rs"

fun checkpoint_all :: "recv_env \<Rightarrow> u64 list \<Rightarrow> recv_shared \<Rightarrow> recv_shared" where
  "checkpoint_all env [] sh = sh"
| "checkpoint_all env (f # fs) sh =
     (case rs_files sh f of
        None \<Rightarrow> checkpoint_all env fs sh
      | Some st \<Rightarrow> checkpoint_all env fs (snd (checkpoint (re_os env) (re_blake3 env) sh st)))"

definition path_display :: "path \<Rightarrow> string" where
  "path_display p = join_with (CHR ''/'') p"

fun complete_files ::
    "recv_env \<Rightarrow> (control_message \<Rightarrow> bytes) \<Rightarrow> u64 list \<Rightarrow> recv_shared \<Rightarrow> out_stream
     \<Rightarrow> (unit, core_error) result \<times> recv_shared \<times> out_stream" where
  "complete_files env enc [] sh cout = (Ok (), sh, cout)"
| "complete_files env enc (f # fs) sh cout =
     (case rs_files sh f of
        None \<Rightarrow> complete_files env enc fs sh cout
      | Some st \<Rightarrow>
      if \<not> bitmap_is_complete (st_bitmap st)
      then let sh' = snd (checkpoint (re_os env) (re_blake3 env) sh st);
               reason = Fmt ''{} is incomplete'' [TStr (path_display (fpath st))]
           in (Err (Incomplete reason), sh', abort enc cout reason)
      else case sink_sync (re_os env) (st_sink st) of
        Err e \<Rightarrow> (Err e, sh, cout)
      | Ok _ \<Rightarrow>
          complete_files env enc fs
            (sh\<lparr>rs_durable := (rs_durable sh)(fpath st := rs_fs sh (fpath st)),
                rs_fs := discard (re_os env) (rs_fs sh) (fpath st)\<rparr>) cout)"

definition finish_receive ::
    "recv_env \<Rightarrow> (control_message \<Rightarrow> bytes) \<Rightarrow> u64 list \<Rightarrow> (unit, core_error) result list
     \<Rightarrow> recv_shared \<Rightarrow> out_stream \<Rightarrow> (u64, core_error) result \<times> recv_shared \<times> out_stream" where
  "finish_receive env enc order outcomes sh cout =
     (case first_error outcomes of
        Some e \<Rightarrow> (Err e, checkpoint_all env order sh, cout)
      | None \<Rightarrow>
      case complete_files env enc order sh cout of
        (Err e, sh1, cout1) \<Rightarrow> (Err e, sh1, cout1)
      | (Ok _, sh1, cout1) \<Rightarrow>
      let written = rs_counter sh1 in
      case write_control enc cout1 (control_message_new (Complete \<lparr>tc_bytes_written = written\<rparr>)) of
        Err e \<Rightarrow> (Err e, sh1, cout1)
      | Ok cout2 \<Rightarrow> (Ok written, sh1, cout2))"

section \<open>The session\<close>

fun worker_result :: "worker \<Rightarrow> (unit, core_error) result option" where
  "worker_result (Done r) = Some r"
| "worker_result _ = None"

fun all_results :: "worker list \<Rightarrow> (unit, core_error) result list option" where
  "all_results [] = Some []"
| "all_results (w # ws) =
     (case worker_result w of
        None \<Rightarrow> None
      | Some r \<Rightarrow> map_option ((#) r) (all_results ws))"

definition initial_shared :: "offer_acc \<Rightarrow> recv_shared" where
  "initial_shared acc = \<lparr>rs_files = oa_files acc, rs_fs = oa_fs acc, rs_durable = oa_fs acc,
     rs_counter = min (oa_resumed acc) (oa_total acc), rs_events = []\<rparr>"

definition session_env :: "os_env \<Rightarrow> (bytes \<Rightarrow> hash) \<Rightarrow> config \<Rightarrow> offer_acc \<Rightarrow> recv_env" where
  "session_env os blake3 config acc = \<lparr>re_os = os, re_blake3 = blake3, re_total = oa_total acc,
     re_checkpoint = cfg_checkpoint_bytes config\<rparr>"

text \<open>
  The session as a function of the schedule of its data phase.  \<open>None\<close> is a session that has not
  ended: the schedule stops before every worker has.
\<close>

definition receive_run ::
    "os_env \<Rightarrow> (bytes \<Rightarrow> hash) \<Rightarrow> (control_message \<Rightarrow> bytes) \<Rightarrow> (bytes \<Rightarrow> control_message option) \<Rightarrow> config
     \<Rightarrow> path \<Rightarrow> fs \<Rightarrow> in_stream \<Rightarrow> out_stream \<Rightarrow> (nat \<Rightarrow> (in_stream, core_error) result) \<Rightarrow> u64 list
     \<Rightarrow> action list \<Rightarrow> ((u64, core_error) result \<times> fs \<times> out_stream) option" where
  "receive_run os blake3 enc dec config output_dir fs cin cout next_stream order sched =
     (case receive_handshake os blake3 enc dec config output_dir fs cin cout of
        (Handshake_panic, cout1, fs1) \<Rightarrow> None
      | (Turned_down e, cout1, fs1) \<Rightarrow> Some (Err e, fs1, cout1)
      | (Ready stream_count chunk_size acc, cout1, fs1) \<Rightarrow>
      let env = session_env os blake3 config acc in
      case open_streams dec next_stream [0..<unat stream_count] of
        Err e \<Rightarrow> Some (Err e, fs1, cout1)
      | Ok ws \<Rightarrow>
      let sys = run_schedule env sched \<lparr>sys_shared = initial_shared acc, sys_workers = ws\<rparr> in
      case all_results (sys_workers sys) of
        None \<Rightarrow> None
      | Some outcomes \<Rightarrow>
      case finish_receive env enc order outcomes (sys_shared sys) cout1 of
        (r, sh, cout2) \<Rightarrow> Some (r, rs_fs sh, cout2))"

section \<open>Lemmas on the offer\<close>

lemma chunks_even:
  assumes "0 < n" and "n dvd length xs"
  shows "length (chunks n xs) = length xs div n \<and> (\<forall>c \<in> set (chunks n xs). length c = n)"
  using assms
proof (induction n xs rule: chunks.induct)
  case (1 n xs)
  show ?case
  proof (cases "xs = []")
    case False
    obtain k' where k': "length xs = n * k'" using "1.prems"(2) by (rule dvdE)
    with False obtain k where k: "length xs = n * Suc k" by (cases k') auto
    have d: "length (drop n xs) = n * k" using k by simp
    have "\<not> (n = 0 \<or> xs = [])" using False "1.prems"(1) by simp
    from "1.IH" [OF this "1.prems"(1)] d
    have "length (chunks n (drop n xs)) = k" and "\<forall>c \<in> set (chunks n (drop n xs)). length c = n"
      using "1.prems"(1) by (auto simp del: length_drop)
    with k "1.prems"(1) show ?thesis
      unfolding chunks_unfold [OF "1.prems"(1) False] by simp
  qed simp
qed

lemma count_bound: "layout_ok l \<Longrightarrow> ccount l * 32 < 2 ^ 64"
proof -
  assume l: "layout_ok l"
  have "(ccount l - 1) * csize l < 2 ^ 64"
    using index_less_count [OF l, of "ccount l - 1"] unat_less_exp [of "cl_file_size l"]
    by (cases "ccount l = 0") (auto simp: chunk_start_def)
  moreover have "(ccount l - 1) * 2 ^ 16 \<le> (ccount l - 1) * csize l"
    using layout_okD(1) [OF l] by (intro mult_le_mono) auto
  ultimately have "(ccount l - 1) * 2 ^ 16 < 2 ^ 64" by (rule le_less_trans [rotated])
  then show ?thesis by (cases "ccount l") auto
qed

lemma split_hashes_Ok:
  assumes "layout_ok l" and "split_hashes bs (cl_count l) = Ok hs"
  shows "length hs = ccount l" "\<forall>h \<in> set hs. length h = 32" "concat hs = bs"
proof -
  have "unat (cl_count l * 32) = ccount l * 32"
    using count_bound [OF assms(1)] by (simp add: unat_mult_exact)
  then have n: "length bs = 32 * ccount l" and hs: "hs = filter (\<lambda>c. length c = 32) (chunks 32 bs)"
    using assms(2) by (auto simp: split_hashes_def split: if_splits)
  have c: "length (chunks 32 bs) = ccount l \<and> (\<forall>c \<in> set (chunks 32 bs). length c = 32)"
    using chunks_even [of 32 bs] n by simp
  then have "hs = chunks 32 bs" by (simp add: hs filter_id_conv)
  with c show "length hs = ccount l" "\<forall>h \<in> set hs. length h = 32" "concat hs = bs"
    by (simp_all add: concat_chunks)
qed

text \<open>What an accepted entry is: every check passed, and the state recorded for it.\<close>

definition entry_checked ::
    "(bytes \<Rightarrow> hash) \<Rightarrow> config \<Rightarrow> path \<Rightarrow> u32 \<Rightarrow> file_entry \<Rightarrow> file_state \<Rightarrow> bool" where
  "entry_checked blake3 config out cs e st \<longleftrightarrow>
     (\<exists>safe. sanitize_relative_path (fe_relative_path e) = Ok safe \<and> fpath st = path_join out safe)
     \<and> layout_new (fe_size_bytes e) cs = Ok (st_layout st) \<and> fe_size_bytes e \<le> cfg_max_file_bytes config
     \<and> sk_layout (st_sink st) = st_layout st
     \<and> split_hashes (fe_chunk_hashes e) (cl_count (st_layout st)) = Ok (st_chunk_hashes st)
     \<and> fe_root_hash e = root_from_chunk_hashes blake3 (st_chunk_hashes st)
     \<and> st_key st = \<lparr>key_root_hash = fe_root_hash e, key_file_size = fe_size_bytes e, key_chunk_size = cs\<rparr>"

text \<open>
  Where the bitmap of an accepted entry comes from: it is empty or was found by hashing, so that every
  bit is backed by the disk, or it was read from the sidecar.
\<close>

definition backed :: "(bytes \<Rightarrow> hash) \<Rightarrow> fs \<Rightarrow> file_state \<Rightarrow> bool" where
  "backed blake3 fs st \<longleftrightarrow> bitmap_for st (st_bitmap st) \<and>
     (\<forall>i < ccount (st_layout st). bools (st_bitmap st) ! i \<longrightarrow>
        blake3 (chunk_of (st_layout st) (content fs (fpath st)) i) = st_chunk_hashes st ! i)"

definition recorded :: "(bytes \<Rightarrow> hash) \<Rightarrow> fs \<Rightarrow> file_state \<Rightarrow> bool" where
  "recorded blake3 fs st \<longleftrightarrow> bitmap_ok (st_bitmap st)
     \<and> fs (state_path (fpath st)) = Some (state_record blake3 (st_key st) (st_bitmap st))"

lemma bitmap_new_backed:
  "st_bitmap st = bitmap_new (cl_count (st_layout st)) \<Longrightarrow> backed blake3 fs st"
  by (simp add: backed_def bitmap_for_def bitmap_new_ok bools_new) (simp add: bitmap_new_def)

lemma choose_bitmap_ok:
  assumes "choose_bitmap os blake3 config fs (fpath st) (st_key st) (st_sink st) (st_chunk_hashes st) pre
      = Some (Ok (st_bitmap st))"
    and "\<And>x. length (blake3 x) = 32" and "length (key_root_hash (st_key st)) = 32"
    and "layout_ok (st_layout st)" and "sk_layout (st_sink st) = st_layout st"
    and "length (st_chunk_hashes st) = ccount (st_layout st)" and "space_ok fs st"
  shows "backed blake3 fs st \<or> recorded blake3 fs st"
proof -
  consider "st_bitmap st = bitmap_new (cl_count (st_layout st))"
    | "load os blake3 fs (fpath st) (st_key st) = Some (st_bitmap st)"
    | "rebuild_by_verification os blake3 fs (st_sink st) (st_chunk_hashes st) = Some (Ok (st_bitmap st))"
    using assms(1,5) by (auto simp: choose_bitmap_def split: if_splits option.splits)
  then show ?thesis
  proof cases
    case 1
    then show ?thesis by (simp add: bitmap_new_backed)
  next
    case 2
    then show ?thesis
      using load_eq [OF assms(2,3)] by (auto simp: recorded_def)
  next
    case 3
    obtain b where b: "rebuild_by_verification os blake3 fs (st_sink st) (st_chunk_hashes st) = Some (Ok b)"
        "bitmap_ok b" "bm_count b = cl_count (st_layout st)"
        "\<forall>j < ccount (st_layout st). bools b ! j \<longrightarrow>
           (\<exists>bs. read_chunk os fs (st_sink st) (of_nat j) = Ok bs \<and> blake3 bs = st_chunk_hashes st ! j)"
      using rebuild_exists [of "st_sink st" "st_chunk_hashes st" os blake3 fs] assms(5,6) by auto
    have "bs = chunk_of (st_layout st) (content fs (fpath st)) j"
      if j: "j < ccount (st_layout st)" and r: "read_chunk os fs (st_sink st) (of_nat j) = Ok bs" for j bs
    proof -
      have "unat (of_nat j :: u64) = j"
        using j unat_less_exp [of "cl_count (st_layout st)"] by (simp add: unat_of_nat_u64)
      then show ?thesis
        using read_chunk_Ok [of "st_sink st" fs "of_nat j" os] assms(5,7) j r
        by (auto simp: space_ok_def split: if_splits)
    qed
    with b 3 show ?thesis by (auto simp: backed_def bitmap_for_def)
  qed
qed

lemma root_length: "(\<And>x. length (blake3 x) = 32) \<Longrightarrow> length (root_from_chunk_hashes blake3 hs) = 32"
  by (simp add: root_eq)

lemma sink_create_space:
  assumes "sink_create os fs p sz cs = (Ok s, fs')" and "fpath st = p" and "st_layout st = sk_layout s"
  shows "space_ok fs' st"
proof (cases "sz = 0")
  case True
  have "layout_ok (sk_layout s)" "cl_file_size (sk_layout s) = 0"
    using layout_new_ok [OF sink_create_Ok(2) [OF assms(1)]] True by auto
  then have "ccount (sk_layout s) = 0"
    using layout_okD(3,5) [of "sk_layout s"] by simp
  with assms(3) show ?thesis by (simp add: space_ok_def)
next
  case False
  then show ?thesis
    using sink_create_Ok [OF assms(1)] layout_new_ok [of sz cs "sk_layout s"] assms(2,3)
    by (simp add: space_ok_def file_fits_def)
qed

lemma accept_entry_ok:
  assumes "accept_entry os blake3 config out cs e acc = Accepted acc'" and "\<And>x. length (blake3 x) = 32"
  obtains st safe where
    "sanitize_relative_path (fe_relative_path e) = Ok safe" "safe \<notin> oa_seen acc"
    "oa_files acc' = (oa_files acc)(fe_file_id e \<mapsto> st)" "oa_seen acc' = insert safe (oa_seen acc)"
    "fpath st = path_join out safe" "entry_checked blake3 config out cs e st"
    "space_ok (oa_fs acc') st" "backed blake3 (oa_fs acc') st \<or> recorded blake3 (oa_fs acc') st"
    "\<And>q. q \<noteq> fpath st \<Longrightarrow> oa_fs acc' q = oa_fs acc q"
proof -
  obtain safe layout hs sink bitmap fs1 where
    safe: "sanitize_relative_path (fe_relative_path e) = Ok safe" "safe \<notin> oa_seen acc"
    and layout: "layout_new (fe_size_bytes e) cs = Ok layout" "fe_size_bytes e \<le> cfg_max_file_bytes config"
    and hs: "split_hashes (fe_chunk_hashes e) (cl_count layout) = Ok hs"
      "fe_root_hash e = root_from_chunk_hashes blake3 hs"
    and sink: "sink_create os (oa_fs acc) (path_join out safe) (fe_size_bytes e) cs = (Ok sink, fs1)"
    and bitmap: "choose_bitmap os blake3 config fs1 (path_join out safe)
        \<lparr>key_root_hash = root_from_chunk_hashes blake3 hs, key_file_size = fe_size_bytes e, key_chunk_size = cs\<rparr>
        sink hs (file_exists os (oa_fs acc) (path_join out safe)) = Some (Ok bitmap)"
    and acc': "oa_files acc' = (oa_files acc)(fe_file_id e \<mapsto>
          \<lparr>st_sink = sink, st_layout = layout, st_chunk_hashes = hs, st_bitmap = bitmap,
           st_key = \<lparr>key_root_hash = root_from_chunk_hashes blake3 hs, key_file_size = fe_size_bytes e,
             key_chunk_size = cs\<rparr>, st_since_checkpoint = 0, st_checkpointing = False\<rparr>)"
      "oa_seen acc' = insert safe (oa_seen acc)" "oa_fs acc' = fs1"
    using assms(1)
    by (auto simp: accept_entry_def Let_def not_less
        split: result.splits if_splits prod.splits option.splits)
  define st where "st = \<lparr>st_sink = sink, st_layout = layout, st_chunk_hashes = hs, st_bitmap = bitmap,
     st_key = \<lparr>key_root_hash = root_from_chunk_hashes blake3 hs, key_file_size = fe_size_bytes e,
       key_chunk_size = cs\<rparr>, st_since_checkpoint = 0, st_checkpointing = False\<rparr>"
  note sk = sink_create_Ok [OF sink]
  have lay: "sk_layout sink = layout" using sk(2) layout(1) by simp
  have fp: "fpath st = path_join out safe" by (simp add: st_def sk)
  have ok: "layout_ok layout" using layout_new_ok [OF layout(1)] by simp
  have chk: "entry_checked blake3 config out cs e st"
    using safe layout hs fp by (simp add: entry_checked_def st_def lay)
  have sp: "space_ok fs1 st"
    by (rule sink_create_space [OF sink fp]) (simp add: st_def lay)
  have bt: "backed blake3 fs1 st \<or> recorded blake3 fs1 st"
  proof (rule choose_bitmap_ok [OF _ assms(2)])
    show "choose_bitmap os blake3 config fs1 (fpath st) (st_key st) (st_sink st) (st_chunk_hashes st)
        (file_exists os (oa_fs acc) (path_join out safe)) = Some (Ok (st_bitmap st))"
      unfolding fp using bitmap by (simp add: st_def)
  qed (use ok sp split_hashes_Ok(1) [OF ok hs(1)] root_length [OF assms(2)] in \<open>simp_all add: st_def lay\<close>)
  have fr: "q \<noteq> fpath st \<Longrightarrow> fs1 q = oa_fs acc q" for q
    using sk(3) by (simp add: fp)
  show thesis
    by (rule that [OF safe _ acc'(2) fp chk]) (use acc' sp bt fr in \<open>auto simp: st_def\<close>)
qed

text \<open>The state of the offer loop after the entries \<open>es\<close>.\<close>

definition entry_dest :: "path \<Rightarrow> file_entry \<Rightarrow> path" where
  "entry_dest out e =
     (case sanitize_relative_path (fe_relative_path e) of Ok p \<Rightarrow> path_join out p | Err _ \<Rightarrow> [])"

definition sidecars_free :: "path set \<Rightarrow> bool" where
  "sidecars_free ds \<longleftrightarrow> (\<forall>p \<in> ds. \<forall>p' \<in> ds. p \<noteq> state_path p' \<and> p \<noteq> tmp_path p')"

definition offer_inv :: "(bytes \<Rightarrow> hash) \<Rightarrow> config \<Rightarrow> path \<Rightarrow> u32 \<Rightarrow> file_entry list \<Rightarrow> offer_acc \<Rightarrow> bool" where
  "offer_inv blake3 config out cs es acc \<longleftrightarrow>
     Ok ` oa_seen acc = (\<lambda>e. sanitize_relative_path (fe_relative_path e)) ` set es
     \<and> dom (oa_files acc) = fe_file_id ` set es \<and> distinct (map (entry_dest out) es)
     \<and> (\<forall>e \<in> set es. \<exists>st. oa_files acc (fe_file_id e) = Some st \<and> entry_checked blake3 config out cs e st
          \<and> space_ok (oa_fs acc) st \<and> (backed blake3 (oa_fs acc) st \<or> recorded blake3 (oa_fs acc) st))"

lemma entry_checked_dest: "entry_checked blake3 config out cs e st \<Longrightarrow> fpath st = entry_dest out e"
  by (auto simp: entry_checked_def entry_dest_def)

lemma path_join_inject:
  assumes "sanitize_relative_path r = Ok p" and "sanitize_relative_path r' = Ok p'"
    and "path_join out p = path_join out p'"
  shows "p = p'"
  using assms path_join_sanitized [of _ _ out] by (simp add: sanitize_Ok)

lemma frame_fs:
  assumes "m (fpath st) = m' (fpath st)" and "m (state_path (fpath st)) = m' (state_path (fpath st))"
  shows "space_ok m st = space_ok m' st" "backed blake3 m st = backed blake3 m' st"
    "recorded blake3 m st = recorded blake3 m' st"
  using assms by (simp_all add: space_ok_def backed_def recorded_def content_def)

text \<open>
  An entry whose destination has not been seen is written apart from every earlier one, and leaves what
  was accepted for these as it was.
\<close>

lemma offer_apart:
  assumes inv: "offer_inv blake3 config out cs es acc" and e': "e' \<in> set es"
    and safe: "sanitize_relative_path r = Ok safe" "safe \<notin> oa_seen acc"
  shows "entry_dest out e' \<noteq> path_join out safe"
proof -
  have "sanitize_relative_path (fe_relative_path e') \<in> Ok ` oa_seen acc"
    using inv e' by (auto simp: offer_inv_def)
  then obtain p where p: "sanitize_relative_path (fe_relative_path e') = Ok p" "p \<in> oa_seen acc" by auto
  with safe(2) have "p \<noteq> safe" by auto
  then show ?thesis using path_join_inject [OF p(1) safe(1), of out] p(1) by (auto simp: entry_dest_def)
qed

lemma offer_entry_kept:
  assumes inv: "offer_inv blake3 config out cs es acc" and e': "e' \<in> set es"
    and apart: "entry_dest out e' \<noteq> p" "state_path (entry_dest out e') \<noteq> p"
    and frame: "\<And>q. q \<noteq> p \<Longrightarrow> oa_fs acc' q = oa_fs acc q"
  shows "\<exists>st. oa_files acc (fe_file_id e') = Some st \<and> entry_checked blake3 config out cs e' st
     \<and> space_ok (oa_fs acc') st \<and> (backed blake3 (oa_fs acc') st \<or> recorded blake3 (oa_fs acc') st)"
proof -
  obtain st where st: "oa_files acc (fe_file_id e') = Some st" "entry_checked blake3 config out cs e' st"
      "space_ok (oa_fs acc) st" "backed blake3 (oa_fs acc) st \<or> recorded blake3 (oa_fs acc) st"
    using inv e' by (auto simp: offer_inv_def)
  have "fpath st = entry_dest out e'" by (rule entry_checked_dest [OF st(2)])
  then have "oa_fs acc' (fpath st) = oa_fs acc (fpath st)"
    "oa_fs acc' (state_path (fpath st)) = oa_fs acc (state_path (fpath st))"
    using apart by (auto intro!: frame)
  with st frame_fs [OF this] show ?thesis by auto
qed

lemma offer_inv_step:
  assumes inv: "offer_inv blake3 config out cs es acc" and "\<And>x. length (blake3 x) = 32"
    and "accept_entry os blake3 config out cs e acc = Accepted acc'"
    and "fe_file_id e \<notin> fe_file_id ` set es" and "sidecars_free (entry_dest out ` set (es @ [e]))"
  shows "offer_inv blake3 config out cs (es @ [e]) acc'"
proof -
  obtain st safe where a:
    "sanitize_relative_path (fe_relative_path e) = Ok safe" "safe \<notin> oa_seen acc"
    "oa_files acc' = (oa_files acc)(fe_file_id e \<mapsto> st)" "oa_seen acc' = insert safe (oa_seen acc)"
    "fpath st = path_join out safe" "entry_checked blake3 config out cs e st"
    "space_ok (oa_fs acc') st" "backed blake3 (oa_fs acc') st \<or> recorded blake3 (oa_fs acc') st"
    and fr: "\<And>q. q \<noteq> fpath st \<Longrightarrow> oa_fs acc' q = oa_fs acc q"
    by (rule accept_entry_ok [OF assms(3,2)]) (rule that; blast)
  have new: "entry_dest out e = fpath st" using entry_checked_dest [OF a(6)] by simp
  have apart: "entry_dest out e' \<noteq> fpath st" if "e' \<in> set es" for e'
    using offer_apart [OF inv that a(1,2)] a(5) by simp
  have side: "state_path (entry_dest out e') \<noteq> fpath st" if "e' \<in> set es" for e'
    using assms(5) that new by (auto simp: sidecars_free_def)
  have keep: "\<exists>st'. oa_files acc' (fe_file_id e') = Some st' \<and> entry_checked blake3 config out cs e' st'
      \<and> space_ok (oa_fs acc') st' \<and> (backed blake3 (oa_fs acc') st' \<or> recorded blake3 (oa_fs acc') st')"
    if h: "e' \<in> set es" for e'
  proof -
    have "fe_file_id e' \<noteq> fe_file_id e" using assms(4) imageI [OF h, of fe_file_id] by metis
    with offer_entry_kept [OF inv h apart [OF h] side [OF h] fr] show ?thesis by (auto simp: a(3))
  qed
  have "Ok ` oa_seen acc' = (\<lambda>e. sanitize_relative_path (fe_relative_path e)) ` set (es @ [e])"
    using inv a(1,4) by (simp add: offer_inv_def)
  moreover have "dom (oa_files acc') = fe_file_id ` set (es @ [e])"
    using inv a(3) by (simp add: offer_inv_def)
  moreover have "entry_dest out e \<notin> entry_dest out ` set es"
    using apart new by (metis imageE)
  then have "distinct (map (entry_dest out) (es @ [e]))"
    using inv by (simp add: offer_inv_def)
  ultimately show ?thesis
    using keep a(3,6,7,8) by (auto simp: offer_inv_def)
qed

lemma offer_inv_run:
  assumes "\<And>x. length (blake3 x) = 32" and "accept_entries os blake3 config out cs es acc = Accepted acc'"
    and "offer_inv blake3 config out cs ds acc" and "distinct (map fe_file_id (ds @ es))"
    and "sidecars_free (entry_dest out ` set (ds @ es))"
  shows "offer_inv blake3 config out cs (ds @ es) acc'"
  using assms(2-5)
proof (induction es arbitrary: ds acc)
  case (Cons e es)
  obtain acc1 where a: "accept_entry os blake3 config out cs e acc = Accepted acc1"
      "accept_entries os blake3 config out cs es acc1 = Accepted acc'"
    using Cons.prems(1) by (auto split: entry_outcome.splits)
  have "sidecars_free (entry_dest out ` set (ds @ [e]))"
    using Cons.prems(4) by (auto simp: sidecars_free_def)
  moreover have "fe_file_id e \<notin> fe_file_id ` set ds" using Cons.prems(3) by auto
  ultimately have "offer_inv blake3 config out cs (ds @ [e]) acc1"
    using offer_inv_step [OF Cons.prems(2) assms(1) a(1)] by blast
  with Cons.IH [OF a(2), of "ds @ [e]"] Cons.prems(3,4) show ?case by simp
qed simp

lemma offer_accepted:
  assumes "\<And>x. length (blake3 x) = 32"
    and "accept_entries os blake3 config out cs es (offer_start fs) = Accepted acc"
    and "distinct (map fe_file_id es)" and "sidecars_free (entry_dest out ` set es)"
  shows "offer_inv blake3 config out cs es acc"
proof -
  have "offer_inv blake3 config out cs [] (offer_start fs)"
    by (simp add: offer_inv_def offer_start_def)
  from offer_inv_run [OF assms(1,2) this] assms(3,4) show ?thesis by simp
qed

section \<open>From the offer to the invariant of the data phase\<close>

text \<open>
  Sidecars that are on disk when the session starts are honest: a valid record for an offered file
  has one bit per chunk and claims only chunks that are in the staging file.  Records written by
  earlier sessions satisfy this as long as the staging files were left alone.
\<close>

definition records_honest :: "(bytes \<Rightarrow> hash) \<Rightarrow> offer_acc \<Rightarrow> bool" where
  "records_honest blake3 acc \<longleftrightarrow>
     (\<forall>f st b. oa_files acc f = Some st \<and> bitmap_ok b
        \<and> oa_fs acc (state_path (fpath st)) = Some (state_record blake3 (st_key st) b) \<longrightarrow>
        backed blake3 (oa_fs acc) (st\<lparr>st_bitmap := b\<rparr>))"

lemma state_path_inject:
  assumes "p \<noteq> []" and "p' \<noteq> []" and "state_path p = state_path p'"
  shows "p = p'"
proof -
  have "butlast p = butlast p'" "last p = last p'"
    using assms by (simp_all add: state_path_def with_file_name_def file_name_def)
  then show ?thesis
    using append_butlast_last_id [OF assms(1)] append_butlast_last_id [OF assms(2)] by metis
qed

lemma state_tmp_path_neq: "state_path p \<noteq> tmp_path p'"
proof
  assume "state_path p = tmp_path p'"
  then have "last (last (state_path p)) = last (last (tmp_path p'))" by simp
  then show False
    unfolding tmp_path_eq by (simp add: state_path_def with_file_name_def)
qed

lemma entry_checked_static:
  assumes "entry_checked blake3 config out cs e st" and "\<And>x. length (blake3 x) = 32"
  shows "layout_ok (st_layout st)" "length (st_chunk_hashes st) = ccount (st_layout st)"
    "length (key_root_hash (st_key st)) = 32" "sk_layout (st_sink st) = st_layout st" "fpath st \<noteq> []"
proof -
  show l: "layout_ok (st_layout st)"
    using assms(1) layout_new_ok by (auto simp: entry_checked_def)
  show "length (st_chunk_hashes st) = ccount (st_layout st)"
    using split_hashes_Ok(1) [OF l] assms(1) by (auto simp: entry_checked_def)
  show "length (key_root_hash (st_key st)) = 32"
    using assms root_length [OF assms(2)] by (auto simp: entry_checked_def)
  show "sk_layout (st_sink st) = st_layout st" using assms(1) by (simp add: entry_checked_def)
  show "fpath st \<noteq> []"
    using assms(1) path_join_sanitized [of _ _ out] by (auto simp: entry_checked_def sanitize_Ok)
qed

lemma offer_inv_entry:
  assumes "offer_inv blake3 config out cs es acc" and "oa_files acc f = Some st"
  obtains e where "e \<in> set es" "fe_file_id e = f" "entry_checked blake3 config out cs e st"
    "space_ok (oa_fs acc) st" "backed blake3 (oa_fs acc) st \<or> recorded blake3 (oa_fs acc) st"
proof -
  have "f \<in> dom (oa_files acc)" using assms(2) by auto
  then obtain e where e: "e \<in> set es" "fe_file_id e = f"
    using assms(1) by (auto simp: offer_inv_def)
  with assms show thesis
    by (intro that [OF e]) (auto simp: offer_inv_def)
qed

lemma names_disjoint_offer:
  assumes "offer_inv blake3 config out cs es acc" and "\<And>x. length (blake3 x) = 32"
    and "sidecars_free (entry_dest out ` set es)"
  shows "names_disjoint (file_paths (oa_files acc))"
  unfolding names_disjoint_def
proof (intro allI impI)
  fix f p f' p'
  assume "file_paths (oa_files acc) f = Some p \<and> file_paths (oa_files acc) f' = Some p'"
  then obtain st st' where st: "oa_files acc f = Some st" "p = fpath st" "oa_files acc f' = Some st'" "p' = fpath st'"
    by (auto simp: file_paths_def)
  obtain e where e: "e \<in> set es" "fe_file_id e = f" "entry_checked blake3 config out cs e st"
    using offer_inv_entry [OF assms(1) st(1)] .
  obtain e' where e': "e' \<in> set es" "fe_file_id e' = f'" "entry_checked blake3 config out cs e' st'"
    using offer_inv_entry [OF assms(1) st(3)] .
  have d: "p = entry_dest out e" "p' = entry_dest out e'" "p \<noteq> []" "p' \<noteq> []"
    using entry_checked_dest [OF e(3)] entry_checked_dest [OF e'(3)]
      entry_checked_static(5) [OF e(3) assms(2)] entry_checked_static(5) [OF e'(3) assms(2)] st by auto
  have inj: "inj_on (entry_dest out) (set es)"
    using assms(1) by (simp add: offer_inv_def distinct_map)
  have "p \<noteq> p'" if "f \<noteq> f'"
    using inj_onD [OF inj, of e e'] that e(1,2) e'(1,2) d(1,2) by auto
  moreover have "p \<noteq> state_path p' \<and> p \<noteq> tmp_path p'"
    using assms(3) e(1) e'(1) by (auto simp: sidecars_free_def d(1,2))
  ultimately show "(f \<noteq> f' \<longrightarrow> p \<noteq> p' \<and> state_path p \<noteq> state_path p')
      \<and> p \<noteq> state_path p' \<and> p \<noteq> tmp_path p' \<and> state_path p \<noteq> tmp_path p'"
    using state_path_inject [OF d(3,4)] state_tmp_path_neq by auto
qed

lemma backed_covers:
  "re_blake3 env = blake3 \<Longrightarrow> backed blake3 fs (st\<lparr>st_bitmap := b\<rparr>) \<Longrightarrow>
   bitmap_for st b \<and> covers env st (content fs (fpath st)) b"
  by (auto simp: backed_def covers_def trusted_def bitmap_for_def)

lemma initial_shared_inv:
  assumes "offer_inv blake3 config out cs es acc" and "\<And>x. length (blake3 x) = 32"
    and "sidecars_free (entry_dest out ` set es)" and "records_honest blake3 acc"
  shows "shared_inv (session_env os blake3 config acc) (initial_shared acc)"
proof -
  let ?env = "session_env os blake3 config acc" and ?sh = "initial_shared acc"
  have hash: "re_blake3 ?env = blake3" by (simp add: session_env_def)
  have "file_inv ?env ?sh st" if f: "oa_files acc f = Some st" for f st
  proof -
    obtain e where e: "entry_checked blake3 config out cs e st" "space_ok (oa_fs acc) st"
        "backed blake3 (oa_fs acc) st \<or> recorded blake3 (oa_fs acc) st"
      using offer_inv_entry [OF assms(1) f] .
    have rec: "bitmap_for st b \<and> covers ?env st (content (oa_fs acc) (fpath st)) b"
      if "oa_fs acc (state_path (fpath st)) = Some (state_record blake3 (st_key st) b)" "bitmap_ok b" for b
      using assms(4) f that by (intro backed_covers [OF hash]) (auto simp: records_honest_def)
    have "bitmap_for st (st_bitmap st) \<and> covers ?env st (content (oa_fs acc) (fpath st)) (st_bitmap st)"
      using e(3) rec [of "st_bitmap st"] backed_covers [where st = st and b = "st_bitmap st", OF hash]
      by (auto simp: recorded_def)
    moreover have "claim_ok ?env ?sh st (oa_fs acc (state_path (fpath st)))"
      using rec by (auto simp: claim_ok_def initial_shared_def hash bitmap_for_def)
    ultimately show ?thesis
      using entry_checked_static [OF e(1) assms(2)] e(2)
      by (simp add: file_inv_def static_ok_def initial_shared_def)
  qed
  then show ?thesis
    using names_disjoint_offer [OF assms(1-3)] by (simp add: shared_inv_def initial_shared_def)
qed

section \<open>Lemmas on completion\<close>

lemma discard_other:
  "q \<noteq> state_path p \<Longrightarrow> q \<noteq> tmp_path p \<Longrightarrow> discard os fs p q = fs q"
  by (simp add: discard_def remove_file_def)

lemma discard_None: "fs q = None \<Longrightarrow> discard os fs p q = None"
  by (auto simp: discard_def remove_file_def)

text \<open>The sidecars and temporaries of a set of files.\<close>

definition sidecar_paths :: "(u64 \<rightharpoonup> file_state) \<Rightarrow> u64 set \<Rightarrow> path set" where
  "sidecar_paths files F =
     {q. \<exists>f \<in> F. \<exists>st. files f = Some st \<and> (q = state_path (fpath st) \<or> q = tmp_path (fpath st))}"

lemma sidecar_paths_insert:
  "sidecar_paths files (insert f F) = sidecar_paths files F \<union>
     (case files f of None \<Rightarrow> {} | Some st \<Rightarrow> {state_path (fpath st), tmp_path (fpath st)})"
  by (auto simp: sidecar_paths_def split: option.splits)

lemma complete_files_Ok:
  assumes "complete_files env enc order sh cout = (Ok (), sh', cout')"
  shows "rs_files sh' = rs_files sh" "cout' = cout" "rs_counter sh' = rs_counter sh"
    "\<And>f st. f \<in> set order \<Longrightarrow> rs_files sh f = Some st \<Longrightarrow> bitmap_is_complete (st_bitmap st)"
    "\<And>q. q \<notin> sidecar_paths (rs_files sh) (set order) \<Longrightarrow> rs_fs sh' q = rs_fs sh q"
proof -
  have "rs_files sh' = rs_files sh \<and> cout' = cout \<and> rs_counter sh' = rs_counter sh
    \<and> (\<forall>f st. f \<in> set order \<and> rs_files sh f = Some st \<longrightarrow> bitmap_is_complete (st_bitmap st))
    \<and> (\<forall>q. q \<notin> sidecar_paths (rs_files sh) (set order) \<longrightarrow> rs_fs sh' q = rs_fs sh q)"
    using assms
  proof (induction env enc order sh cout rule: complete_files.induct)
    case (2 env enc f fs sh cout)
    show ?case
    proof (cases "rs_files sh f")
      case None
      with 2 show ?thesis by (auto simp: sidecar_paths_insert)
    next
      case (Some st)
      then have c: "bitmap_is_complete (st_bitmap st)" and y: "sink_sync (re_os env) (st_sink st) = Ok ()"
        using "2.prems" by (auto simp: Let_def split: if_splits result.splits)
      let ?sh = "sh\<lparr>rs_durable := (rs_durable sh)(fpath st := rs_fs sh (fpath st)),
          rs_fs := discard (re_os env) (rs_fs sh) (fpath st)\<rparr>"
      have "complete_files env enc fs ?sh cout = (Ok (), sh', cout')"
        using "2.prems" Some c y by simp
      then have ih: "rs_files sh' = rs_files sh \<and> cout' = cout \<and> rs_counter sh' = rs_counter sh
        \<and> (\<forall>f st. f \<in> set fs \<and> rs_files sh f = Some st \<longrightarrow> bitmap_is_complete (st_bitmap st))
        \<and> (\<forall>q. q \<notin> sidecar_paths (rs_files sh) (set fs) \<longrightarrow>
            rs_fs sh' q = discard (re_os env) (rs_fs sh) (fpath st) q)"
        using "2.IH"(2) [OF Some _ y] c by auto
      then show ?thesis
        using Some c by (auto simp: sidecar_paths_insert discard_other)
    qed
  qed auto
  then show "rs_files sh' = rs_files sh" "cout' = cout" "rs_counter sh' = rs_counter sh"
    "\<And>f st. f \<in> set order \<Longrightarrow> rs_files sh f = Some st \<Longrightarrow> bitmap_is_complete (st_bitmap st)"
    "\<And>q. q \<notin> sidecar_paths (rs_files sh) (set order) \<Longrightarrow> rs_fs sh' q = rs_fs sh q"
    by auto
qed

lemma finish_receive_Ok:
  assumes "finish_receive env enc order outcomes sh cout = (Ok n, sh', cout')"
  shows "first_error outcomes = None" "\<exists>c. complete_files env enc order sh cout = (Ok (), sh', c)"
    "n = rs_counter sh'"
  using assms
  by (auto simp: finish_receive_def Let_def split: option.splits prod.splits result.splits)

lemma open_streams_reading:
  "open_streams dec next_stream ks = Ok ws \<Longrightarrow> w \<in> set ws \<Longrightarrow> \<exists>r. w = Reading (stream_start r)"
  by (induction ks arbitrary: ws) (auto split: result.splits prod.splits body.splits)

lemma fresh_sys_inv:
  assumes "shared_inv env sh" and "\<And>x. length (re_blake3 env x) = 32"
    and "open_streams dec next_stream ks = Ok ws"
  shows "sys_inv env \<lparr>sys_shared = sh, sys_workers = ws\<rparr>"
  using assms open_streams_reading [OF assms(3)]
  by (fastforce simp: sys_inv_def stream_inv_def stream_start_def)

text \<open>A session that reports success went through all of its phases.\<close>

lemma receive_run_Ok:
  assumes "receive_run os blake3 enc dec config out fs cin cout next_stream order sched = Some (Ok n, fs', cout')"
  obtains h cin1 offer cin2 acc k ws sys c1 c2 sh where
    "read_control dec cin = Ok (Hello h, cin1)" "check_hello config h = Ok k"
    "read_control dec cin1 = Ok (Offer offer, cin2)"
    "accept_entries os blake3 config out (mo_chunk_size offer) (mo_files offer) (offer_start fs) = Accepted acc"
    "open_streams dec next_stream [0..<unat k] = Ok ws"
    "sys = run_schedule (session_env os blake3 config acc) sched
        \<lparr>sys_shared = initial_shared acc, sys_workers = ws\<rparr>"
    "complete_files (session_env os blake3 config acc) enc order (sys_shared sys) c1 = (Ok (), sh, c2)"
    "fs' = rs_fs sh" "n = rs_counter sh"
proof -
  obtain k cs acc c1 fs1 where hs: "receive_handshake os blake3 enc dec config out fs cin cout = (Ready k cs acc, c1, fs1)"
    using assms by (auto simp: receive_run_def split: prod.splits handshake.splits)
  obtain ws where ws: "open_streams dec next_stream [0..<unat k] = Ok ws"
    using assms by (auto simp: receive_run_def hs Let_def split: result.splits)
  let ?env = "session_env os blake3 config acc"
  define sys where "sys = run_schedule ?env sched \<lparr>sys_shared = initial_shared acc, sys_workers = ws\<rparr>"
  obtain outcomes sh c where fin: "finish_receive ?env enc order outcomes (sys_shared sys) c1 = (Ok n, sh, c)" "fs' = rs_fs sh"
    using assms by (auto simp: receive_run_def hs ws Let_def sys_def [symmetric] split: option.splits prod.splits)
  obtain c2 where cf: "complete_files ?env enc order (sys_shared sys) c1 = (Ok (), sh, c2)" and n: "n = rs_counter sh"
    using finish_receive_Ok [OF fin(1)] by blast
  obtain h cin1 where h: "read_control dec cin = Ok (Hello h, cin1)" "check_hello config h = Ok k"
    using hs by (auto simp: receive_handshake_def split: result.splits prod.splits body.splits entry_outcome.splits)
  obtain offer cin2 where o: "read_control dec cin1 = Ok (Offer offer, cin2)"
      "accept_entries os blake3 config out (mo_chunk_size offer) (mo_files offer) (offer_start fs) = Accepted acc"
    using hs h by (auto simp: receive_handshake_def split: result.splits prod.splits body.splits entry_outcome.splits)
  show thesis
    by (rule that [OF h o ws sys_def cf fin(2) n])
qed

lemma complete_files_removed:
  assumes "complete_files env enc order sh cout = (Ok (), sh', cout')"
  shows "rs_fs sh q = None \<Longrightarrow> rs_fs sh' q = None"
    "f \<in> set order \<Longrightarrow> rs_files sh f = Some st \<Longrightarrow> q \<in> {state_path (fpath st), tmp_path (fpath st)} \<Longrightarrow>
     \<not> os_fails (re_os env) (RemoveFile q) \<Longrightarrow> rs_fs sh' q = None"
proof -
  have main: "(rs_fs sh q = None \<longrightarrow> rs_fs sh' q = None)
    \<and> (f \<in> set order \<and> rs_files sh f = Some st \<and> q \<in> {state_path (fpath st), tmp_path (fpath st)}
        \<and> \<not> os_fails (re_os env) (RemoveFile q) \<longrightarrow> rs_fs sh' q = None)"
    using assms
  proof (induction env enc order sh cout rule: complete_files.induct)
    case (2 env enc g gs sh cout)
    show ?case
    proof (cases "rs_files sh g")
      case None
      with 2 show ?thesis by auto
    next
      case (Some stg)
      then have c: "bitmap_is_complete (st_bitmap stg)" and y: "sink_sync (re_os env) (st_sink stg) = Ok ()"
        using "2.prems" by (auto simp: Let_def split: if_splits result.splits)
      have gone: "discard (re_os env) (rs_fs sh) (fpath stg) q = None"
        if "q \<in> {state_path (fpath stg), tmp_path (fpath stg)}" "\<not> os_fails (re_os env) (RemoveFile q)"
        using that by (auto simp: discard_def remove_file_def)
      show ?thesis
        using "2.IH"(2) [OF Some _ y] "2.prems" Some c y gone discard_None [of "rs_fs sh" q]
        by (auto simp del: insert_iff) auto
    qed
  qed auto
  from main show "rs_fs sh q = None \<Longrightarrow> rs_fs sh' q = None" by iprover
  from main show "f \<in> set order \<Longrightarrow> rs_files sh f = Some st \<Longrightarrow>
      q \<in> {state_path (fpath st), tmp_path (fpath st)} \<Longrightarrow>
      \<not> os_fails (re_os env) (RemoveFile q) \<Longrightarrow> rs_fs sh' q = None" by iprover
qed

lemma offer_all_checked:
  assumes "\<And>x. length (blake3 x) = 32" and "accept_entries os blake3 config out cs es acc = Accepted acc'"
  shows "(\<forall>e \<in> set es. \<exists>st safe. entry_checked blake3 config out cs e st
      \<and> sanitize_relative_path (fe_relative_path e) = Ok safe \<and> safe \<notin> oa_seen acc)
    \<and> distinct (map (\<lambda>e. sanitize_relative_path (fe_relative_path e)) es)"
  using assms(2)
proof (induction es arbitrary: acc)
  case (Cons e es)
  obtain acc1 where a: "accept_entry os blake3 config out cs e acc = Accepted acc1"
      "accept_entries os blake3 config out cs es acc1 = Accepted acc'"
    using Cons.prems by (auto split: entry_outcome.splits)
  obtain st safe where s: "sanitize_relative_path (fe_relative_path e) = Ok safe" "safe \<notin> oa_seen acc"
      "oa_seen acc1 = insert safe (oa_seen acc)" "entry_checked blake3 config out cs e st"
    by (rule accept_entry_ok [OF a(1) assms(1)])
  from Cons.IH [OF a(2)] s show ?case by fastforce
qed simp

section \<open>Properties\<close>

text \<open>
  The content of a received file matches its entry: it has the offered size, and the root computed
  from the hashes of its chunks is the offered root.
\<close>

definition file_matches :: "(bytes \<Rightarrow> hash) \<Rightarrow> u32 \<Rightarrow> file_entry \<Rightarrow> bytes \<Rightarrow> bool" where
  "file_matches blake3 cs e c \<longleftrightarrow>
     (\<exists>l. layout_new (fe_size_bytes e) cs = Ok l \<and> length c = unat (fe_size_bytes e)
        \<and> root_from_chunk_hashes blake3 (map (blake3 \<circ> chunk_of l c) [0..<ccount l]) = fe_root_hash e)"

lemma complete_file_matches:
  assumes "entry_checked blake3 config out cs e st0" and "same_file st0 st" and "file_inv env sh st"
    and "re_blake3 env = blake3" and "bitmap_is_complete (st_bitmap st)" and "fe_size_bytes e \<noteq> 0"
    and "\<And>p off. \<not> os_fails (re_os env) (WriteAt p off)"
  shows "file_matches blake3 cs e (content (rs_fs sh) (fpath st))"
proof -
  let ?l = "st_layout st" and ?c = "content (rs_fs sh) (fpath st)"
  have chk: "layout_new (fe_size_bytes e) cs = Ok ?l"
      "fe_root_hash e = root_from_chunk_hashes blake3 (st_chunk_hashes st)"
    using assms(1,2) by (auto simp: entry_checked_def same_file_def)
  have l: "layout_ok ?l" "cl_file_size ?l = fe_size_bytes e"
    using layout_new_ok [OF chk(1)] by auto
  have "0 < fsize ?l" using l(2) assms(6) by (simp add: word_neq_0_conv word_less_nat_alt)
  then have cnt: "0 < ccount ?l"
    using index_less_count [OF l(1), of 0] by (simp add: chunk_start_def)
  have st: "static_ok st" "file_fits ?l ?c" "covers env st ?c (st_bitmap st)"
    using assms(3) cnt by (auto simp: file_inv_def space_ok_def)
  have "bools (st_bitmap st) ! i" if "i < ccount ?l" for i
    using bm.complete_iff [of "st_bitmap st"] st(1) assms(5) that
    by (auto simp: static_ok_def bitmap_for_def length_bools)
  then have "blake3 (chunk_of ?l ?c i) = st_chunk_hashes st ! i" if "i < ccount ?l" for i
    using covers_hash [OF st(3) that] assms(4,7) that by simp
  then have "map (blake3 \<circ> chunk_of ?l ?c) [0..<ccount ?l] = st_chunk_hashes st"
    using st(1) by (intro nth_equalityI) (auto simp: static_ok_def)
  with chk l(2) st(2) show ?thesis
    by (auto simp: file_matches_def file_fits_def)
qed

lemma session_files_match:
  assumes "receive_run os blake3 enc dec config out fs cin cout next_stream order sched = Some (Ok n, fs', cout')"
    and "\<And>x. length (blake3 x) = 32"
    and "read_control dec cin = Ok (Hello h, cin1)" and "read_control dec cin1 = Ok (Offer offer, cin2)"
    and "accept_entries os blake3 config out (mo_chunk_size offer) (mo_files offer) (offer_start fs) = Accepted acc"
    and "distinct (map fe_file_id (mo_files offer))"
    and "sidecars_free (entry_dest out ` set (mo_files offer))"
    and "records_honest blake3 acc"
    and "set order = fe_file_id ` set (mo_files offer)"
    and "\<And>p off. \<not> os_fails os (WriteAt p off)"
    and "e \<in> set (mo_files offer)" and "fe_size_bytes e \<noteq> 0"
  shows "\<exists>safe. sanitize_relative_path (fe_relative_path e) = Ok safe
     \<and> file_matches blake3 (mo_chunk_size offer) e (content fs' (path_join out safe))"
proof -
  let ?env = "session_env os blake3 config acc" and ?cs = "mo_chunk_size offer" and ?es = "mo_files offer"
  have env: "re_blake3 ?env = blake3" "re_os ?env = os" by (simp_all add: session_env_def)
  obtain h' cin1' offer' cin2' acc' k ws sys c1 c2 sh where
    r: "read_control dec cin = Ok (Hello h', cin1')" "check_hello config h' = Ok k"
      "read_control dec cin1' = Ok (Offer offer', cin2')"
      "accept_entries os blake3 config out (mo_chunk_size offer') (mo_files offer') (offer_start fs) = Accepted acc'"
    and ws: "open_streams dec next_stream [0..<unat k] = Ok ws"
    and sys': "sys = run_schedule (session_env os blake3 config acc') sched
        \<lparr>sys_shared = initial_shared acc', sys_workers = ws\<rparr>"
    and cf': "complete_files (session_env os blake3 config acc') enc order (sys_shared sys) c1 = (Ok (), sh, c2)"
    and fs': "fs' = rs_fs sh"
    by (rule receive_run_Ok [OF assms(1)]) (rule that)
  have "cin1' = cin1" using r(1) assms(3) by simp
  then have "offer' = offer" using r(3) assms(4) by simp
  then have acc: "acc' = acc" using r(4) assms(5) by simp
  note sys = sys' [unfolded acc] and cf = cf' [unfolded acc]
  have off: "offer_inv blake3 config out ?cs ?es acc"
    by (rule offer_accepted [OF assms(2,5,6,7)])
  have inv0: "sys_inv ?env \<lparr>sys_shared = initial_shared acc, sys_workers = ws\<rparr>"
    by (rule fresh_sys_inv [OF initial_shared_inv [OF off assms(2,7,8)] _ ws]) (simp add: env assms(2))
  have inv: "shared_inv ?env (sys_shared sys)"
    using run_schedule_inv [OF inv0] by (simp add: sys sys_inv_def)
  obtain st0 where st0: "oa_files acc (fe_file_id e) = Some st0" "entry_checked blake3 config out ?cs e st0"
    using off assms(11) by (auto simp: offer_inv_def)
  obtain st where st: "rs_files (sys_shared sys) (fe_file_id e) = Some st" "same_file st0 st"
    using evolvesE [OF run_schedule_evolves [OF inv0, of sched, simplified], of "fe_file_id e" st0] st0(1)
    by (auto simp: sys initial_shared_def file_evolves_def)
  have "bitmap_is_complete (st_bitmap st)"
    using complete_files_Ok(4) [OF cf _ st(1)] assms(9,11) by simp
  then have m: "file_matches blake3 ?cs e (content (rs_fs (sys_shared sys)) (fpath st))"
    using complete_file_matches [OF st0(2) st(2) shared_inv_D(1) [OF inv st(1)] env(1)] assms(10,12)
    by (simp add: env)
  have "fpath st \<notin> sidecar_paths (rs_files (sys_shared sys)) (set order)"
    using shared_names(3,4) [OF inv st(1)] by (auto simp: sidecar_paths_def)
  then have "content fs' (fpath st) = content (rs_fs (sys_shared sys)) (fpath st)"
    unfolding fs' by (intro content_cong complete_files_Ok(5) [OF cf])
  moreover obtain safe where "sanitize_relative_path (fe_relative_path e) = Ok safe" "fpath st = path_join out safe"
    using st0(2) st(2) by (auto simp: entry_checked_def same_file_def)
  ultimately show ?thesis using m by auto
qed

text \<open>
  C5: a receiving session that reports success has, for every non-empty file of the offer, put on disk
  at the sanitized place a file of exactly the offered size whose root hash is the offered root,
  whatever the peer sent on the data streams, however the workers were scheduled and in whatever order
  the map of files was walked.  Assumed of the offer: distinct file ids and no offered path that is the
  sidecar or temporary of another; of the disk: records of earlier sessions are honest and writes do
  not fail.
\<close>

theorem received_files_match_offer:
  assumes "receive_run os blake3 enc dec config out fs cin cout next_stream order sched = Some (Ok n, fs', cout')"
    and "\<And>x. length (blake3 x) = 32"
    and "read_control dec cin = Ok (Hello h, cin1)" and "read_control dec cin1 = Ok (Offer offer, cin2)"
    and "accept_entries os blake3 config out (mo_chunk_size offer) (mo_files offer) (offer_start fs) = Accepted acc"
    and "distinct (map fe_file_id (mo_files offer))"
    and "sidecars_free (entry_dest out ` set (mo_files offer))"
    and "records_honest blake3 acc"
    and "set order = fe_file_id ` set (mo_files offer)"
    and "\<And>p off. \<not> os_fails os (WriteAt p off)"
    and "e \<in> set (mo_files offer)" and "fe_size_bytes e \<noteq> 0"
  shows "\<exists>safe. sanitize_relative_path (fe_relative_path e) = Ok safe
     \<and> file_matches blake3 (mo_chunk_size offer) e (content fs' (path_join out safe))"
  by (rule session_files_match [OF assms])

text \<open>A whole session on one three-byte file, as a concrete run.\<close>

definition zero_hash :: "bytes \<Rightarrow> hash" where
  "zero_hash = (\<lambda>_. replicate 32 0)"

definition sample_entry :: file_entry where
  "sample_entry = \<lparr>fe_file_id = 0, fe_relative_path = ''f'', fe_size_bytes = 3, fe_mime_type = [],
     fe_root_hash = replicate 32 0, fe_chunk_hashes = replicate 32 0,
     fe_modified_unix_ms = 0, fe_created_unix_ms = 0\<rparr>"

definition sample_hello :: hello where
  "sample_hello = \<lparr>he_protocol_version = 1, he_session_id = [], he_stream_count = 1\<rparr>"

definition sample_offer :: manifest_offer where
  "sample_offer = \<lparr>mo_chunk_size = MIN_CHUNK_SIZE, mo_files = [sample_entry]\<rparr>"

text \<open>A codec for the messages of this session.\<close>

definition sample_enc :: "control_message \<Rightarrow> bytes" where
  "sample_enc m = (case cm_body m of Some (Hello _) \<Rightarrow> [1] | Some (Offer _) \<Rightarrow> [2] | _ \<Rightarrow> [3])"

definition sample_dec :: "bytes \<Rightarrow> control_message option" where
  "sample_dec bs =
     (if bs = [1] then Some (control_message_new (Hello sample_hello))
      else if bs = [2] then Some (control_message_new (Offer sample_offer)) else None)"

definition sample_control :: in_stream where
  "sample_control = \<lparr>in_data = control_frame sample_enc (control_message_new (Hello sample_hello))
     @ control_frame sample_enc (control_message_new (Offer sample_offer)), in_broken = False\<rparr>"

definition sample_data :: in_stream where
  "sample_data = \<lparr>in_data = to_bytes (frame_new FileData 0 0 3) @ [1, 2, 3], in_broken = False\<rparr>"

definition sample_stream :: "nat \<Rightarrow> (in_stream, core_error) result" where
  "sample_stream = (\<lambda>_. Ok (sample_data\<lparr>in_data :=
     control_frame sample_enc (control_message_new (Hello sample_hello)) @ in_data sample_data\<rparr>))"

definition sample_out :: out_stream where
  "sample_out = \<lparr>out_data = [], out_open = True\<rparr>"

definition fresh_state :: file_state where
  "fresh_state = sample_state\<lparr>st_bitmap := bitmap_new 1,
     st_key := sample_key\<lparr>key_root_hash := replicate 32 0\<rparr>\<rparr>"

definition sample_acc :: offer_acc where
  "sample_acc = \<lparr>oa_files = [0 \<mapsto> fresh_state], oa_accepted = [0],
     oa_progress = [\<lparr>fp_file_id = 0, fp_have_bitmap = [0]\<rparr>], oa_seen = {''f''},
     oa_total = 3, oa_resumed = 0, oa_fs = [[''f''] \<mapsto> replicate 3 0]\<rparr>"

lemma sample_layout_new: "layout_new 3 MIN_CHUNK_SIZE = Ok sample_layout"
  unfolding sample_layout_def by code_simp

lemma sample_accepts:
  "accept_entries quiet_os zero_hash config_default [] MIN_CHUNK_SIZE [sample_entry] (offer_start Map.empty)
     = Accepted sample_acc"
proof -
  have s: "sanitize_relative_path ''f'' = Ok ''f''" by (simp add: sanitize_eval)
  have p: "path_join [] ''f'' = [''f'']" by (simp add: path_join_def path_components_def)
  have h: "split_hashes (replicate 32 0) 1 = Ok [replicate 32 0]"
    by (simp add: split_hashes_def chunks_unfold)
  have c: "sink_create quiet_os Map.empty [''f''] 3 MIN_CHUNK_SIZE =
      (Ok \<lparr>sk_path = [''f''], sk_layout = sample_layout\<rparr>, [[''f''] \<mapsto> replicate 3 0])"
    by (simp add: sink_create_def quiet_os_def preallocate_def reserve_blocks_def set_len_def
        sample_layout_new content_def resize_def)
  have l: "load quiet_os zero_hash [[''f''] \<mapsto> replicate 3 0] [''f''] key = None" for key
    using state_path_neq [of "[''f'']"] by (simp add: load_def read_file_def quiet_os_def)
  have m: "(3 :: u64) \<le> cfg_max_file_bytes config_default" "cfg_resume config_default"
    by (simp_all add: config_default_def)
  have k: "cl_count sample_layout = 1" by (simp add: sample_layout_def)
  have r: "root_from_chunk_hashes zero_hash hs = replicate 32 0" for hs
    by (simp add: root_eq zero_hash_def)
  have b: "bitmap_new 1 = \<lparr>bm_bits = [0], bm_count = 1, bm_set_count = 0\<rparr>" by code_simp
  show ?thesis
    using s p h c l m k r b
    by (simp add: accept_entry_def sample_entry_def offer_start_def Let_def sample_layout_new choose_bitmap_def
        file_exists_def sample_acc_def fresh_state_def sample_state_def sample_key_def not_less)
qed

lemma sample_codec:
  "read_control sample_dec sample_control = Ok (Hello sample_hello,
     \<lparr>in_data = control_frame sample_enc (control_message_new (Offer sample_offer)), in_broken = False\<rparr>)"
  "read_control sample_dec \<lparr>in_data = control_frame sample_enc (control_message_new (Offer sample_offer)),
     in_broken = False\<rparr> = Ok (Offer sample_offer, \<lparr>in_data = [], in_broken = False\<rparr>)"
  "open_streams sample_dec sample_stream [0] = Ok [Reading (stream_start sample_data)]"
  "out_open w \<Longrightarrow> write_control sample_enc w (control_message_new b) =
     Ok (w\<lparr>out_data := out_data w @ control_frame sample_enc (control_message_new b)\<rparr>)"
proof -
  have f: "fits_frame sample_enc m" for m
    by (auto simp: fits_frame_def sample_enc_def MAX_FRAME_nat split: option.splits body.splits)
  have h: "read_control sample_dec r = Ok (Hello sample_hello, r\<lparr>in_data := rest\<rparr>)"
    if "in_data r = control_frame sample_enc (control_message_new (Hello sample_hello)) @ rest" for r rest
    using that by (intro read_control_frame [OF f])
      (auto simp: sample_dec_def sample_enc_def control_message_new_def)
  have o: "read_control sample_dec r = Ok (Offer sample_offer, r\<lparr>in_data := rest\<rparr>)"
    if "in_data r = control_frame sample_enc (control_message_new (Offer sample_offer)) @ rest" for r rest
    using that by (intro read_control_frame [OF f])
      (auto simp: sample_dec_def sample_enc_def control_message_new_def)
  show "read_control sample_dec sample_control = Ok (Hello sample_hello,
     \<lparr>in_data = control_frame sample_enc (control_message_new (Offer sample_offer)), in_broken = False\<rparr>)"
    using h [of sample_control] by (simp add: sample_control_def)
  show "read_control sample_dec \<lparr>in_data = control_frame sample_enc (control_message_new (Offer sample_offer)),
     in_broken = False\<rparr> = Ok (Offer sample_offer, \<lparr>in_data = [], in_broken = False\<rparr>)"
    using o [of "\<lparr>in_data = control_frame sample_enc (control_message_new (Offer sample_offer)), in_broken = False\<rparr>" "[]"]
    by simp
  show "open_streams sample_dec sample_stream [0] = Ok [Reading (stream_start sample_data)]"
    using h [of "sample_data\<lparr>in_data := control_frame sample_enc (control_message_new (Hello sample_hello)) @ in_data sample_data\<rparr>"
        "in_data sample_data"]
    by (simp add: sample_stream_def)
  show "out_open w \<Longrightarrow> write_control sample_enc w (control_message_new b) =
     Ok (w\<lparr>out_data := out_data w @ control_frame sample_enc (control_message_new b)\<rparr>)"
    by (rule write_control_Ok [OF f])
qed

lemma sample_read:
  assumes "files 0 = Some st" and "st_layout st = sample_layout"
  shows "read_frame files (stream_start sample_data) =
     Whole (stream_start \<lparr>in_data = [], in_broken = False\<rparr>) (0, 0, 0, 3) [1, 2, 3]"
proof -
  let ?h = "frame_new FileData 0 0 3"
  have "wf_header ?h"
    by (simp add: wf_header_def frame_new_def FLAGS_NONE_def MAX_FRAME_PAYLOAD_def)
  then have d: "decode (to_bytes ?h) = Ok ?h" by (simp add: decode_accepts)
  have r: "read_exact sample_data HEADER_LEN = Ok (to_bytes ?h, \<lparr>in_data = [1, 2, 3], in_broken = False\<rparr>)"
    by (simp add: sample_data_def)
  have g: "index_of sample_layout 0 = Ok 0" "layout_range sample_layout 0 = Ok (0, 3)"
    by (simp_all add: index_of_def layout_range_def sample_layout_def MIN_CHUNK_SIZE_def)
  show ?thesis
    using assms d r g
    by (simp add: read_frame_def begin_chunk_def read_payload_def stream_start_def frame_new_def
        read_exact_def)
qed

abbreviation sample_session :: recv_env where
  "sample_session \<equiv> session_env quiet_os zero_hash config_default sample_acc"

definition received_shared :: recv_shared where
  "received_shared = \<lparr>rs_files = [0 \<mapsto> fresh_state\<lparr>st_bitmap := full_bitmap, st_since_checkpoint := 3\<rparr>],
     rs_fs = [[''f''] \<mapsto> [1, 2, 3]], rs_durable = [[''f''] \<mapsto> replicate 3 0], rs_counter = 3,
     rs_events = [Progress 3 3, FileCompleted 0 [''f'']]\<rparr>"

lemma sample_phase:
  "run_schedule sample_session (replicate 6 (Turn 0))
     \<lparr>sys_shared = initial_shared sample_acc, sys_workers = [Reading (stream_start sample_data)]\<rparr>
   = \<lparr>sys_shared = received_shared, sys_workers = [Done (Ok ())]\<rparr>"
proof -
  define ss where "ss = stream_start \<lparr>in_data = [], in_broken = False\<rparr>"
  define c :: current_chunk where "c = (0, 0, 0, 3)"
  define sh0 where "sh0 = initial_shared sample_acc"
  define sh1 where "sh1 = sh0\<lparr>rs_fs := [[''f''] \<mapsto> [1, 2, 3]]\<rparr>"
  define sh2 where "sh2 = set_file sh1 0 (fresh_state\<lparr>st_bitmap := full_bitmap\<rparr>)"
  define sh3 where "sh3 = sh2\<lparr>rs_counter := 3, rs_events := [Progress 3 3, FileCompleted 0 [''f'']]\<rparr>"
  have st: "st_layout fresh_state = sample_layout" "fpath fresh_state = [''f'']"
      "st_chunk_hashes fresh_state = [replicate 32 0]" "st_bitmap fresh_state = bitmap_new 1"
      "st_since_checkpoint fresh_state = 0"
    by (simp_all add: fresh_state_def sample_state_def)
  have sh0: "rs_files sh0 = [0 \<mapsto> fresh_state]" "rs_fs sh0 = [[''f''] \<mapsto> replicate 3 0]" "rs_counter sh0 = 0"
      "rs_events sh0 = []"
    by (simp_all add: sh0_def initial_shared_def sample_acc_def)
  have env: "re_os sample_session = quiet_os" "re_blake3 sample_session = zero_hash" "re_total sample_session = 3"
      "re_checkpoint sample_session = DEFAULT_CHECKPOINT_BYTES"
    by (simp_all add: session_env_def sample_acc_def config_default_def)
  have b: "bitmap_set (bitmap_new 1) 0 = Ok full_bitmap" "bitmap_is_complete full_bitmap"
    unfolding full_bitmap_def by code_simp+
  have e: "read_frame files ss = Closed" for files
    by (simp add: ss_def read_frame_def stream_start_def read_exact_def HEADER_LEN_def)
  have quiet: "\<not> os_fails quiet_os call" "zero_hash x = replicate 32 0" for call x
    by (simp_all add: quiet_os_def zero_hash_def)
  have s1: "worker_step sample_session (Reading (stream_start sample_data)) sh0 = (Verifying ss c [1, 2, 3], sh0)"
    using sample_read [of "rs_files sh0" fresh_state] st(1) by (simp add: worker_step_def do_read_def sh0 ss_def c_def)
  have s2: "worker_step sample_session (Verifying ss c [1, 2, 3]) sh0 = (Marking ss c, sh1)"
    using st(2,3) quiet
    by (simp add: worker_step_def chunk_file_def sh0 c_def do_verify_def verify_and_write_def Let_def env
        hash_chunk_def content_def write_at_def sh1_def)
  have s3: "worker_step sample_session (Marking ss c) sh1 = (Counting ss c True, sh2)"
    using b st(4) by (simp add: worker_step_def chunk_file_def sh0 sh1_def c_def do_mark_def sh2_def)
  have s4: "worker_step sample_session (Counting ss c True) sh2 = (Accounting ss c, sh3)"
    using st(2) by (simp add: worker_step_def chunk_file_def sh0 sh1_def c_def do_count_def sh2_def sh3_def env)
  have s5: "worker_step sample_session (Accounting ss c) sh3 = (Reading ss, received_shared)"
    using st(5)
    by (simp add: worker_step_def chunk_file_def sh0 sh1_def c_def do_account_def sh2_def sh3_def env
        DEFAULT_CHECKPOINT_BYTES_def received_shared_def)
      (simp add: sh0_def initial_shared_def sample_acc_def)
  have s6: "worker_step sample_session (Reading ss) received_shared = (Done (Ok ()), received_shared)"
    using e by (simp add: worker_step_def do_read_def ss_def stream_start_def)
  have six: "replicate 6 (Turn 0) = [Turn 0, Turn 0, Turn 0, Turn 0, Turn 0, Turn 0]"
    by (simp add: numeral_eq_Suc)
  show ?thesis
    unfolding six run_schedule_def sh0_def [symmetric] by (simp add: act_def s1 s2 s3 s4 s5 s6)
qed

lemma sample_receive:
  "\<exists>cout'. receive_run quiet_os zero_hash sample_enc sample_dec config_default [] Map.empty sample_control
     sample_out sample_stream [0] (replicate 6 (Turn 0)) = Some (Ok 3, [[''f''] \<mapsto> [1, 2, 3]], cout')"
proof -
  have hs: "check_hello config_default sample_hello = Ok 1"
    by (simp add: check_hello_def sample_hello_def config_default_def PROTOCOL_VERSION_def)
  obtain c1 where c1: "receive_handshake quiet_os zero_hash sample_enc sample_dec config_default [] Map.empty
      sample_control sample_out = (Ready 1 MIN_CHUNK_SIZE sample_acc, c1, oa_fs sample_acc)" "out_open c1"
    using sample_accepts sample_codec hs
    by (simp add: receive_handshake_def sample_offer_def sample_out_def)
  have b: "bitmap_is_complete full_bitmap" unfolding full_bitmap_def by code_simp
  have d: "discard quiet_os [[''f''] \<mapsto> [1, 2, 3]] [''f''] = [[''f''] \<mapsto> [1, 2, 3]]"
    using state_path_neq [of "[''f'']"] tmp_path_neq [of "[''f'']"]
    by (auto simp: discard_def remove_file_def quiet_os_def fun_eq_iff)
  obtain c2 sh where "finish_receive sample_session sample_enc [0] [Ok ()] received_shared c1 = (Ok 3, sh, c2)"
      "rs_fs sh = [[''f''] \<mapsto> [1, 2, 3]]"
    using b d sample_codec(4) [OF c1(2)]
    by (simp add: finish_receive_def received_shared_def fresh_state_def sample_state_def session_env_def
        sink_sync_def quiet_os_def)
  then show ?thesis
    using c1(1) sample_codec(3) sample_phase
    by (simp add: receive_run_def Let_def)
qed

lemma sample_disk:
  "sidecars_free (entry_dest [] ` {sample_entry})" "records_honest zero_hash sample_acc"
proof -
  have s: "sanitize_relative_path ''f'' = Ok ''f''" by (simp add: sanitize_eval)
  have p: "path_join [] ''f'' = [''f'']" by (simp add: path_join_def path_components_def)
  show "sidecars_free (entry_dest [] ` {sample_entry})"
    using state_path_neq [of "[''f'']"] tmp_path_neq [of "[''f'']"] s p
    by (auto simp: sidecars_free_def sample_entry_def entry_dest_def)
  show "records_honest zero_hash sample_acc"
    using state_path_neq [of "[''f'']"]
    by (auto simp: records_honest_def sample_acc_def fresh_state_def sample_state_def split: if_splits)
qed

theorem received_files_match_offer_witness:
  "file_matches zero_hash MIN_CHUNK_SIZE sample_entry [1, 2, 3]"
proof -
  obtain cout' where run: "receive_run quiet_os zero_hash sample_enc sample_dec config_default [] Map.empty
      sample_control sample_out sample_stream [0] (replicate 6 (Turn 0)) = Some (Ok 3, [[''f''] \<mapsto> [1, 2, 3]], cout')"
    using sample_receive by blast
  have s: "sanitize_relative_path ''f'' = Ok ''f''" by (simp add: sanitize_eval)
  have p: "path_join [] ''f'' = [''f'']" by (simp add: path_join_def path_components_def)
  have "\<exists>safe. sanitize_relative_path (fe_relative_path sample_entry) = Ok safe
     \<and> file_matches zero_hash (mo_chunk_size sample_offer) sample_entry (content [[''f''] \<mapsto> [1, 2, 3]] (path_join [] safe))"
  proof (rule received_files_match_offer [OF run _ sample_codec(1,2)])
    show "accept_entries quiet_os zero_hash config_default [] (mo_chunk_size sample_offer) (mo_files sample_offer)
        (offer_start Map.empty) = Accepted sample_acc"
      using sample_accepts by (simp add: sample_offer_def)
    show "sidecars_free (entry_dest [] ` set (mo_files sample_offer))"
      using sample_disk(1) by (simp add: sample_offer_def)
    show "records_honest zero_hash sample_acc" by (rule sample_disk(2))
  qed (simp_all add: zero_hash_def quiet_os_def sample_offer_def sample_entry_def)
  with s p show ?thesis
    by (auto simp: sample_offer_def sample_entry_def content_def)
qed

text \<open>
  C36: an offer that is accepted has passed every check on every file: the path is sanitized, and its
  destination is a strict descendant of the output directory; the chunk size is valid; the size is within
  the limit; there is one 32-byte hash per chunk; the root is the root of those hashes; and no two
  entries resolve to the same path.
\<close>

theorem offer_checks_every_file:
  assumes "\<And>x. length (blake3 x) = 32"
    and "accept_entries os blake3 config out cs es (offer_start fs) = Accepted acc" and "e \<in> set es"
  shows "\<exists>safe l hs comps. sanitize_relative_path (fe_relative_path e) = Ok safe
     \<and> path_join out safe = out @ comps \<and> comps \<noteq> [] \<and> ''..'' \<notin> set comps
     \<and> layout_new (fe_size_bytes e) cs = Ok l \<and> fe_size_bytes e \<le> cfg_max_file_bytes config
     \<and> length hs = ccount l \<and> (\<forall>h \<in> set hs. length h = 32) \<and> concat hs = fe_chunk_hashes e
     \<and> fe_root_hash e = root_from_chunk_hashes blake3 hs
     \<and> distinct (map (\<lambda>e. sanitize_relative_path (fe_relative_path e)) es)"
proof -
  obtain st safe where st: "entry_checked blake3 config out cs e st"
      "sanitize_relative_path (fe_relative_path e) = Ok safe"
      "distinct (map (\<lambda>e. sanitize_relative_path (fe_relative_path e)) es)"
    using offer_all_checked [OF assms(1,2)] assms(3) by blast
  have l: "layout_ok (st_layout st)" by (rule entry_checked_static(1) [OF st(1) assms(1)])
  have sp: "split_hashes (fe_chunk_hashes e) (cl_count (st_layout st)) = Ok (st_chunk_hashes st)"
    using st(1) by (simp add: entry_checked_def)
  show ?thesis
    using st split_hashes_Ok [OF l sp] path_join_sanitized [OF st(2), of out]
    by (intro exI [of _ safe] exI [of _ "st_layout st"] exI [of _ "st_chunk_hashes st"]
        exI [of _ "path_components (fe_relative_path e)"])
      (auto simp: entry_checked_def sanitize_Ok safe_component_def)
qed

theorem offer_checks_every_file_witness:
  "\<exists>l. layout_new (fe_size_bytes sample_entry) MIN_CHUNK_SIZE = Ok l"
  using offer_checks_every_file [OF _ sample_accepts, of sample_entry] by (auto simp: zero_hash_def)

lemma check_hello_exact:
  "check_hello config h = Ok k \<longleftrightarrow>
     he_protocol_version h = 1 \<and> k = he_stream_count h \<and> 1 \<le> unat k \<and> unat k \<le> unat (cfg_max_streams config)"
proof -
  have "unat (ucast (cfg_max_streams config) :: u32) = unat (cfg_max_streams config)"
    by (simp add: unsigned_ucast_eq take_bit_nat_eq_self order_less_trans [OF unat_less_exp])
  moreover have "(he_stream_count h = 0) = (unat (he_stream_count h) = 0)"
    by (simp add: unat_eq_zero)
  ultimately show ?thesis
    by (auto simp: check_hello_def PROTOCOL_VERSION_def word_less_nat_alt not_less)
qed

text \<open>
  The Hello of a peer is accepted exactly when it speaks this protocol version and asks for at least
  one and at most the configured number of streams, so that a peer cannot make the receiver wait for
  more connections than that.
\<close>

theorem hello_bounds_streams:
  "check_hello config h = Ok k \<longleftrightarrow>
     he_protocol_version h = 1 \<and> k = he_stream_count h \<and> 1 \<le> unat k \<and> unat k \<le> unat (cfg_max_streams config)"
  by (rule check_hello_exact)

text \<open>
  C37: completing a session removes the sidecar and the temporary of every file in it.  A received file
  that carries such a name, as \<open>f.tmp\<close> beside \<open>f\<close>, is therefore gone from the disk although the session
  goes on to report success.
\<close>

theorem completion_removes_sidecar_names:
  assumes "complete_files env enc order sh cout = (Ok (), sh', cout')"
    and "f \<in> set order" and "rs_files sh f = Some st"
    and "rs_files sh g = Some st'" and "fpath st' \<in> {state_path (fpath st), tmp_path (fpath st)}"
    and "\<not> os_fails (re_os env) (RemoveFile (fpath st'))"
  shows "rs_fs sh' (fpath st') = None"
  by (rule complete_files_removed(2) [OF assms(1,2,3,5,6)])

definition clash_shared :: recv_shared where
  "clash_shared = \<lparr>
     rs_files = [0 \<mapsto> sample_state,
       1 \<mapsto> sample_state\<lparr>st_sink := \<lparr>sk_path = [''f.tmp''], sk_layout = sample_layout\<rparr>\<rparr>],
     rs_fs = [[''f''] \<mapsto> [1, 2, 3], [''f.tmp''] \<mapsto> [1, 2, 3]], rs_durable = Map.empty,
     rs_counter = 6, rs_events = []\<rparr>"

theorem completion_removes_sidecar_names_witness:
  "\<exists>sh'. complete_files sample_env sample_enc [1, 0] clash_shared sample_out = (Ok (), sh', sample_out)
     \<and> rs_fs sh' [''f.tmp''] = None"
proof -
  have b: "bitmap_is_complete full_bitmap" unfolding full_bitmap_def by code_simp
  obtain sh' where c: "complete_files sample_env sample_enc [1, 0] clash_shared sample_out = (Ok (), sh', sample_out)"
    using b by (simp add: clash_shared_def sample_state_def sink_sync_def sample_env_def quiet_os_def)
  have t: "tmp_path [''f''] = [''f.tmp'']" unfolding tmp_path_eq by simp
  have "rs_fs sh' [''f.tmp''] = None"
    using completion_removes_sidecar_names [OF c, of 0 sample_state 1
        "sample_state\<lparr>st_sink := \<lparr>sk_path = [''f.tmp''], sk_layout = sample_layout\<rparr>\<rparr>"] t
    by (simp add: clash_shared_def sample_state_def sample_env_def quiet_os_def)
  with c show ?thesis by blast
qed

end
