(* ===== verification/Restart.thy ===== *)
theory Restart
  imports Reception
begin

text \<open>
  Interrupted sessions and their resumption.  The disk that a power failure leaves behind is the disk
  the next session of \<open>recv.rs\<close> starts from, with the sidecars of \<open>resume.rs\<close> on it.  The lemmas
  show that the records found there are honest, so that the guarantee for a session that reports success
  holds after any number of failures at arbitrary moments.
\<close>

section \<open>What accepting an offer does to the disk\<close>

lemma accept_entry_disk:
  assumes "accept_entry os blake3 config out cs e acc = Accepted acc'"
  shows "oa_fs acc' = (oa_fs acc)(entry_dest out e \<mapsto>
    (if fe_size_bytes e = 0 then content (oa_fs acc) (entry_dest out e)
     else resize (unat (fe_size_bytes e)) (content (oa_fs acc) (entry_dest out e))))"
proof -
  obtain safe sink fs1 where safe: "sanitize_relative_path (fe_relative_path e) = Ok safe"
    and sink: "sink_create os (oa_fs acc) (path_join out safe) (fe_size_bytes e) cs = (Ok sink, fs1)"
    and fs1: "oa_fs acc' = fs1"
    using assms by (auto simp: accept_entry_def Let_def split: result.splits if_splits option.splits prod.splits)
  with sink_create_Ok(3) [OF sink] show ?thesis by (simp add: entry_dest_def)
qed

lemma accept_entries_frame:
  "accept_entries os blake3 config out cs es acc = Accepted acc' \<Longrightarrow> q \<notin> entry_dest out ` set es \<Longrightarrow>
     oa_fs acc' q = oa_fs acc q"
proof (induction es arbitrary: acc)
  case (Cons e es)
  obtain acc1 where a: "accept_entry os blake3 config out cs e acc = Accepted acc1"
      "accept_entries os blake3 config out cs es acc1 = Accepted acc'"
    using Cons.prems(1) by (auto split: entry_outcome.splits)
  with Cons.IH [OF a(2)] Cons.prems(2) accept_entry_disk [OF a(1)] show ?case by simp
qed simp

text \<open>A staging file that already has its length is left as it is.\<close>

lemma accept_entries_keeps:
  "accept_entries os blake3 config out cs es acc = Accepted acc' \<Longrightarrow> oa_fs acc p = Some c \<Longrightarrow>
     (\<forall>e \<in> set es. entry_dest out e = p \<longrightarrow> length c = unat (fe_size_bytes e)) \<Longrightarrow> oa_fs acc' p = Some c"
proof (induction es arbitrary: acc)
  case (Cons e es)
  obtain acc1 where a: "accept_entry os blake3 config out cs e acc = Accepted acc1"
      "accept_entries os blake3 config out cs es acc1 = Accepted acc'"
    using Cons.prems(1) by (auto split: entry_outcome.splits)
  have "oa_fs acc1 p = Some c"
    using accept_entry_disk [OF a(1)] Cons.prems(2,3) by (auto simp: content_def resize_id)
  with Cons.IH [OF a(2)] Cons.prems(3) show ?case by simp
qed simp

section \<open>Power failures\<close>

text \<open>
  The sessions of one offer: the hash, the directory, the chunk size and the entries stay, everything
  else may change from one session to the next.
\<close>

definition no_sidecars :: "path \<Rightarrow> file_entry list \<Rightarrow> fs \<Rightarrow> bool" where
  "no_sidecars out es disk \<longleftrightarrow> (\<forall>e \<in> set es. disk (state_path (entry_dest out e)) = None)"

inductive left_by_crashes :: "(bytes \<Rightarrow> hash) \<Rightarrow> path \<Rightarrow> u32 \<Rightarrow> file_entry list \<Rightarrow> fs \<Rightarrow> bool"
  for blake3 out cs es where
  fresh: "no_sidecars out es disk \<Longrightarrow> left_by_crashes blake3 out cs es disk"
| crash: "left_by_crashes blake3 out cs es disk \<Longrightarrow>
     accept_entries os blake3 config out cs es (offer_start disk) = Accepted acc \<Longrightarrow>
     open_streams dec next_stream ks = Ok ws \<Longrightarrow> (\<forall>p off. \<not> os_fails os (WriteAt p off)) \<Longrightarrow>
     left_by_crashes blake3 out cs es (rs_durable (sys_shared (run_schedule (session_env os blake3 config acc) as
       \<lparr>sys_shared = initial_shared acc, sys_workers = ws\<rparr>)))"

text \<open>A disk is honest for an offer if whoever accepts the offer on it finds honest records.\<close>

definition disk_honest :: "(bytes \<Rightarrow> hash) \<Rightarrow> path \<Rightarrow> u32 \<Rightarrow> file_entry list \<Rightarrow> fs \<Rightarrow> bool" where
  "disk_honest blake3 out cs es disk \<longleftrightarrow>
     (\<forall>os config acc. accept_entries os blake3 config out cs es (offer_start disk) = Accepted acc \<longrightarrow>
        records_honest blake3 acc)"

lemma no_sidecars_honest:
  assumes "\<And>x. length (blake3 x) = 32" and "distinct (map fe_file_id es)"
    and "sidecars_free (entry_dest out ` set es)" and "no_sidecars out es disk"
  shows "disk_honest blake3 out cs es disk"
  unfolding disk_honest_def
proof (intro allI impI)
  fix os config acc
  assume acc: "accept_entries os blake3 config out cs es (offer_start disk) = Accepted acc"
  note off = offer_accepted [OF assms(1) acc assms(2,3)]
  have "oa_fs acc (state_path (fpath st)) = None" if f: "oa_files acc f = Some st" for f st
  proof -
    obtain e where e: "e \<in> set es" "entry_checked blake3 config out cs e st"
      using offer_inv_entry [OF off f] .
    have "state_path (fpath st) \<notin> entry_dest out ` set es"
      using assms(3) e unfolding sidecars_free_def entry_checked_dest [OF e(2)] by fastforce
    with accept_entries_frame [OF acc] assms(4) e show ?thesis
      by (simp add: offer_start_def no_sidecars_def entry_checked_dest [OF e(2)])
  qed
  then show "records_honest blake3 acc" by (auto simp: records_honest_def)
qed

text \<open>Two states of the same entry differ only in what the sessions did with them.\<close>

lemma entry_checked_same:
  assumes "entry_checked blake3 config out cs e st" and "entry_checked blake3 config' out cs e st'"
  shows "same_file st st'"
proof -
  have "st_layout st' = st_layout st" "fpath st' = fpath st"
    using assms entry_checked_dest [OF assms(1)] entry_checked_dest [OF assms(2)] by (auto simp: entry_checked_def)
  moreover from this have "st_sink st' = st_sink st"
    using assms by (intro sink_file.equality) (simp_all add: entry_checked_def)
  ultimately show ?thesis using assms by (simp add: entry_checked_def same_file_def)
qed

text \<open>Accepting the same offer again keeps the bytes of a file that already has its offered size.\<close>

lemma reaccept_keeps:
  assumes acc: "accept_entries os blake3 config out cs es (offer_start disk) = Accepted acc"
    and off: "offer_inv blake3 config' out cs es acc'" and e: "e \<in> set es"
    and c: "disk (entry_dest out e) = Some c" "length c = unat (fe_size_bytes e)"
  shows "content (oa_fs acc) (entry_dest out e) = content disk (entry_dest out e)"
proof -
  have "length c = unat (fe_size_bytes e')" if e': "e' \<in> set es" "entry_dest out e' = entry_dest out e" for e'
  proof -
    have "inj_on (entry_dest out) (set es)" using off by (simp add: offer_inv_def distinct_map)
    with e' e c(2) show ?thesis by (auto dest: inj_onD)
  qed
  with accept_entries_keeps [OF acc, of "entry_dest out e" c] c(1) show ?thesis
    by (simp add: offer_start_def content_def)
qed

lemma entry_checked_size:
  "entry_checked blake3 config out cs e st \<Longrightarrow> cl_file_size (st_layout st) = fe_size_bytes e"
  using layout_new_ok by (auto simp: entry_checked_def)

lemma crash_honest:
  assumes hash: "\<And>x. length (blake3 x) = 32" and ids: "distinct (map fe_file_id es)"
    and free: "sidecars_free (entry_dest out ` set es)"
    and honest: "disk_honest blake3 out cs es disk"
    and acc: "accept_entries os blake3 config out cs es (offer_start disk) = Accepted acc"
    and ws: "open_streams dec next_stream ks = Ok ws" and writes: "\<forall>p off. \<not> os_fails os (WriteAt p off)"
    and sh: "sh = sys_shared (run_schedule (session_env os blake3 config acc) as
       \<lparr>sys_shared = initial_shared acc, sys_workers = ws\<rparr>)"
  shows "disk_honest blake3 out cs es (rs_durable sh)"
  unfolding disk_honest_def
proof (intro allI impI)
  fix os' config' acc'
  assume acc': "accept_entries os' blake3 config' out cs es (offer_start (rs_durable sh)) = Accepted acc'"
  let ?env = "session_env os blake3 config acc" and ?D = "rs_durable sh"
  have env: "re_blake3 ?env = blake3" "re_os ?env = os" by (simp_all add: session_env_def)
  note off = offer_accepted [OF hash acc ids free] and off' = offer_accepted [OF hash acc' ids free]
  have "records_honest blake3 acc" using honest acc by (simp add: disk_honest_def)
  then have inv0: "sys_inv ?env \<lparr>sys_shared = initial_shared acc, sys_workers = ws\<rparr>"
    by (intro fresh_sys_inv [OF initial_shared_inv [OF off hash free] _ ws]) (simp_all add: env hash)
  have "backed blake3 (oa_fs acc') (st'\<lparr>st_bitmap := b\<rparr>)"
    if f: "oa_files acc' f = Some st'" and b: "bitmap_ok b"
      "oa_fs acc' (state_path (fpath st')) = Some (state_record blake3 (st_key st') b)" for f st' b
  proof -
    obtain e where e: "e \<in> set es" "fe_file_id e = f" "entry_checked blake3 config' out cs e st'"
      using offer_inv_entry [OF off' f] .
    note p = entry_checked_dest [OF e(3)]
    obtain st0 where st0: "oa_files acc f = Some st0" "entry_checked blake3 config out cs e st0"
      using off e(1,2) by (auto simp: offer_inv_def)
    obtain st where st: "rs_files sh f = Some st" "same_file st0 st"
      using evolvesE [OF run_schedule_evolves [OF inv0, of as, simplified], of f st0] st0(1)
      by (auto simp: sh initial_shared_def file_evolves_def)
    have "same_file st st'" using st(2) entry_checked_same [OF st0(2) e(3)] by (simp add: same_file_def)
    then have eq: "fpath st' = fpath st" "st_key st' = st_key st" "st_layout st' = st_layout st"
        "st_chunk_hashes st' = st_chunk_hashes st" by (simp_all add: same_file_def)
    have inv: "file_inv ?env sh st"
      using sys_inv_D(1) [OF run_schedule_inv [OF inv0], of as f st] st(1) by (simp add: sh)
    have "state_path (fpath st') \<notin> entry_dest out ` set es"
      using free e(1) unfolding sidecars_free_def p by fastforce
    then have "?D (state_path (fpath st)) = Some (state_record blake3 (st_key st) b)"
      using accept_entries_frame [OF acc'] b(2) by (simp add: offer_start_def eq)
    then have claim: "bitmap_for st b" "covers ?env st (content ?D (fpath st)) b"
      using inv b(1) by (auto simp: file_inv_def claim_ok_def env)
    have "content (oa_fs acc') (fpath st) = content ?D (fpath st)" if n: "ccount (st_layout st) \<noteq> 0"
    proof -
      obtain c where "?D (fpath st) = Some c" "length c = fsize (st_layout st)"
        using inv n by (auto simp: file_inv_def space_ok_def file_fits_def content_def)
      with reaccept_keeps [OF acc' off e(1), of c] entry_checked_size [OF e(3)] p show ?thesis by (simp add: eq)
    qed
    then show ?thesis
      using claim covers_hash [OF claim(2)] writes
      by (cases "ccount (st_layout st) = 0") (auto simp: backed_def bitmap_for_def eq env)
  qed
  then show "records_honest blake3 acc'" by (auto simp: records_honest_def)
qed

lemma left_by_crashes_honest:
  assumes "left_by_crashes blake3 out cs es disk" and "\<And>x. length (blake3 x) = 32"
    and "distinct (map fe_file_id es)" and "sidecars_free (entry_dest out ` set es)"
  shows "disk_honest blake3 out cs es disk"
  using assms(1)
proof (induction rule: left_by_crashes.induct)
  case (fresh disk)
  then show ?case by (rule no_sidecars_honest [OF assms(2-4)])
next
  case (crash disk os config acc dec next_stream ks ws as)
  show ?case by (rule crash_honest [OF assms(2-4) crash.IH crash.hyps(2-4) refl])
qed

section \<open>Properties\<close>

text \<open>
  C3: a transfer survives any number of power failures.  Start from a disk without records for the
  offered files; let sessions for the offer run and lose power, each at an arbitrary moment of its data
  phase, in the middle of a checkpoint included.  A session that then reports success has put a file
  with the offered size and root hash in the place of every non-empty file of the offer, although it
  takes over the chunks the records claim without reading them.  Assumed as before: distinct ids, no
  offered path that is a sidecar of another, and writes that do not fail.
\<close>

theorem resume_after_crashes:
  assumes "left_by_crashes blake3 out (mo_chunk_size offer) (mo_files offer) disk"
    and "receive_run os blake3 enc dec config out disk cin cout next_stream order sched = Some (Ok n, fs', cout')"
    and "\<And>x. length (blake3 x) = 32"
    and "read_control dec cin = Ok (Hello h, cin1)" and "read_control dec cin1 = Ok (Offer offer, cin2)"
    and "distinct (map fe_file_id (mo_files offer))"
    and "sidecars_free (entry_dest out ` set (mo_files offer))"
    and "set order = fe_file_id ` set (mo_files offer)"
    and "\<And>p off. \<not> os_fails os (WriteAt p off)"
    and "e \<in> set (mo_files offer)" and "fe_size_bytes e \<noteq> 0"
  shows "\<exists>safe. sanitize_relative_path (fe_relative_path e) = Ok safe
     \<and> file_matches blake3 (mo_chunk_size offer) e (content fs' (path_join out safe))"
proof -
  obtain h' cin1' offer' cin2' acc where r: "read_control dec cin = Ok (Hello h', cin1')"
      "read_control dec cin1' = Ok (Offer offer', cin2')"
    and acc: "accept_entries os blake3 config out (mo_chunk_size offer') (mo_files offer') (offer_start disk) = Accepted acc"
    by (rule receive_run_Ok [OF assms(2)])
  have "offer' = offer" using r assms(4,5) by simp
  with acc have acc: "accept_entries os blake3 config out (mo_chunk_size offer) (mo_files offer) (offer_start disk) = Accepted acc"
    by simp
  then have "records_honest blake3 acc"
    using left_by_crashes_honest [OF assms(1,3,6,7)] by (simp add: disk_honest_def)
  from session_files_match [OF assms(2-5) acc assms(6,7) this assms(8-11)] show ?thesis .
qed

text \<open>The sample session loses power before its first frame; the next one takes nothing over and succeeds.\<close>

abbreviation second_config :: config where
  "second_config \<equiv> config_default\<lparr>cfg_resume := False\<rparr>"

lemma sample_crash: "left_by_crashes zero_hash [] MIN_CHUNK_SIZE [sample_entry] (oa_fs sample_acc)"
proof -
  have "left_by_crashes zero_hash [] MIN_CHUNK_SIZE [sample_entry] Map.empty"
    by (rule fresh) (simp add: no_sidecars_def)
  from crash [OF this sample_accepts sample_codec(3), of "[]"]
  show ?thesis by (simp add: run_schedule_def initial_shared_def quiet_os_def)
qed

lemma second_accepts:
  "accept_entries quiet_os zero_hash second_config [] MIN_CHUNK_SIZE [sample_entry] (offer_start (oa_fs sample_acc))
     = Accepted sample_acc"
proof -
  have s: "sanitize_relative_path ''f'' = Ok ''f''" by (simp add: sanitize_eval)
  have p: "path_join [] ''f'' = [''f'']" by (simp add: path_join_def path_components_def)
  have h: "split_hashes (replicate 32 0) 1 = Ok [replicate 32 0]"
    by (simp add: split_hashes_def chunks_unfold)
  have c: "sink_create quiet_os [[''f''] \<mapsto> replicate 3 0] [''f''] 3 MIN_CHUNK_SIZE =
      (Ok \<lparr>sk_path = [''f''], sk_layout = sample_layout\<rparr>, [[''f''] \<mapsto> replicate 3 0])"
    by (simp add: sink_create_def quiet_os_def preallocate_def reserve_blocks_def set_len_def
        sample_layout_new content_def resize_def)
  have m: "(3 :: u64) \<le> cfg_max_file_bytes config_default" by (simp add: config_default_def)
  have k: "cl_count sample_layout = 1" by (simp add: sample_layout_def)
  have r: "root_from_chunk_hashes zero_hash hs = replicate 32 0" for hs
    by (simp add: root_eq zero_hash_def)
  have b: "bitmap_new 1 = \<lparr>bm_bits = [0], bm_count = 1, bm_set_count = 0\<rparr>" by code_simp
  show ?thesis
    using s p h c m k r b
    by (simp add: accept_entry_def sample_entry_def offer_start_def Let_def sample_layout_new choose_bitmap_def
        file_exists_def sample_acc_def fresh_state_def sample_state_def sample_key_def not_less)
qed

lemma second_run:
  "receive_run quiet_os zero_hash sample_enc sample_dec second_config [] (oa_fs sample_acc) sample_control
     sample_out sample_stream [0] (replicate 6 (Turn 0)) =
   receive_run quiet_os zero_hash sample_enc sample_dec config_default [] Map.empty sample_control
     sample_out sample_stream [0] (replicate 6 (Turn 0))"
proof -
  have hs: "check_hello config_default sample_hello = Ok 1" "check_hello second_config sample_hello = Ok 1"
    by (simp_all add: check_hello_def sample_hello_def config_default_def PROTOCOL_VERSION_def)
  have "receive_handshake quiet_os zero_hash sample_enc sample_dec second_config [] (oa_fs sample_acc) sample_control sample_out =
      receive_handshake quiet_os zero_hash sample_enc sample_dec config_default [] Map.empty sample_control sample_out"
    using second_accepts sample_accepts sample_codec(1,2) hs
    by (simp add: receive_handshake_def sample_offer_def)
  moreover have "session_env quiet_os zero_hash second_config = session_env quiet_os zero_hash config_default"
    by (rule ext) (simp add: session_env_def)
  ultimately show ?thesis by (simp only: receive_run_def)
qed

theorem resume_after_crashes_witness:
  "left_by_crashes zero_hash [] MIN_CHUNK_SIZE [sample_entry] [[''f''] \<mapsto> replicate 3 0]
     \<and> file_matches zero_hash MIN_CHUNK_SIZE sample_entry [1, 2, 3]"
proof -
  obtain cout' where run: "receive_run quiet_os zero_hash sample_enc sample_dec second_config [] (oa_fs sample_acc)
      sample_control sample_out sample_stream [0] (replicate 6 (Turn 0)) = Some (Ok 3, [[''f''] \<mapsto> [1, 2, 3]], cout')"
    using sample_receive second_run by auto
  have s: "sanitize_relative_path ''f'' = Ok ''f''" by (simp add: sanitize_eval)
  have p: "path_join [] ''f'' = [''f'']" by (simp add: path_join_def path_components_def)
  have "\<exists>safe. sanitize_relative_path (fe_relative_path sample_entry) = Ok safe
     \<and> file_matches zero_hash (mo_chunk_size sample_offer) sample_entry (content [[''f''] \<mapsto> [1, 2, 3]] (path_join [] safe))"
  proof (rule resume_after_crashes [OF _ run _ sample_codec(1,2)])
    show "left_by_crashes zero_hash [] (mo_chunk_size sample_offer) (mo_files sample_offer) (oa_fs sample_acc)"
      using sample_crash by (simp add: sample_offer_def)
    show "sidecars_free (entry_dest [] ` set (mo_files sample_offer))"
      using sample_disk(1) by (simp add: sample_offer_def)
  qed (simp_all add: zero_hash_def quiet_os_def sample_offer_def sample_entry_def)
  with s p sample_crash show ?thesis
    by (auto simp: sample_offer_def sample_entry_def content_def sample_acc_def)
qed

end
