(* ===== verification/Exchange.thy ===== *)
theory Exchange
  imports Reception Sender
begin

text \<open>
  The two ends together.  The streams a sender fills are drained by the workers of a receiver.  The
  lemmas show that every frame the sender writes is accepted, that every chunk arrives whole at its
  place whatever the two schedules are, and, over whole sessions, that the receiver ends with the files
  of the sender and the sender learns of it.
\<close>

section \<open>Reading what the sender wrote\<close>

definition item_chunk :: "send_env \<Rightarrow> work_item \<Rightarrow> current_chunk" where
  "item_chunk env item =
     (of_nat (wi_file_index item), wi_chunk_index item, item_offset env item, of_nat (length (item_payload env item)))"

text \<open>The receiver's files are the sender's sources: same geometry, and the hashes of the source's chunks.\<close>

definition paired :: "send_env \<Rightarrow> (bytes \<Rightarrow> hash) \<Rightarrow> (u64 \<rightharpoonup> file_state) \<Rightarrow> bool" where
  "paired env blake3 files \<longleftrightarrow>
     0 < sv_frame_size env \<and> sv_frame_size env \<le> MAX_FRAME_PAYLOAD \<and> length (sv_sources env) \<le> 2 ^ 64
     \<and> (\<forall>f < length (sv_sources env). \<exists>st. files (of_nat f) = Some st
          \<and> st_layout st = sf_layout (sv_sources env ! f)
          \<and> st_chunk_hashes st = map (blake3 \<circ> chunk_of (sf_layout (sv_sources env ! f)) (sf_map (sv_sources env ! f)))
              [0..<ccount (sf_layout (sv_sources env ! f))])"

lemma chunks_full_before:
  assumes "0 < k" and "chunks k xs = pre @ p # ps"
  shows "length (concat pre) = length pre * k"
  using assms(2)
proof (induction pre arbitrary: xs)
  case (Cons a pre)
  then have "xs \<noteq> []" by auto
  with Cons.prems have a: "a = take k xs" "chunks k (drop k xs) = pre @ p # ps"
    using chunks_unfold [OF assms(1), of xs] by auto
  then have "drop k xs \<noteq> []" by auto
  then have "length a = k" using a(1) by simp
  with Cons.IH [OF a(2)] show ?case by simp
qed simp

lemma item_parts_lengths:
  assumes "0 < sv_frame_size env" and "item_parts env item = pre @ p # ps"
  shows "length (concat pre) = length pre * unat (sv_frame_size env)"
    "p \<noteq> []" "length p \<le> unat (sv_frame_size env)"
    "concat pre @ p @ concat ps = item_payload env item" "ps \<noteq> [] \<Longrightarrow> concat ps \<noteq> []"
proof -
  have k: "0 < unat (sv_frame_size env)" using assms(1) by (simp add: word_less_nat_alt)
  show "length (concat pre) = length pre * unat (sv_frame_size env)"
    using chunks_full_before [OF k] assms(2) by (simp add: item_parts_def)
  have m: "x \<noteq> [] \<and> length x \<le> unat (sv_frame_size env)" if "x \<in> set (item_parts env item)" for x
    using that chunks_nonempty by (simp add: item_parts_def)
  then show "p \<noteq> []" "length p \<le> unat (sv_frame_size env)" using assms(2) by auto
  show "concat pre @ p @ concat ps = item_payload env item"
    using concat_chunks [OF k, of "item_payload env item"] assms(2) by (simp add: item_parts_def)
  show "ps \<noteq> [] \<Longrightarrow> concat ps \<noteq> []" using m assms(2) by (cases ps) auto
qed

lemma item_parts_nonempty:
  assumes "item_ok env item" and "0 < sv_frame_size env"
  shows "item_parts env item \<noteq> []"
proof -
  have "0 < length (item_payload env item)"
    using assms(1) chunk_len_bounds(1)
    by (auto simp: item_ok_def item_payload_def source_ok_def length_chunk_of)
  then have "item_payload env item \<noteq> []" by auto
  with assms(2) show ?thesis
    by (simp add: item_parts_def chunks_unfold word_less_nat_alt)
qed

lemma item_range:
  assumes "item_ok env item"
  shows "layout_range (sf_layout (item_source env item)) (wi_chunk_index item) =
      Ok (item_offset env item, of_nat (length (item_payload env item)))"
    "unat (of_nat (length (item_payload env item)) :: u32) = length (item_payload env item)"
    "unat (item_offset env item) = chunk_start (sf_layout (item_source env item)) (unat (wi_chunk_index item))"
    "index_of (sf_layout (item_source env item)) (item_offset env item) = Ok (wi_chunk_index item)"
proof -
  let ?l = "sf_layout (item_source env item)" and ?i = "wi_chunk_index item"
  obtain len where len: "layout_range ?l ?i = Ok (item_offset env item, len)" "unat len = length (item_payload env item)"
    using item_start [OF assms] by blast
  have "of_nat (length (item_payload env item)) = len" using len(2) by (metis of_nat_unat ucast_id)
  with len show "layout_range ?l ?i = Ok (item_offset env item, of_nat (length (item_payload env item)))"
    "unat (of_nat (length (item_payload env item)) :: u32) = length (item_payload env item)" by auto
  have ok: "layout_ok ?l" "unat ?i < ccount ?l" using assms by (auto simp: item_ok_def source_ok_def)
  show off: "unat (item_offset env item) = chunk_start ?l (unat ?i)"
    using len(1) layout_range_Ok [OF ok(1)] by blast
  show "index_of ?l (item_offset env item) = Ok ?i"
    using ok chunk_len_bounds [OF ok] by (simp add: index_of_Ok off)
qed

lemma data_header_ok:
  assumes "0 < sv_frame_size env" and "sv_frame_size env \<le> MAX_FRAME_PAYLOAD" and "item_parts env item = pre @ p # ps"
  defines "h \<equiv> data_header env item (item_offset env item) (length pre) p"
  shows "decode (to_bytes h) = Ok h" "fh_msg_type h = FileData" "fh_file_id h = of_nat (wi_file_index item)"
    "fh_offset h = item_offset env item + of_nat (length (concat pre))" "unat (fh_length h) = length p"
proof -
  note len = item_parts_lengths [OF assms(1,3)]
  have b: "length p \<le> unat MAX_FRAME_PAYLOAD" using len(3) assms(2) by (simp add: word_le_nat_alt)
  then have u: "unat (of_nat (length p) :: u32) = length p"
    by (intro unat_of_nat_u32) (simp add: MAX_FRAME_nat)
  show "unat (fh_length h) = length p" by (simp add: h_def data_header_def frame_new_def u)
  have "wf_header h"
    using b by (simp add: wf_header_def h_def data_header_def frame_new_def FLAGS_NONE_def word_le_nat_alt u)
  then show "decode (to_bytes h) = Ok h" by (simp add: decode_accepts)
  show "fh_msg_type h = FileData" "fh_file_id h = of_nat (wi_file_index item)"
    by (simp_all add: h_def data_header_def frame_new_def)
  have "of_nat (length (concat pre)) = (of_nat (length pre) * ucast (sv_frame_size env) :: u64)"
    unfolding len(1) by simp
  then show "fh_offset h = item_offset env item + of_nat (length (concat pre))"
    by (simp add: h_def data_header_def frame_new_def)
qed

lemma frame_read:
  assumes "paired env blake3 files" and "item_ok env item" and "item_parts env item = pre @ p # ps"
    and "ss_buf ss = concat pre" and "ss_current ss = (if pre = [] then None else Some (item_chunk env item))"
    and "in_data (ss_in ss) = frames_from env item (length pre) (p # ps) @ rest"
  shows "read_frame files ss =
     (if ps = []
      then Whole \<lparr>ss_in = (ss_in ss)\<lparr>in_data := rest\<rparr>, ss_buf = [], ss_current = None\<rparr>
             (item_chunk env item) (item_payload env item)
      else More \<lparr>ss_in = (ss_in ss)\<lparr>in_data := frames_from env item (Suc (length pre)) ps @ rest\<rparr>,
             ss_buf = concat (pre @ [p]), ss_current = Some (item_chunk env item)\<rparr>)"
proof -
  define h where "h = data_header env item (item_offset env item) (length pre) p"
  define r1 where "r1 = (ss_in ss)\<lparr>in_data := p @ frames_from env item (Suc (length pre)) ps @ rest\<rparr>"
  define r2 where "r2 = (ss_in ss)\<lparr>in_data := frames_from env item (Suc (length pre)) ps @ rest\<rparr>"
  have fs: "0 < sv_frame_size env" "sv_frame_size env \<le> MAX_FRAME_PAYLOAD" using assms(1) by (auto simp: paired_def)
  note hd = data_header_ok [OF fs assms(3), folded h_def] and len = item_parts_lengths [OF fs(1) assms(3)]
    and rg = item_range [OF assms(2)]
  have f: "wi_file_index item < length (sv_sources env)" using assms(2) by (simp add: item_ok_def)
  then obtain st where st: "files (of_nat (wi_file_index item)) = Some st" "st_layout st = sf_layout (item_source env item)"
    using assms(1) by (auto simp: paired_def item_source_def)
  have rd: "read_exact (ss_in ss) HEADER_LEN = Ok (to_bytes h, r1)"
    using assms(6) by (simp add: h_def r1_def)
  have rp: "read_exact r1 (length p) = Ok (p, r2)" by (simp add: r1_def r2_def)
  have bc: "begin_chunk (st_layout st) h ss = Ok (item_chunk env item, concat pre)"
  proof (cases "pre = []")
    case True
    with assms(5) hd(3,4) rg show ?thesis by (simp add: begin_chunk_def st(2) item_chunk_def)
  next
    case False
    with assms(4,5) show ?thesis by (simp add: begin_chunk_def)
  qed
  have pl: "read_frame files ss = read_payload h (item_chunk env item) (concat pre) r1"
    using rd hd(1,2,3) st(1) bc by (simp add: read_frame_def)
  have tot: "length (concat pre) + length p + length (concat ps) = length (item_payload env item)"
    using arg_cong [OF len(4), of length] by simp
  show ?thesis
  proof (cases "ps = []")
    case True
    with len(4) have "concat pre @ p = item_payload env item" by simp
    moreover have "length (concat pre) + length p = length (item_payload env item)" using tot True by simp
    ultimately show ?thesis
      unfolding pl using True hd(3,4,5) rp rg(2)
      by (simp add: read_payload_def item_chunk_def r2_def Let_def del: length_concat)
  next
    case False
    then have "0 < length (concat ps)" using len(5) by (metis length_greater_0_conv)
    with tot have "length (concat pre) + length p < length (item_payload env item)" by linarith
    then show ?thesis
      unfolding pl using False hd(3,4,5) rp rg(2)
      by (simp add: read_payload_def item_chunk_def r2_def Let_def del: length_concat)
  qed
qed

section \<open>Workers on honest streams\<close>

text \<open>A stream on which the items \<open>ts\<close> are still to come, the first of them perhaps begun.\<close>

definition honest_stream :: "send_env \<Rightarrow> work_item list \<Rightarrow> stream_state \<Rightarrow> bool" where
  "honest_stream env ts ss \<longleftrightarrow> \<not> in_broken (ss_in ss)
     \<and> (ss_current ss = None \<and> ss_buf ss = [] \<and> in_data (ss_in ss) = items_bytes env ts
        \<or> (\<exists>item ts' pre p ps. ts = item # ts' \<and> pre \<noteq> [] \<and> item_parts env item = pre @ p # ps
             \<and> ss_current ss = Some (item_chunk env item) \<and> ss_buf ss = concat pre
             \<and> in_data (ss_in ss) = frames_from env item (length pre) (p # ps) @ items_bytes env ts'))"

fun honest_worker :: "send_env \<Rightarrow> work_item list \<Rightarrow> worker \<Rightarrow> bool" where
  "honest_worker env ts (Reading ss) \<longleftrightarrow> honest_stream env ts ss"
| "honest_worker env ts (Verifying ss c payload) \<longleftrightarrow>
     (\<exists>item ts'. ts = item # ts' \<and> c = item_chunk env item \<and> payload = item_payload env item \<and> honest_stream env ts' ss)"
| "honest_worker env ts (Marking ss c) \<longleftrightarrow>
     (\<exists>item ts'. ts = item # ts' \<and> c = item_chunk env item \<and> honest_stream env ts' ss)"
| "honest_worker env ts (Counting ss c b) \<longleftrightarrow> honest_stream env ts ss"
| "honest_worker env ts (Accounting ss c) \<longleftrightarrow> honest_stream env ts ss"
| "honest_worker env ts (Locking ss c) \<longleftrightarrow> honest_stream env ts ss"
| "honest_worker env ts (Snapshotting ss c) \<longleftrightarrow> honest_stream env ts ss"
| "honest_worker env ts (Syncing ss c b) \<longleftrightarrow> honest_stream env ts ss"
| "honest_worker env ts (Persisting ss c b) \<longleftrightarrow> honest_stream env ts ss"
| "honest_worker env ts (Done r) \<longleftrightarrow> r = Ok () \<and> ts = []"

definition marked :: "recv_shared \<Rightarrow> work_item \<Rightarrow> bool" where
  "marked sh item \<longleftrightarrow>
     (\<exists>st. rs_files sh (of_nat (wi_file_index item)) = Some st \<and> bools (st_bitmap st) ! unat (wi_chunk_index item))"

lemma honest_begin:
  assumes "honest_stream env (item # ts) ss" and "item_parts env item \<noteq> []"
  obtains pre p ps where "item_parts env item = pre @ p # ps" "ss_buf ss = concat pre"
    "ss_current ss = (if pre = [] then None else Some (item_chunk env item))"
    "in_data (ss_in ss) = frames_from env item (length pre) (p # ps) @ items_bytes env ts"
proof -
  obtain p ps where parts: "item_parts env item = p # ps" using assms(2) by (cases "item_parts env item") auto
  have "ss_current ss = None \<and> ss_buf ss = [] \<and> in_data (ss_in ss) = items_bytes env (item # ts)
    \<or> (\<exists>pre p ps. pre \<noteq> [] \<and> item_parts env item = pre @ p # ps \<and> ss_current ss = Some (item_chunk env item)
        \<and> ss_buf ss = concat pre \<and> in_data (ss_in ss) = frames_from env item (length pre) (p # ps) @ items_bytes env ts)"
    using assms(1) by (simp add: honest_stream_def)
  then consider "ss_current ss = None" "ss_buf ss = []" "in_data (ss_in ss) = items_bytes env (item # ts)"
    | pre p ps where "pre \<noteq> []" "item_parts env item = pre @ p # ps" "ss_current ss = Some (item_chunk env item)"
        "ss_buf ss = concat pre" "in_data (ss_in ss) = frames_from env item (length pre) (p # ps) @ items_bytes env ts"
    by metis
  then show thesis
  proof cases
    case 1
    show thesis
      by (rule that [of "[]" p ps]) (use 1 parts in \<open>simp_all add: item_bytes_def\<close>)
  next
    case 2
    then show thesis by (intro that [of pre p ps]) auto
  qed
qed

lemma honest_read:
  assumes "paired env blake3 (rs_files sh)" and "honest_stream env ts ss" and "\<forall>item \<in> set ts. item_ok env item"
  shows "honest_worker env ts (do_read sh ss)"
proof (cases ts)
  case Nil
  then have "ss_current ss = None" "in_data (ss_in ss) = []" "\<not> in_broken (ss_in ss)"
    using assms(2) by (auto simp: honest_stream_def)
  then show ?thesis
    by (simp add: do_read_def read_frame_def read_exact_def HEADER_LEN_def Nil)
next
  case (Cons item rest)
  have ok: "item_ok env item" and fs: "0 < sv_frame_size env"
    using assms(1,3) Cons by (auto simp: paired_def)
  have hs: "honest_stream env (item # rest) ss" using assms(2) Cons by simp
  obtain pre p ps where b: "item_parts env item = pre @ p # ps" "ss_buf ss = concat pre"
      "ss_current ss = (if pre = [] then None else Some (item_chunk env item))"
      "in_data (ss_in ss) = frames_from env item (length pre) (p # ps) @ items_bytes env rest"
    using honest_begin [OF hs item_parts_nonempty [OF ok fs]] .
  have nb: "\<not> in_broken (ss_in ss)" using hs by (simp add: honest_stream_def)
  note rf = frame_read [OF assms(1) ok b]
  show ?thesis
  proof (cases "ps = []")
    case True
    with rf nb Cons show ?thesis by (simp add: do_read_def honest_stream_def)
  next
    case False
    then obtain p' ps' where ps: "ps = p' # ps'" by (cases ps) auto
    have "item_parts env item = (pre @ [p]) @ p' # ps'" using b(1) ps by simp
    then have "honest_stream env ts \<lparr>ss_in = (ss_in ss)\<lparr>in_data := frames_from env item (Suc (length pre)) ps @ items_bytes env rest\<rparr>,
        ss_buf = concat (pre @ [p]), ss_current = Some (item_chunk env item)\<rparr>"
      unfolding honest_stream_def Cons
      by (intro conjI disjI2 exI [of _ item] exI [of _ rest] exI [of _ "pre @ [p]"] exI [of _ p'] exI [of _ ps'])
        (simp_all add: nb ps)
    with rf False show ?thesis by (simp add: do_read_def)
  qed
qed

lemma paired_file:
  assumes "paired env blake3 files" and "item_ok env item" and "files (of_nat (wi_file_index item)) = Some st"
  shows "st_layout st = sf_layout (item_source env item)"
    "unat (wi_chunk_index item) < length (st_chunk_hashes st)"
    "st_chunk_hashes st ! unat (wi_chunk_index item) = blake3 (item_payload env item)"
  using assms by (auto simp: paired_def item_ok_def item_source_def item_payload_def)

lemma paired_evolves:
  assumes "paired env blake3 (rs_files sh)" and "evolves renv sh sh'"
  shows "paired env blake3 (rs_files sh')"
proof -
  have "\<exists>st'. rs_files sh' f = Some st' \<and> st_layout st' = st_layout st \<and> st_chunk_hashes st' = st_chunk_hashes st"
    if st: "rs_files sh f = Some st" for f st
  proof -
    obtain st' where "rs_files sh' f = Some st'" "file_evolves renv sh sh' st st'"
      using evolvesE [OF assms(2) st] .
    then show ?thesis by (auto simp: file_evolves_def same_file_def)
  qed
  with assms(1) show ?thesis unfolding paired_def by metis
qed

text \<open>Nothing but marking changes a bitmap.\<close>

lemma marked_set_file:
  assumes "rs_files sh f = Some st" and "st_bitmap st' = st_bitmap st"
  shows "marked (set_file sh f st') item = marked sh item"
  using assms by (auto simp: marked_def)

lemma marked_same_files: "rs_files sh' = rs_files sh \<Longrightarrow> marked sh' item = marked sh item"
  by (simp add: marked_def)

lemma do_mark_marks:
  assumes "paired env blake3 (rs_files sh)" and "item_ok env item"
    and "rs_files sh (fst (item_chunk env item)) = Some st" and "bitmap_for st (st_bitmap st)"
  obtains sh' b where "do_mark sh st ss (item_chunk env item) = (Counting ss (item_chunk env item) b, sh')"
    "marked sh' item" "\<forall>x. marked sh x \<longrightarrow> marked sh' x"
proof -
  let ?f = "of_nat (wi_file_index item) :: u64" and ?i = "wi_chunk_index item"
  have st: "rs_files sh ?f = Some st" using assms(3) by (simp add: item_chunk_def)
  note pf = paired_file [OF assms(1,2) st]
  have "unat ?i < unat (bm_count (st_bitmap st))"
    using assms(2,4) pf(1) by (simp add: bitmap_for_def item_ok_def)
  then obtain b where b: "bitmap_set (st_bitmap st) ?i = Ok b" "bools b = (bools (st_bitmap st))[unat ?i := True]"
    "unat ?i < length (bools (st_bitmap st))"
    using bitmap_set_Ok [of "st_bitmap st" ?i] assms(4) by (metis bitmap_for_def length_bools)
  let ?sh = "set_file sh ?f (st\<lparr>st_bitmap := b\<rparr>)"
  have "do_mark sh st ss (item_chunk env item) = (Counting ss (item_chunk env item) (bitmap_is_complete b), ?sh)"
    using b(1) by (simp add: do_mark_def item_chunk_def)
  moreover have "marked ?sh item" using b(2,3) by (simp add: marked_def)
  moreover have "marked ?sh x" if "marked sh x" for x
    using that st b(2,3) by (cases "unat (wi_chunk_index x) = unat ?i") (auto simp: marked_def)
  ultimately show thesis by (intro that) auto
qed

text \<open>One step of a worker on an honest stream, when no system call fails.\<close>

lemma honest_verify:
  assumes "paired env (re_blake3 renv) (rs_files sh)" and "item_ok env item"
    and "rs_files sh (fst (item_chunk env item)) = Some st" and "\<And>call. \<not> os_fails (re_os renv) call"
  shows "\<exists>fs'. do_verify (re_os renv) (re_blake3 renv) sh st ss (item_chunk env item) (item_payload env item) =
     (Marking ss (item_chunk env item), sh\<lparr>rs_fs := fs'\<rparr>)"
proof -
  have "rs_files sh (of_nat (wi_file_index item)) = Some st" using assms(3) by (simp add: item_chunk_def)
  note pf = paired_file [OF assms(1,2) this]
  have "\<exists>fs'. verify_and_write (re_os renv) (re_blake3 renv) (rs_fs sh) (fpath st) (item_offset env item)
      (item_payload env item) (st_chunk_hashes st ! unat (wi_chunk_index item)) = (Ok (), fs')"
    using assms(4) by (simp add: verify_and_write_def hash_chunk_def pf(3))
  with pf(2) show ?thesis by (auto simp: do_verify_def item_chunk_def)
qed

lemma quiet_sync:
  assumes "\<And>call. \<not> os_fails os call"
  shows "\<exists>m. sync_data os sh p = (Ok (), sh\<lparr>rs_durable := m\<rparr>)"
    "\<exists>m. persist_state os blake3 sh st b = (Ok (), sh\<lparr>rs_fs := m\<rparr>)"
  using assms by (auto simp: sync_data_def persist_state_def persist_def Let_def)

lemma honest_flush:
  assumes entry: "rs_files sh f = Some st" and os: "\<And>call. \<not> os_fails (re_os renv) call"
    and honest: "honest_stream env ts ss"
  shows "do_sync (re_os renv) sh st ss c b = (w', sh') \<Longrightarrow> honest_worker env ts w' \<and> marked sh' item = marked sh item"
    and "do_persist (re_os renv) (re_blake3 renv) sh st ss (f, i, off, len) b = (w', sh') \<Longrightarrow>
       honest_worker env ts w' \<and> marked sh' item = marked sh item"
proof -
  assume "do_sync (re_os renv) sh st ss c b = (w', sh')"
  with honest quiet_sync(1) [OF os, of sh "fpath st"] show "honest_worker env ts w' \<and> marked sh' item = marked sh item"
    by (auto simp: do_sync_def marked_def)
next
  assume p: "do_persist (re_os renv) (re_blake3 renv) sh st ss (f, i, off, len) b = (w', sh')"
  obtain m where m: "persist_state (re_os renv) (re_blake3 renv) sh st b = (Ok (), sh\<lparr>rs_fs := m\<rparr>)"
    using quiet_sync(2) [OF os] by blast
  have "w' = Reading ss" "sh' = set_file (sh\<lparr>rs_fs := m\<rparr>) f (st\<lparr>st_checkpointing := False\<rparr>)"
    using p by (auto simp: do_persist_def m unlock_def)
  moreover have "marked (set_file (sh\<lparr>rs_fs := m\<rparr>) f (st\<lparr>st_checkpointing := False\<rparr>)) item = marked sh item"
    using entry by (auto simp: marked_def)
  ultimately show "honest_worker env ts w' \<and> marked sh' item = marked sh item" using honest by simp
qed

lemma honest_bookkeeping:
  assumes "worker_chunk w = Some c" and "rs_files sh (fst c) = Some st" and "chunk_file sh w = Some st"
    and "\<And>call. \<not> os_fails (re_os renv) call" and "honest_worker env ts w"
    and "worker_step renv w sh = (w', sh')"
    and "\<And>ss c p. w \<noteq> Verifying ss c p" and "\<And>ss c. w \<noteq> Marking ss c"
  shows "honest_worker env ts w'" "marked sh' item = marked sh item"
proof -
  obtain f i off len where c: "c = (f, i, off, len)" by (cases c) auto
  then have st: "rs_files sh f = Some st" using assms(2) by simp
  note keep = marked_set_file [OF st] and step = assms(1,3,5,6)
  have "honest_worker env ts w' \<and> marked sh' item = marked sh item"
  proof (cases w)
    case (Counting ss c' b)
    with step c show ?thesis
      by (auto simp: worker_step_def do_count_def Let_def marked_def)
  next
    case (Accounting ss c')
    with step keep [of "st\<lparr>st_since_checkpoint := st_since_checkpoint st + ucast len\<rparr>"] show ?thesis
      by (auto simp: worker_step_def do_account_def c Let_def split: if_splits)
  next
    case (Locking ss c')
    with step keep [of "st\<lparr>st_checkpointing := True, st_since_checkpoint := 0\<rparr>"] show ?thesis
      by (auto simp: worker_step_def do_lock_def c split: if_splits)
  next
    case (Snapshotting ss c')
    with step keep [of "st\<lparr>st_checkpointing := False\<rparr>"] show ?thesis
      by (auto simp: worker_step_def do_snapshot_def unlock_def c Let_def split: if_splits)
  next
    case (Syncing ss c' b)
    with step honest_flush(1) [where renv = renv, OF st assms(4), of env ts ss c b w' sh' item] show ?thesis
      by (simp add: worker_step_def)
  next
    case (Persisting ss c' b)
    with step honest_flush(2) [where renv = renv, OF st assms(4), of env ts ss i off len b w' sh' item] show ?thesis
      by (simp add: worker_step_def c)
  qed (use assms(1,7,8) in simp_all)
  then show "honest_worker env ts w'" "marked sh' item = marked sh item" by auto
qed

lemma honest_verifying:
  assumes "paired env (re_blake3 renv) (rs_files sh)" and "\<And>call. \<not> os_fails (re_os renv) call"
    and "honest_worker env ts (Verifying ss c p)" and "\<forall>item \<in> set ts. item_ok env item"
    and "rs_files sh (fst c) = Some st" "chunk_file sh (Verifying ss c p) = Some st"
    and "worker_step renv (Verifying ss c p) sh = (w', sh')"
  shows "honest_worker env ts w'" "marked sh' item = marked sh item"
proof -
  obtain item1 ts1 where t: "ts = item1 # ts1" "c = item_chunk env item1" "p = item_payload env item1"
      "honest_stream env ts1 ss"
    using assms(3) by auto
  have ok: "item_ok env item1" using assms(4) t(1) by simp
  obtain fs' where "do_verify (re_os renv) (re_blake3 renv) sh st ss c p = (Marking ss c, sh\<lparr>rs_fs := fs'\<rparr>)"
    using honest_verify [OF assms(1) ok assms(5) [unfolded t(2)] assms(2)] t(2,3) by auto
  then have "w' = Marking ss c" "sh' = sh\<lparr>rs_fs := fs'\<rparr>"
    using assms(6,7) by (auto simp: worker_step_def)
  with t show "honest_worker env ts w'" "marked sh' item = marked sh item" by (auto simp: marked_def)
qed

lemma honest_marking:
  assumes "shared_inv renv sh" and "paired env (re_blake3 renv) (rs_files sh)"
    and "honest_worker env ts (Marking ss c)" and "\<forall>item \<in> set ts. item_ok env item"
    and "rs_files sh (fst c) = Some st" "chunk_file sh (Marking ss c) = Some st"
    and "worker_step renv (Marking ss c) sh = (w', sh')"
  obtains item ts1 where "ts = item # ts1" "honest_worker env ts1 w'" "marked sh' item"
    "\<forall>x. marked sh x \<longrightarrow> marked sh' x"
proof -
  obtain item ts1 where t: "ts = item # ts1" "c = item_chunk env item" "honest_stream env ts1 ss"
    using assms(3) by auto
  have ok: "item_ok env item" using assms(4) t(1) by simp
  obtain sh1 b where m: "do_mark sh st ss (item_chunk env item) = (Counting ss (item_chunk env item) b, sh1)"
      "marked sh1 item" "\<forall>x. marked sh x \<longrightarrow> marked sh1 x"
    using do_mark_marks [OF assms(2) ok assms(5) [unfolded t(2)] shared_inv_D(4) [OF assms(1,5)], of ss] by blast
  have "w' = Counting ss c b" "sh' = sh1"
    using assms(6,7) m(1) t(2) by (auto simp: worker_step_def)
  with m t show thesis by (intro that [of item ts1]) auto
qed

lemma honest_step:
  assumes "shared_inv renv sh" and "worker_inv renv sh w" and "paired env (re_blake3 renv) (rs_files sh)"
    and "\<And>call. \<not> os_fails (re_os renv) call"
    and "honest_worker env ts w" and "\<forall>item \<in> set ts. item_ok env item"
    and "worker_step renv w sh = (w', sh')"
  obtains ts' where "honest_worker env ts' w'" "set ts' \<subseteq> set ts"
    "\<forall>item \<in> set ts - set ts'. marked sh' item" "\<forall>item. marked sh item \<longrightarrow> marked sh' item"
proof (cases "worker_chunk w")
  case None
  then consider ss where "w = Reading ss" | r where "w = Done r" by (cases w) auto
  then have "honest_worker env ts w' \<and> sh' = sh"
  proof cases
    case 1
    then have "w' = do_read sh ss" "sh' = sh" "honest_stream env ts ss"
      using assms(5,7) by (auto simp: worker_step_def)
    with honest_read [OF assms(3) _ assms(6)] show ?thesis by simp
  next
    case 2
    with assms(5,7) show ?thesis by (auto simp: worker_step_def)
  qed
  then show thesis by (intro that [of ts]) auto
next
  case (Some c)
  obtain st where st: "rs_files sh (fst c) = Some st" "chunk_file sh w = Some st"
    using worker_file [OF assms(2) Some] .
  consider ss p where "w = Verifying ss c p" | ss where "w = Marking ss c"
    | "\<And>ss c p. w \<noteq> Verifying ss c p" "\<And>ss c. w \<noteq> Marking ss c"
    using Some by (cases w) auto
  then show thesis
  proof cases
    case w: 1
    note hv = honest_verifying [OF assms(3,4) assms(5) [unfolded w] assms(6) st [unfolded w] assms(7) [unfolded w]]
    show thesis by (rule that [of ts]) (use hv in auto)
  next
    case w: 2
    show thesis
      by (rule honest_marking [OF assms(1,3) assms(5) [unfolded w] assms(6) st [unfolded w] assms(7) [unfolded w]],
          rule that) auto
  next
    case 3
    note hb = honest_bookkeeping [OF Some st assms(4,5,7) 3]
    show thesis by (rule that [of ts]) (use hb in auto)
  qed
qed

section \<open>The data phase on honest streams\<close>

definition honest_sys :: "send_env \<Rightarrow> recv_env \<Rightarrow> recv_sys \<Rightarrow> bool" where
  "honest_sys env renv sys \<longleftrightarrow> sys_inv renv sys \<and> paired env (re_blake3 renv) (rs_files (sys_shared sys))
     \<and> (\<forall>call. \<not> os_fails (re_os renv) call)
     \<and> (\<exists>tss. length tss = length (sys_workers sys)
          \<and> (\<forall>i < length (sys_workers sys). honest_worker env (tss ! i) (sys_workers sys ! i)
               \<and> (\<forall>item \<in> set (tss ! i). item_ok env item))
          \<and> (\<forall>item. item_ok env item \<longrightarrow> marked (sys_shared sys) item \<or> (\<exists>ts \<in> set tss. item \<in> set ts)))"

lemma honest_turn:
  assumes "honest_sys env renv sys" and "i < length (sys_workers sys)"
  shows "honest_sys env renv (act renv (Turn i) sys)"
proof -
  let ?ws = "sys_workers sys" and ?sh = "sys_shared sys"
  obtain tss where t: "length tss = length ?ws"
      "\<And>i. i < length ?ws \<Longrightarrow> honest_worker env (tss ! i) (?ws ! i)"
      "\<And>i. i < length ?ws \<Longrightarrow> \<forall>item \<in> set (tss ! i). item_ok env item"
      "\<And>item. item_ok env item \<Longrightarrow> marked ?sh item \<or> (\<exists>ts \<in> set tss. item \<in> set ts)"
    using assms(1) unfolding honest_sys_def by blast
  have inv: "sys_inv renv sys" "paired env (re_blake3 renv) (rs_files ?sh)" "\<And>call. \<not> os_fails (re_os renv) call"
    using assms(1) by (auto simp: honest_sys_def)
  have si: "shared_inv renv ?sh" "worker_inv renv ?sh (?ws ! i)" using inv(1) assms(2) by (auto simp: sys_inv_def)
  obtain w' sh' where st: "worker_step renv (?ws ! i) ?sh = (w', sh')" by force
  obtain ts' where ts': "honest_worker env ts' w'" "set ts' \<subseteq> set (tss ! i)"
      "\<forall>item \<in> set (tss ! i) - set ts'. marked sh' item" "\<forall>item. marked ?sh item \<longrightarrow> marked sh' item"
    using honest_step [OF si inv(2,3) t(2) [OF assms(2)] t(3) [OF assms(2)] st] by blast
  have act: "act renv (Turn i) sys = \<lparr>sys_shared = sh', sys_workers = ?ws[i := w']\<rparr>"
    using assms(2) st by (simp add: act_def)
  have "sys_inv renv (act renv (Turn i) sys)" "paired env (re_blake3 renv) (rs_files sh')"
    using act_ok [OF inv(1), of "Turn i"] paired_evolves [OF inv(2), of renv sh'] by (auto simp: act)
  moreover have "marked sh' item \<or> (\<exists>ts \<in> set (tss[i := ts']). item \<in> set ts)" if it: "item_ok env item" for item
  proof (cases "marked ?sh item")
    case False
    then obtain k where k: "k < length tss" "item \<in> set (tss ! k)"
      using t(4) [OF it] by (metis in_set_conv_nth)
    show ?thesis
    proof (cases "k = i \<and> item \<notin> set ts'")
      case True
      with k ts'(3) show ?thesis by blast
    next
      case False
      then have "item \<in> set (tss[i := ts'] ! k)" using k by (cases "k = i") auto
      with k(1) show ?thesis by (metis length_list_update nth_mem)
    qed
  qed (use ts'(4) it in blast)
  moreover have "honest_worker env (tss[i := ts'] ! k) (?ws[i := w'] ! k)
      \<and> (\<forall>item \<in> set (tss[i := ts'] ! k). item_ok env item)" if "k < length ?ws" for k
    using t(1,2,3) ts'(1,2) that assms(2) by (cases "k = i") auto
  ultimately show ?thesis
    using t(1) inv(3) unfolding honest_sys_def act
    by (intro conjI exI [of _ "tss[i := ts']"]) auto
qed

lemma honest_act:
  assumes "honest_sys env renv sys"
  shows "honest_sys env renv (act renv a sys)"
proof (cases "\<exists>i < length (sys_workers sys). a = Turn i")
  case True
  with honest_turn [OF assms] show ?thesis by blast
next
  case False
  have "sys_inv renv (act renv a sys)" using act_ok assms by (auto simp: honest_sys_def)
  moreover have "sys_workers (act renv a sys) = sys_workers sys" "rs_files (sys_shared (act renv a sys)) = rs_files (sys_shared sys)"
    using False
    by (auto simp: act_def flush_chunk_def flush_record_def Let_def split: action.splits option.splits)
  ultimately show ?thesis
    using assms unfolding honest_sys_def marked_def by simp
qed

interpretation honest: invariant_system "act renv" "honest_sys env renv" for env renv
  by unfold_locales (rule honest_act)





section \<open>From the two handshakes to the data phase\<close>


















text \<open>
  A pair of sessions in which the receiver accepted what the sender offered: the two environments, the
  files, the offer and the receiver's state after it.
\<close>

record session_pair =
  p_os :: os_env
  p_ros :: os_env
  p_hash :: "bytes \<Rightarrow> hash"
  p_config :: config
  p_rconfig :: config
  p_sfs :: fs
  p_rfs :: fs
  p_files :: "outgoing_file list"
  p_out :: path
  p_srcs :: "source_file list"
  p_entries :: "file_entry list"
  p_acc :: offer_acc




definition renv :: "session_pair \<Rightarrow> recv_env" where
  "renv P = session_env (p_ros P) (p_hash P) (p_rconfig P) (p_acc P)"








section \<open>From the data phase to the end of the sessions\<close>









section \<open>Properties\<close>

















end
