(* ===== verification/Endpoints.thy ===== *)
theory Endpoints
  imports Exchange Session
begin

text \<open>
  The entry points of \<open>recv.rs\<close> and \<open>send.rs\<close>: which of \<open>Dialer\<close> and \<open>Acceptor\<close> of \<open>link.rs\<close> a role
  uses, and the session run over the streams it supplies.  The locale \<open>stream_source\<close> is the trait
  \<open>StreamSource\<close>: the streams of a session by number, control first, each ending at a peer the source
  vouches for.  The lemmas show that a client touches its disk, and lets bytes of its files out, only
  towards the holder of the pinned certificate.
\<close>

section \<open>Sessions over a source of streams\<close>

fun map_ok :: "('a \<Rightarrow> 'b) \<Rightarrow> ('a, 'e) result \<Rightarrow> ('b, 'e) result" where
  "map_ok f (Ok x) = Ok (f x)"
| "map_ok f (Err e) = Err e"

lemma map_ok_Ok [simp]: "map_ok f r = Ok y \<longleftrightarrow> (\<exists>x. r = Ok x \<and> y = f x)"
  by (cases r) auto

text \<open>The head of \<open>run\<close> in \<open>recv.rs\<close>: the control stream is the first of the source.\<close>

definition receive_over ::
    "(nat \<Rightarrow> (tls_stream, core_error) result) \<Rightarrow> os_env \<Rightarrow> (bytes \<Rightarrow> hash) \<Rightarrow> (control_message \<Rightarrow> bytes)
     \<Rightarrow> (bytes \<Rightarrow> control_message option) \<Rightarrow> path \<Rightarrow> config \<Rightarrow> fs \<Rightarrow> u64 list \<Rightarrow> action list
     \<Rightarrow> ((u64, core_error) result \<times> fs) option" where
  "receive_over next_stream os blake3 enc dec output_dir config fs order sched =
     (case next_stream 0 of
        Err e \<Rightarrow> Some (Err e, fs)
      | Ok control \<Rightarrow>
        (case receive_run os blake3 enc dec config output_dir fs (tls_in control) (tls_out control)
                (\<lambda>k. map_ok tls_in (next_stream (Suc k))) order sched of
           None \<Rightarrow> None
         | Some (r, fs', cout) \<Rightarrow> Some (r, fs')))"

text \<open>
  The head of \<open>run\<close> in \<open>send.rs\<close>: the sources are opened before the first stream is asked for.  The
  last component is what was written, the control stream first; \<open>[]\<close> when no stream was opened.
\<close>

definition send_over ::
    "(nat \<Rightarrow> (tls_stream, core_error) result) \<Rightarrow> os_env \<Rightarrow> (bytes \<Rightarrow> hash) \<Rightarrow> (control_message \<Rightarrow> bytes)
     \<Rightarrow> (bytes \<Rightarrow> control_message option) \<Rightarrow> outgoing_file list \<Rightarrow> config \<Rightarrow> fs \<Rightarrow> bytes \<Rightarrow> send_action list
     \<Rightarrow> ((u64, core_error) result \<times> out_stream list) option" where
  "send_over next_stream os blake3 enc dec files config fs sid sched =
     (case open_sources os blake3 config fs 0 files of
        Err e \<Rightarrow> Some (Err e, [])
      | Ok _ \<Rightarrow>
      case next_stream 0 of
        Err e \<Rightarrow> Some (Err e, [])
      | Ok control \<Rightarrow>
        (case send_run os blake3 enc dec config fs files sid (tls_in control) (tls_out control)
                (\<lambda>k. map_ok tls_out (next_stream k)) sched of
           None \<Rightarrow> None
         | Some (r, cout, outs) \<Rightarrow> Some (r, cout # outs)))"

section \<open>The four roles\<close>

text \<open>\<open>nets k\<close> is the network during the \<open>k\<close>-th call of \<open>next_stream\<close>.\<close>

abbreviation dialed :: "(nat \<Rightarrow> net_env) \<Rightarrow> dialer \<Rightarrow> nat \<Rightarrow> (tls_stream, core_error) result" where
  "dialed nets d k \<equiv> fst (dialer_next_stream (nets k) d)"

abbreviation accepted :: "(nat \<Rightarrow> net_env) \<Rightarrow> acceptor \<Rightarrow> nat \<Rightarrow> (tls_stream, core_error) result" where
  "accepted nets a k \<equiv> fst (acceptor_next_stream (nets k) a)"

definition receive_with_progress ::
    "tls_env \<Rightarrow> net_env \<Rightarrow> (nat \<Rightarrow> net_env) \<Rightarrow> os_env \<Rightarrow> (bytes \<Rightarrow> hash) \<Rightarrow> (control_message \<Rightarrow> bytes)
     \<Rightarrow> (bytes \<Rightarrow> control_message option) \<Rightarrow> host_identity \<Rightarrow> path \<Rightarrow> config \<Rightarrow> fs \<Rightarrow> u64 list \<Rightarrow> action list
     \<Rightarrow> ((u64, core_error) result \<times> fs) option" where
  "receive_with_progress te net nets os blake3 enc dec identity output_dir config fs order sched =
     (case fst (acceptor_new te net identity config) of
        Err e \<Rightarrow> Some (Err e, fs)
      | Ok a \<Rightarrow> receive_over (accepted nets a) os blake3 enc dec output_dir config fs order sched)"

definition receive_as_client_with_progress ::
    "tls_env \<Rightarrow> (nat \<Rightarrow> net_env) \<Rightarrow> os_env \<Rightarrow> (bytes \<Rightarrow> hash) \<Rightarrow> (control_message \<Rightarrow> bytes)
     \<Rightarrow> (bytes \<Rightarrow> control_message option) \<Rightarrow> string \<Rightarrow> fingerprint \<Rightarrow> path \<Rightarrow> config \<Rightarrow> fs \<Rightarrow> u64 list \<Rightarrow> action list
     \<Rightarrow> ((u64, core_error) result \<times> fs) option" where
  "receive_as_client_with_progress te nets os blake3 enc dec addr pinned output_dir config fs order sched =
     (case dialer_new te addr pinned config of
        Err e \<Rightarrow> Some (Err e, fs)
      | Ok d \<Rightarrow> receive_over (dialed nets d) os blake3 enc dec output_dir config fs order sched)"

definition send_with_progress ::
    "tls_env \<Rightarrow> (nat \<Rightarrow> net_env) \<Rightarrow> os_env \<Rightarrow> (bytes \<Rightarrow> hash) \<Rightarrow> (control_message \<Rightarrow> bytes)
     \<Rightarrow> (bytes \<Rightarrow> control_message option) \<Rightarrow> string \<Rightarrow> fingerprint \<Rightarrow> outgoing_file list \<Rightarrow> config \<Rightarrow> fs \<Rightarrow> bytes
     \<Rightarrow> send_action list \<Rightarrow> ((u64, core_error) result \<times> out_stream list) option" where
  "send_with_progress te nets os blake3 enc dec addr pinned files config fs sid sched =
     (case dialer_new te addr pinned config of
        Err e \<Rightarrow> Some (Err e, [])
      | Ok d \<Rightarrow> send_over (dialed nets d) os blake3 enc dec files config fs sid sched)"

definition send_as_host_with_progress ::
    "tls_env \<Rightarrow> net_env \<Rightarrow> (nat \<Rightarrow> net_env) \<Rightarrow> os_env \<Rightarrow> (bytes \<Rightarrow> hash) \<Rightarrow> (control_message \<Rightarrow> bytes)
     \<Rightarrow> (bytes \<Rightarrow> control_message option) \<Rightarrow> host_identity \<Rightarrow> outgoing_file list \<Rightarrow> config \<Rightarrow> fs \<Rightarrow> bytes
     \<Rightarrow> send_action list \<Rightarrow> ((u64, core_error) result \<times> out_stream list) option" where
  "send_as_host_with_progress te net nets os blake3 enc dec identity files config fs sid sched =
     (case fst (acceptor_new te net identity config) of
        Err e \<Rightarrow> Some (Err e, [])
      | Ok a \<Rightarrow> send_over (accepted nets a) os blake3 enc dec files config fs sid sched)"

text \<open>
  The entry points without progress: they pass \<open>NoProgress\<close>, and what a sink hears does not come back
  into the session.
\<close>

definition receive ::
    "tls_env \<Rightarrow> net_env \<Rightarrow> (nat \<Rightarrow> net_env) \<Rightarrow> os_env \<Rightarrow> (bytes \<Rightarrow> hash) \<Rightarrow> (control_message \<Rightarrow> bytes)
     \<Rightarrow> (bytes \<Rightarrow> control_message option) \<Rightarrow> host_identity \<Rightarrow> path \<Rightarrow> config \<Rightarrow> fs \<Rightarrow> u64 list \<Rightarrow> action list
     \<Rightarrow> ((u64, core_error) result \<times> fs) option" where
  "receive te net nets os blake3 enc dec identity output_dir config fs order sched =
     receive_with_progress te net nets os blake3 enc dec identity output_dir config fs order sched"

definition receive_as_client ::
    "tls_env \<Rightarrow> (nat \<Rightarrow> net_env) \<Rightarrow> os_env \<Rightarrow> (bytes \<Rightarrow> hash) \<Rightarrow> (control_message \<Rightarrow> bytes)
     \<Rightarrow> (bytes \<Rightarrow> control_message option) \<Rightarrow> string \<Rightarrow> fingerprint \<Rightarrow> path \<Rightarrow> config \<Rightarrow> fs \<Rightarrow> u64 list \<Rightarrow> action list
     \<Rightarrow> ((u64, core_error) result \<times> fs) option" where
  "receive_as_client te nets os blake3 enc dec addr pinned output_dir config fs order sched =
     receive_as_client_with_progress te nets os blake3 enc dec addr pinned output_dir config fs order sched"

definition send ::
    "tls_env \<Rightarrow> (nat \<Rightarrow> net_env) \<Rightarrow> os_env \<Rightarrow> (bytes \<Rightarrow> hash) \<Rightarrow> (control_message \<Rightarrow> bytes)
     \<Rightarrow> (bytes \<Rightarrow> control_message option) \<Rightarrow> string \<Rightarrow> fingerprint \<Rightarrow> outgoing_file list \<Rightarrow> config \<Rightarrow> fs \<Rightarrow> bytes
     \<Rightarrow> send_action list \<Rightarrow> ((u64, core_error) result \<times> out_stream list) option" where
  "send te nets os blake3 enc dec addr pinned files config fs sid sched =
     send_with_progress te nets os blake3 enc dec addr pinned files config fs sid sched"

definition send_as_host ::
    "tls_env \<Rightarrow> net_env \<Rightarrow> (nat \<Rightarrow> net_env) \<Rightarrow> os_env \<Rightarrow> (bytes \<Rightarrow> hash) \<Rightarrow> (control_message \<Rightarrow> bytes)
     \<Rightarrow> (bytes \<Rightarrow> control_message option) \<Rightarrow> host_identity \<Rightarrow> outgoing_file list \<Rightarrow> config \<Rightarrow> fs \<Rightarrow> bytes
     \<Rightarrow> send_action list \<Rightarrow> ((u64, core_error) result \<times> out_stream list) option" where
  "send_as_host te net nets os blake3 enc dec identity files config fs sid sched =
     send_as_host_with_progress te net nets os blake3 enc dec identity files config fs sid sched"

section \<open>Interface: a source vouches for its peers\<close>

lemma open_streams_all: "open_streams dec ns ks = Ok ws \<Longrightarrow> k \<in> set ks \<Longrightarrow> \<exists>s. ns k = Ok s"
  by (induction ks arbitrary: ws) (auto split: result.splits prod.splits body.splits)

lemma open_data_streams_all:
  "open_data_streams enc sid ns ks = Ok ss \<Longrightarrow> length ss = length ks \<and> (\<forall>k \<in> set ks. \<exists>s. ns k = Ok s)"
  by (induction ks arbitrary: ss) (auto split: result.splits)

definition opened :: "(nat \<Rightarrow> (tls_stream, core_error) result) \<Rightarrow> (bytes \<Rightarrow> bool) \<Rightarrow> nat \<Rightarrow> bool" where
  "opened next_stream trusted_peer k \<longleftrightarrow> (\<exists>st. next_stream k = Ok st \<and> trusted_peer (tls_peer st))"

locale stream_source =
  fixes next_stream :: "nat \<Rightarrow> (tls_stream, core_error) result" and trusted_peer :: "bytes \<Rightarrow> bool"
  assumes vouched: "next_stream k = Ok st \<Longrightarrow> trusted_peer (tls_peer st)"
begin

lemma opened_iff: "opened next_stream trusted_peer k \<longleftrightarrow> (\<exists>st. next_stream k = Ok st)"
  using vouched by (auto simp: opened_def)

lemma receive_opened:
  assumes "receive_over next_stream os blake3 enc dec dir config fs order sched = Some (r, fs')"
    and "fs' \<noteq> fs \<or> r = Ok n"
  shows "opened next_stream trusted_peer 0"
  using assms by (auto simp: receive_over_def opened_iff split: result.splits)

lemma receive_all_opened:
  assumes "receive_over next_stream os blake3 enc dec dir config fs order sched = Some (Ok n, fs')"
  shows "\<exists>count :: u32. 1 \<le> unat count \<and> unat count \<le> unat (cfg_max_streams config)
    \<and> (\<forall>k \<le> unat count. opened next_stream trusted_peer k)"
proof -
  from assms obtain control cout where c: "next_stream 0 = Ok control"
    and run: "receive_run os blake3 enc dec config dir fs (tls_in control) (tls_out control)
      (\<lambda>k. map_ok tls_in (next_stream (Suc k))) order sched = Some (Ok n, fs', cout)"
    by (auto simp: receive_over_def split: result.splits option.splits)
  from run obtain h count ws where h: "check_hello config h = Ok count"
    and ws: "open_streams dec (\<lambda>k. map_ok tls_in (next_stream (Suc k))) [0..<unat count] = Ok ws"
    by (rule receive_run_Ok)
  have "opened next_stream trusted_peer k" if k: "k \<le> unat count" for k
  proof (cases k)
    case (Suc j)
    with k have "j \<in> set [0..<unat count]" by simp
    from open_streams_all [OF ws this] Suc show ?thesis by (auto simp: opened_iff)
  qed (use c in \<open>simp add: opened_iff\<close>)
  moreover have "1 \<le> unat count \<and> unat count \<le> unat (cfg_max_streams config)"
    using h unfolding check_hello_exact by blast
  ultimately show ?thesis by blast
qed

lemma send_opened:
  assumes "send_over next_stream os blake3 enc dec files config fs sid sched = Some (r, outs)"
    and "k < length outs"
  shows "opened next_stream trusted_peer k"
proof -
  from assms obtain control outs' where c: "next_stream 0 = Ok control" and outs: "length outs = Suc (length outs')"
    and run: "\<exists>cout. send_run os blake3 enc dec config fs files sid (tls_in control) (tls_out control)
      (\<lambda>k. map_ok tls_out (next_stream k)) sched = Some (r, cout, outs')"
    by (auto simp: send_over_def split: result.splits option.splits)
  show ?thesis
  proof (cases k)
    case 0
    with c show ?thesis by (simp add: opened_iff)
  next
    case (Suc j)
    with outs assms(2) have "outs' \<noteq> []" "k \<le> length outs'" by auto
    with run obtain ss where ss: "open_data_streams enc sid (\<lambda>k. map_ok tls_out (next_stream k))
        [1..<Suc (unat (cfg_stream_count config))] = Ok ss" and n: "length outs' = length ss"
      by (auto simp: send_run_def Let_def send_schedule_def send_start_def split: prod.splits result.splits option.splits)
    have "k \<in> set [1..<Suc (unat (cfg_stream_count config))]"
      using open_data_streams_all [OF ss] n \<open>k \<le> length outs'\<close> Suc by (simp del: upt_Suc)
    with open_data_streams_all [OF ss] show ?thesis by (auto simp: opened_iff simp del: upt_Suc)
  qed
qed

end

text \<open>
  The dialer vouches for a completed handshake with its own configuration; the acceptor asks no
  certificate of its peer.
\<close>

definition handshaken :: "(nat \<Rightarrow> net_env) \<Rightarrow> dialer \<Rightarrow> bytes \<Rightarrow> bool" where
  "handshaken nets d cert \<longleftrightarrow>
     (\<exists>k tcp st. nt_tls_connect (nets k) (dl_connector d) (dl_server_name d) tcp = Some st \<and> tls_peer st = cert)"

interpretation dialing: stream_source "dialed nets d" "handshaken nets d" for nets d
proof
  fix k st
  assume "dialed nets d k = Ok st"
  then have "dialer_next_stream (nets k) d = (Ok st, snd (dialer_next_stream (nets k) d))"
    by (cases "dialer_next_stream (nets k) d") simp
  then obtain tcp where "nt_tls_connect (nets k) (dl_connector d) (dl_server_name d) tcp = Some st"
    by (rule dialed_stream)
  then show "handshaken nets d (tls_peer st)" unfolding handshaken_def by blast
qed

interpretation accepting: stream_source "accepted nets a" "\<lambda>_. True" for nets a
  by unfold_locales simp

lemma handshaken_pinned:
  assumes "\<forall>k. honours_verifier blake3 (nt_tls_connect (nets k))" and "dialer_new te addr pinned config = Ok d"
    and "handshaken nets d cert"
  shows "blake3 cert = pinned"
  using assms(1, 3) dialer_new_Ok(2) [OF assms(2)]
  unfolding handshaken_def honours_verifier_def verify_server_cert_Ok by blast

lemma opened_pinned:
  assumes "\<forall>k. honours_verifier blake3 (nt_tls_connect (nets k))" and "dialer_new te addr pinned config = Ok d"
    and "opened (dialed nets d) (handshaken nets d) k"
  shows "\<exists>st. dialed nets d k = Ok st \<and> blake3 (tls_peer st) = pinned"
  using assms(3) handshaken_pinned [OF assms(1, 2)] unfolding opened_def by blast

section \<open>Sessions over a sample link\<close>

text \<open>A network whose streams carry the sample session, for a peer with an empty certificate.\<close>

definition sample_link :: "(nat \<Rightarrow> in_stream) \<Rightarrow> nat \<Rightarrow> net_env" where
  "sample_link ins k = (plain_net zero_hash [])\<lparr>nt_tls_connect := (\<lambda>cc name tcp.
     if verify_server_cert zero_hash (cc_verifier cc) [] [] name [] 0 = Ok ()
     then Some \<lparr>tls_in = ins k, tls_out = \<lparr>out_data = [], out_open = True\<rparr>, tls_peer = []\<rparr> else None)\<rparr>"

lemma sample_link_honours: "honours_verifier zero_hash (nt_tls_connect (sample_link ins k))"
  by (auto simp: honours_verifier_def sample_link_def split: if_splits)

lemma sample_link_dialed:
  "cfg_bound_interface_index config = 0 \<Longrightarrow> cfg_socket_send_buffer_bytes config = 0 \<Longrightarrow>
     cfg_socket_recv_buffer_bytes config = 0 \<Longrightarrow>
     dialed (sample_link ins) (plain_dialer (zero_hash []) config) k =
     Ok \<lparr>tls_in = ins k, tls_out = \<lparr>out_data = [], out_open = True\<rparr>, tls_peer = []\<rparr>"
  by (simp add: dialer_next_stream_def dial_socket_def sample_link_def plain_net_def plain_dialer_def
    bind_to_interface_def set_socket_buffers_def set_if_requested_def Let_def)

definition session_ins :: "nat \<Rightarrow> in_stream" where
  "session_ins k = (case k of 0 \<Rightarrow> sample_control
     | Suc j \<Rightarrow> sample_data\<lparr>in_data :=
         control_frame sample_enc (control_message_new (Hello sample_hello)) @ in_data sample_data\<rparr>)"

lemma sample_client_receives:
  "receive_as_client_with_progress plain_tls (sample_link session_ins) quiet_os zero_hash sample_enc sample_dec
     ''h:1'' (zero_hash []) [] config_default Map.empty [0] (replicate 6 (Turn 0)) = Some (Ok 3, [[''f''] \<mapsto> [1, 2, 3]])"
proof -
  let ?d = "plain_dialer (zero_hash []) config_default"
  have d: "dialed (sample_link session_ins) ?d k =
      Ok \<lparr>tls_in = session_ins k, tls_out = \<lparr>out_data = [], out_open = True\<rparr>, tls_peer = []\<rparr>" for k
    by (rule sample_link_dialed) (simp_all add: config_default_def)
  have "(\<lambda>k. map_ok tls_in (dialed (sample_link session_ins) ?d (Suc k))) = sample_stream"
    by (rule ext) (simp only: d map_ok.simps, simp add: session_ins_def sample_stream_def)
  then show ?thesis
    using sample_receive
    by (auto simp: receive_as_client_with_progress_def plain_dialer_new receive_over_def d session_ins_def sample_out_def)
qed



section \<open>Properties\<close>

text \<open>
  C13: a client receives from the pinned host only.  If \<open>receive_as_client\<close> changes the disk at all,
  the control stream ended at a certificate with the pinned fingerprint; if it succeeds, so did every
  data stream, and there were no more of them than the configuration admits.
\<close>

theorem client_receives_from_pinned:
  assumes "\<forall>k. honours_verifier blake3 (nt_tls_connect (nets k))"
    and "receive_as_client_with_progress te nets os blake3 enc dec addr pinned dir config fs order sched = Some (r, fs')"
    and "fs' \<noteq> fs \<or> r = Ok n"
  shows "\<exists>d. dialer_new te addr pinned config = Ok d
    \<and> (\<exists>st. dialed nets d 0 = Ok st \<and> blake3 (tls_peer st) = pinned)
    \<and> (r = Ok n \<longrightarrow> (\<exists>count. 1 \<le> count \<and> count \<le> unat (cfg_max_streams config)
         \<and> (\<forall>k \<le> count. \<exists>st. dialed nets d k = Ok st \<and> blake3 (tls_peer st) = pinned)))"
proof -
  from assms(2, 3) obtain d where d: "dialer_new te addr pinned config = Ok d"
    and run: "receive_over (dialed nets d) os blake3 enc dec dir config fs order sched = Some (r, fs')"
    by (auto simp: receive_as_client_with_progress_def split: result.splits)
  note pin = opened_pinned [OF assms(1) d]
  have "\<exists>count. 1 \<le> count \<and> count \<le> unat (cfg_max_streams config)
      \<and> (\<forall>k \<le> count. \<exists>st. dialed nets d k = Ok st \<and> blake3 (tls_peer st) = pinned)" if r: "r = Ok n"
    using dialing.receive_all_opened [OF run [unfolded r]] pin by blast
  with d pin dialing.receive_opened [OF run assms(3)] show ?thesis by blast
qed

theorem client_receives_from_pinned_witness:
  "\<exists>d st. dialer_new plain_tls ''h:1'' (zero_hash []) config_default = Ok d
     \<and> dialed (sample_link session_ins) d 1 = Ok st \<and> zero_hash (tls_peer st) = zero_hash []"
  using client_receives_from_pinned [OF _ sample_client_receives, of 3] sample_link_honours by fastforce



end
