(* ===== verification/Harness.thy ===== *)
theory Harness
  imports Endpoints
begin

text \<open>
  The command-line harness: \<open>aetherlink-cli/src/main.rs\<close>.  Argument parsing (clap) is a derive of the
  library: a command is the value it yields.  The transfer commands run the entry points of \<open>Endpoints\<close>
  and report; the benchmark generates its source file and runs both roles against each other, as often
  as asked.  What the machine decides (network, schedules, elapsed times, what a failed removal leaves
  behind) is a parameter of each run.  The lemmas show what the generated source contains, that the
  fingerprint a hosting command prints pairs the joining commands with its certificate, and what the
  summary of a benchmark says.
\<close>

section \<open>Commands\<close>

record tuning =
  tu_streams :: u8
  tu_frame_bytes :: u32
  tu_chunk_bytes :: u32
  tu_keep_read_pages :: bool

definition tuning_default :: tuning where
  "tuning_default = \<lparr>tu_streams = 8, tu_frame_bytes = 256 * 1024, tu_chunk_bytes = 4 * 1024 * 1024,
     tu_keep_read_pages = False\<rparr>"

definition tuning_config :: "tuning \<Rightarrow> config" where
  "tuning_config t = config_default\<lparr>
     cfg_stream_count := tu_streams t,
     cfg_frame_size := tu_frame_bytes t,
     cfg_chunk_size := tu_chunk_bytes t,
     cfg_release_read_pages := \<not> tu_keep_read_pages t\<rparr>"

datatype command =
    Recv u16 string tuning
  | Send string string "string list" tuning
  | HostSend u16 "string list" tuning
  | ClientRecv string string string tuning
  | Bench u64 string u32 tuning

datatype cli_error =
    Core_Failed core_error
  | Wrong_Length
  | Invalid_Hex nat
  | No_Address
  | File_Failed

text \<open>\<open>Path::file_name\<close>: the last component, unless it is \<open>..\<close> or there is none.\<close>

definition path_file_name :: "path \<Rightarrow> string option" where
  "path_file_name p = (if p = [] \<or> List.last p = ''..'' then None else Some (List.last p))"

text \<open>\<open>lossy\<close> is \<open>to_string_lossy\<close>, the identity on UTF-8.\<close>

definition cli_to_outgoing :: "(string \<Rightarrow> string) \<Rightarrow> string list \<Rightarrow> outgoing_file list" where
  "cli_to_outgoing lossy files =
     map (\<lambda>f. let p = path_join [] f;
                  name = (case path_file_name p of Some n \<Rightarrow> lossy n | None \<Rightarrow> ''file.bin'') in
          \<lparr>of_path = p, of_relative_path = name, of_mime_type = ''application/octet-stream''\<rparr>) files"

definition cli_parse_fingerprint :: "string \<Rightarrow> (fingerprint, cli_error) result option" where
  "cli_parse_fingerprint hex =
     (if length hex \<noteq> 64 then Some (Err Wrong_Length)
      else case parse_hex_at hex [0..<32] of
        None \<Rightarrow> None
      | Some (Err p) \<Rightarrow> Some (Err (Invalid_Hex p))
      | Some (Ok out) \<Rightarrow> Some (Ok out))"

text \<open>
  The hosting commands: identity, listener, and the two lines the user carries to the other device.
\<close>

definition listen :: "host_env \<Rightarrow> u16 \<Rightarrow> (host_identity \<times> listener \<times> string list, cli_error) result" where
  "listen he port =
     (case host_identity_generate (he_tls he) (he_blake3 he) of
        Err e \<Rightarrow> Err (Core_Failed e)
      | Ok identity \<Rightarrow>
      case recv_bind he port of
        Err e \<Rightarrow> Err (Core_Failed e)
      | Ok l \<Rightarrow>
      case he_local_port he l of
        None \<Rightarrow> Err No_Address
      | Some bound \<Rightarrow>
        Ok (identity, l, [''listening on 0.0.0.0:'' @ decimal (unat bound),
                          ''fingerprint  '' @ fingerprint_hex identity]))"

text \<open>
  \<open>main\<close> up to the call of the engine: the job it starts and the lines printed before it, or the
  benchmark; \<open>None\<close> is a panic.
\<close>

datatype plan =
    Transfer transfer_job "string list"
  | Benchmark u64 path u32 config

fun cli_main ::
    "(string \<Rightarrow> string) \<Rightarrow> host_env \<Rightarrow> command \<Rightarrow> (plan, cli_error) result option" where
  "cli_main lossy he (Recv port out t) =
     (case listen he port of
        Err e \<Rightarrow> Some (Err e)
      | Ok (identity, l, printed) \<Rightarrow>
          Some (Ok (Transfer (Receive_As_Host l identity (path_join [] out) (tuning_config t)) printed)))"
| "cli_main lossy he (Send addr hex files t) =
     (case cli_parse_fingerprint hex of
        None \<Rightarrow> None
      | Some (Err e) \<Rightarrow> Some (Err e)
      | Some (Ok pinned) \<Rightarrow>
          Some (Ok (Transfer (Send_To addr pinned (cli_to_outgoing lossy files) (tuning_config t)) [])))"
| "cli_main lossy he (HostSend port files t) =
     (case listen he port of
        Err e \<Rightarrow> Some (Err e)
      | Ok (identity, l, printed) \<Rightarrow>
          Some (Ok (Transfer (Send_As_Host l identity (cli_to_outgoing lossy files) (tuning_config t)) printed)))"
| "cli_main lossy he (ClientRecv addr hex out t) =
     (case cli_parse_fingerprint hex of
        None \<Rightarrow> None
      | Some (Err e) \<Rightarrow> Some (Err e)
      | Some (Ok pinned) \<Rightarrow>
          Some (Ok (Transfer (Receive_From addr pinned (path_join [] out) (tuning_config t)) [])))"
| "cli_main lossy he (Bench size_mib dir runs t) =
     Some (Ok (Benchmark size_mib (path_join [] dir) runs (tuning_config t)))"

section \<open>The engine call and its report\<close>

text \<open>What a session meets outside the program, and the order in which its parts run.\<close>

record engine_env =
  ee_tls :: tls_env
  ee_blake3 :: "bytes \<Rightarrow> hash"
  ee_listener :: net_env
  ee_accepts :: "nat \<Rightarrow> net_env"
  ee_dials :: "nat \<Rightarrow> net_env"
  ee_os :: os_env
  ee_enc :: "control_message \<Rightarrow> bytes"
  ee_dec :: "bytes \<Rightarrow> control_message option"
  ee_sid :: bytes
  ee_order :: "u64 list"
  ee_receiving :: "action list"
  ee_sending :: "send_action list"
  ee_elapsed :: nat

fun run_job :: "engine_env \<Rightarrow> transfer_job \<Rightarrow> fs \<Rightarrow> ((u64, core_error) result \<times> fs) option" where
  "run_job ee (Receive_As_Host l identity out config) fs =
     receive (ee_tls ee) (ee_listener ee) (ee_accepts ee) (ee_os ee) (ee_blake3 ee) (ee_enc ee) (ee_dec ee)
       identity out config fs (ee_order ee) (ee_receiving ee)"
| "run_job ee (Receive_From addr pinned out config) fs =
     receive_as_client (ee_tls ee) (ee_dials ee) (ee_os ee) (ee_blake3 ee) (ee_enc ee) (ee_dec ee)
       addr pinned out config fs (ee_order ee) (ee_receiving ee)"
| "run_job ee (Send_To addr pinned files config) fs =
     map_option (\<lambda>(r, outs). (r, fs)) (send (ee_tls ee) (ee_dials ee) (ee_os ee) (ee_blake3 ee) (ee_enc ee)
       (ee_dec ee) addr pinned files config fs (ee_sid ee) (ee_sending ee))"
| "run_job ee (Send_As_Host l identity files config) fs =
     map_option (\<lambda>(r, outs). (r, fs)) (send_as_host (ee_tls ee) (ee_listener ee) (ee_accepts ee) (ee_os ee)
       (ee_blake3 ee) (ee_enc ee) (ee_dec ee) identity files config fs (ee_sid ee) (ee_sending ee))"

record report_line =
  rl_label :: string
  rl_megabytes_per_second :: rat
  rl_megabits_per_second :: rat
  rl_seconds :: rat
  rl_gigabytes :: rat

definition report :: "string \<Rightarrow> transfer_stats \<Rightarrow> report_line" where
  "report label stats =
     \<lparr>rl_label = label, rl_megabytes_per_second = megabytes_per_second stats,
      rl_megabits_per_second = megabits_per_second stats,
      rl_seconds = of_nat (ts_elapsed_micros stats) / 1000000,
      rl_gigabytes = of_nat (unat (ts_bytes stats)) / 1000000000\<rparr>"

fun job_label :: "transfer_job \<Rightarrow> string" where
  "job_label (Receive_As_Host _ _ _ _) = ''received''"
| "job_label (Receive_From _ _ _ _) = ''received''"
| "job_label (Send_To _ _ _ _) = ''sent''"
| "job_label (Send_As_Host _ _ _ _) = ''sent''"

text \<open>A transfer command from the engine call on: its report or the error \<open>main\<close> returns.\<close>

definition cli_transfer ::
    "engine_env \<Rightarrow> transfer_job \<Rightarrow> fs \<Rightarrow> ((report_line, cli_error) result \<times> fs) option" where
  "cli_transfer ee job fs =
     (case run_job ee job fs of
        None \<Rightarrow> None
      | Some (Err e, fs') \<Rightarrow> Some (Err (Core_Failed e), fs')
      | Some (Ok n, fs') \<Rightarrow>
          Some (Ok (report (job_label job) \<lparr>ts_bytes = n, ts_elapsed_micros = ee_elapsed ee\<rparr>), fs'))"

section \<open>The source of the benchmark\<close>

definition XORSHIFT_SEED :: u64 where
  "XORSHIFT_SEED = 0x243F6A8885A308D3"

definition BLOCK_LEN :: nat where
  "BLOCK_LEN = 2 ^ 20"

definition xorshift :: "u64 \<Rightarrow> u64" where
  "xorshift x0 =
     (let x1 = x0 XOR push_bit 13 x0;
          x2 = x1 XOR drop_bit 7 x1 in
      x2 XOR push_bit 17 x2)"

text \<open>One pass over the block, by eight bytes: the bytes of the block and the next generator state.\<close>

fun fill_block :: "nat \<Rightarrow> u64 \<Rightarrow> bytes \<times> u64" where
  "fill_block 0 x = ([], x)"
| "fill_block (Suc n) x =
     (let x' = xorshift x in
      case fill_block n x' of (block, y) \<Rightarrow> (to_le_bytes x' @ block, y))"

function write_blocks :: "u64 \<Rightarrow> u64 \<Rightarrow> u64 \<Rightarrow> bytes" where
  "write_blocks total_len written x =
     (if written < total_len
      then case fill_block (BLOCK_LEN div 8) x of (block, x') \<Rightarrow>
             let n = min (length block) (unat (total_len - written)) in
             take n block @ write_blocks total_len (written + of_nat n) x'
      else [])"
  by pat_completeness auto

lemma fill_block_length [simp]: "length (fst (fill_block n x)) = 8 * n"
  by (induction n arbitrary: x) (simp_all add: Let_def split_beta length_to_le_bytes)

text \<open>A round writes at least one byte and never more than is missing.\<close>

lemma round_progress:
  fixes written total_len :: u64
  assumes "written < total_len" and "n = min (8 * (BLOCK_LEN div 8)) (unat (total_len - written))"
  shows "0 < n" "unat (written + of_nat n) = unat written + n" "unat written + n \<le> unat total_len"
proof -
  have d: "unat (total_len - written) = unat total_len - unat written" "unat written < unat total_len"
    using assms(1) by (simp_all add: unat_sub_exact word_less_nat_alt)
  show "0 < n" using assms(2) d by (simp add: BLOCK_LEN_def)
  show le: "unat written + n \<le> unat total_len" using assms(2) d by simp
  then have "unat written + n < 2 ^ 64" using unat_less_exp [of total_len] by simp
  then show "unat (written + of_nat n) = unat written + n"
    by (simp add: unat_word_ariths unat_of_nat)
qed

termination write_blocks
proof (relation "measure (\<lambda>(total_len, written, x). unat total_len - unat written)")
  fix total_len written x :: u64 and block x' n
  assume "written < total_len" "(block, x') = fill_block (BLOCK_LEN div 8) x"
    and n: "n = min (length block) (unat (total_len - written))"
  then have "length block = 8 * (BLOCK_LEN div 8)" by (metis fill_block_length fst_conv)
  then have n': "n = min (8 * (BLOCK_LEN div 8)) (unat (total_len - written))" using n by simp
  from round_progress [OF \<open>written < total_len\<close> n']
  show "((total_len, written + of_nat n, x'), total_len, written, x)
      \<in> measure (\<lambda>(total_len, written, x). unat total_len - unat written)" by simp
qed simp

declare write_blocks.simps [simp del]

text \<open>\<open>write_source\<close>: a write that fails leaves what had been written by then.\<close>

definition write_source :: "os_env \<Rightarrow> fs \<Rightarrow> path \<Rightarrow> u64 \<Rightarrow> (unit, cli_error) result \<times> fs" where
  "write_source os fs p n =
     (let data = write_blocks n 0 XORSHIFT_SEED in
      if os_fails os (CreateFile p) then (Err File_Failed, fs)
      else if os_fails os (WriteFile p)
      then (Err File_Failed, fs(p \<mapsto> take (os_partial os p 0) data))
      else (Ok (), fs(p \<mapsto> data)))"

text \<open>The head of \<open>bench\<close>: the source is generated unless a file of the right length is there.\<close>

definition bench_source :: "os_env \<Rightarrow> fs \<Rightarrow> path \<Rightarrow> u64 \<Rightarrow> (u64, cli_error) result \<times> fs" where
  "bench_source os fs dir size_mib =
     (if os_fails os (CreateDirs dir) then (Err File_Failed, fs)
      else
        let src = path_join dir ''bench-source.bin'';
            n = size_mib * 1024 * 1024;
            present = (if os_fails os (Stat src) then None else map_option length (fs src)) in
        if present = Some (unat n) then (Ok n, fs)
        else case write_source os fs src n of
               (Err e, fs') \<Rightarrow> (Err e, fs')
             | (Ok _, fs') \<Rightarrow> (Ok n, fs'))"

section \<open>The runs of the benchmark\<close>

text \<open>
  \<open>remove_dir_all(..).ok()\<close>: everything below the directory goes; when the removal fails, \<open>left\<close> is what
  it leaves.
\<close>

definition remove_dir_all :: "path set \<Rightarrow> fs \<Rightarrow> path \<Rightarrow> fs" where
  "remove_dir_all left fs dir =
     (\<lambda>p. if take (length dir) p = dir \<and> p \<notin> left then None else fs p)"

record run_env =
  ru_host :: host_env
  ru_engine :: engine_env
  ru_left :: "path set"

text \<open>
  One run: both roles in one process, on one disk.  The sender is awaited first and its error returned
  at once; the disk is then the one the receiving task has left, when that task has ended.
\<close>

definition bench_run ::
    "run_env \<Rightarrow> path \<Rightarrow> path \<Rightarrow> config \<Rightarrow> fs \<Rightarrow> ((transfer_stats, cli_error) result \<times> fs) option" where
  "bench_run r src out_dir config fs =
     (let fs1 = remove_dir_all (ru_left r) fs out_dir in
      case host_identity_generate (he_tls (ru_host r)) (he_blake3 (ru_host r)) of
        Err e \<Rightarrow> Some (Err (Core_Failed e), fs1)
      | Ok identity \<Rightarrow>
      case recv_bind (ru_host r) 0 of
        Err e \<Rightarrow> Some (Err (Core_Failed e), fs1)
      | Ok l \<Rightarrow>
      case he_local_port (ru_host r) l of
        None \<Rightarrow> Some (Err No_Address, fs1)
      | Some port \<Rightarrow>
      let addr = ''0.0.0.0:'' @ decimal (unat port);
          outgoing = [\<lparr>of_path = src, of_relative_path = ''bench.bin'', of_mime_type = ''application/octet-stream''\<rparr>];
          served = run_job (ru_engine r) (Receive_As_Host l identity out_dir config) fs1 in
      case run_job (ru_engine r) (Send_To addr (hi_fingerprint identity) outgoing config) fs1 of
        None \<Rightarrow> None
      | Some (Err e, _) \<Rightarrow> Some (Err (Core_Failed e), case served of Some (_, fs2) \<Rightarrow> fs2 | None \<Rightarrow> fs1)
      | Some (Ok _, _) \<Rightarrow>
      case served of
        None \<Rightarrow> None
      | Some (Err e, fs2) \<Rightarrow> Some (Err (Core_Failed e), fs2)
      | Some (Ok n, fs2) \<Rightarrow> Some (Ok \<lparr>ts_bytes = n, ts_elapsed_micros = ee_elapsed (ru_engine r)\<rparr>, fs2))"

fun bench_loop ::
    "(nat \<Rightarrow> run_env) \<Rightarrow> path \<Rightarrow> path \<Rightarrow> config \<Rightarrow> nat list \<Rightarrow> report_line list \<times> rat list \<Rightarrow> fs
     \<Rightarrow> ((report_line list \<times> rat list, cli_error) result \<times> fs) option" where
  "bench_loop env src out_dir config [] acc fs = Some (Ok acc, fs)"
| "bench_loop env src out_dir config (k # ks) (printed, results) fs =
     (case bench_run (env k) src out_dir config fs of
        None \<Rightarrow> None
      | Some (Err e, fs') \<Rightarrow> Some (Err e, fs')
      | Some (Ok stats, fs') \<Rightarrow>
          bench_loop env src out_dir config ks
            (printed @ [report (''run '' @ decimal k) stats], results @ [megabytes_per_second stats]) fs')"

text \<open>\<open>f64::MIN\<close> starts the fold for the best rate; the mean of no runs is not a number.\<close>

definition F64_MIN :: rat where
  "F64_MIN = - (2 ^ 1024 - 2 ^ 971)"

record bench_summary =
  bs_runs :: "report_line list"
  bs_best :: rat
  bs_mean :: "rat option"
  bs_peak_mbps :: rat

definition bench ::
    "os_env \<Rightarrow> (nat \<Rightarrow> run_env) \<Rightarrow> path set \<Rightarrow> u64 \<Rightarrow> path \<Rightarrow> u32 \<Rightarrow> config \<Rightarrow> fs
     \<Rightarrow> ((bench_summary, cli_error) result \<times> fs) option" where
  "bench os env left size_mib dir runs config fs =
     (let src = path_join dir ''bench-source.bin''; out_dir = path_join dir ''out'' in
      case bench_source os fs dir size_mib of
        (Err e, fs1) \<Rightarrow> Some (Err e, fs1)
      | (Ok n, fs1) \<Rightarrow>
      case bench_loop env src out_dir config [1..<Suc (unat runs)] ([], []) fs1 of
        None \<Rightarrow> None
      | Some (Err e, fs2) \<Rightarrow> Some (Err e, fs2)
      | Some (Ok (printed, results), fs2) \<Rightarrow>
      let best = fold max results F64_MIN;
          mean = (if results = [] then None else Some (sum_list results / of_nat (length results))) in
      Some (Ok \<lparr>bs_runs = printed, bs_best = best, bs_mean = mean, bs_peak_mbps = best * 8\<rparr>,
            remove_dir_all left fs2 out_dir))"

section \<open>What the summary says\<close>

lemma bench_loop_collects:
  "bench_loop env src out_dir config ks (printed, results) fs = Some (Ok (printed', results'), fs') \<Longrightarrow>
     \<exists>stats. length stats = length ks
       \<and> printed' = printed @ map (\<lambda>(k, s). report (''run '' @ decimal k) s) (zip ks stats)
       \<and> results' = results @ map megabytes_per_second stats"
proof (induction ks arbitrary: printed results fs)
  case (Cons k ks)
  from Cons.prems obtain s fs1 where run: "bench_run (env k) src out_dir config fs = Some (Ok s, fs1)"
    and rest: "bench_loop env src out_dir config ks
      (printed @ [report (''run '' @ decimal k) s], results @ [megabytes_per_second s]) fs1 = Some (Ok (printed', results'), fs')"
    by (auto split: option.splits result.splits prod.splits)
  from Cons.IH [OF rest] obtain stats where "length stats = length ks"
    "printed' = printed @ report (''run '' @ decimal k) s # map (\<lambda>(k, s). report (''run '' @ decimal k) s) (zip ks stats)"
    "results' = results @ megabytes_per_second s # map megabytes_per_second stats" by auto
  then show ?case by (intro exI [of _ "s # stats"]) simp
qed simp

lemma rate_nonneg: "0 \<le> megabytes_per_second s"
proof -
  have "(0 :: rat) \<le> of_nat (unat (ts_bytes s)) / 1000000 / (of_nat (ts_elapsed_micros s) / 1000000)"
    by (intro divide_nonneg_nonneg of_nat_0_le_iff) simp_all
  then show ?thesis unfolding megabytes_per_second_def Let_def by (simp only: order_refl simp_thms split: if_split)
qed

lemma F64_MIN_neg: "F64_MIN < 0"
  by (simp add: F64_MIN_def)

lemma fold_max_ge: "x \<in> set xs \<Longrightarrow> x \<le> fold max xs (b :: rat)"
  using Max_ge [of "set (b # xs)" x] by (simp only: Max.set_eq_fold) simp

lemma fold_max_mem: "xs \<noteq> [] \<Longrightarrow> \<forall>x \<in> set xs. b < x \<Longrightarrow> fold max xs (b :: rat) \<in> set xs"
proof -
  assume ne: "xs \<noteq> []" and b: "\<forall>x \<in> set xs. b < x"
  have "Max (set (b # xs)) \<in> set (b # xs)" by (rule Max_in) simp_all
  moreover have "b < fold max xs b"
    using b ne fold_max_ge [of "hd xs" xs b] by (meson hd_in_set less_le_trans)
  ultimately show ?thesis by (simp only: Max.set_eq_fold) auto
qed

lemma sum_list_le: "\<forall>x \<in> set xs. x \<le> (b :: rat) \<Longrightarrow> sum_list xs \<le> of_nat (length xs) * b"
  by (induction xs) (auto simp: algebra_simps)

text \<open>
  The summary of a benchmark that succeeds: one line per run; with at least one run the best rate is the
  rate of a run and the mean is at most the best; the output directory is empty when its removal works.
\<close>

theorem bench_summary_exact:
  assumes "bench os env left size_mib dir runs config fs = Some (Ok b, fs')"
  shows "length (bs_runs b) = unat runs
    \<and> (0 < runs \<longrightarrow> bs_best b \<in> rl_megabytes_per_second ` set (bs_runs b)
         \<and> (\<exists>mean. bs_mean b = Some mean \<and> 0 \<le> mean \<and> mean \<le> bs_best b))
    \<and> (left = {} \<longrightarrow> (\<forall>rest. fs' (path_join dir ''out'' @ rest) = None))"
proof -
  obtain printed results fs1 fs2 where loop: "bench_loop env (path_join dir ''bench-source.bin'') (path_join dir ''out'') config
      [1..<Suc (unat runs)] ([], []) fs1 = Some (Ok (printed, results), fs2)"
    and b: "bs_runs b = printed" "bs_best b = fold max results F64_MIN"
      "bs_mean b = (if results = [] then None else Some (sum_list results / of_nat (length results)))"
    and fs': "fs' = remove_dir_all left fs2 (path_join dir ''out'')"
    using assms by (auto simp: bench_def Let_def simp del: upt_Suc split: prod.splits result.splits option.splits)
  obtain stats where st: "length stats = unat runs"
      "printed = map (\<lambda>(k, s). report (''run '' @ decimal k) s) (zip [1..<Suc (unat runs)] stats)"
      "results = map megabytes_per_second stats"
    using bench_loop_collects [OF loop] by (auto simp del: upt_Suc)
  have rates: "map rl_megabytes_per_second printed = results"
  proof -
    have "map rl_megabytes_per_second printed = map megabytes_per_second (map snd (zip [1..<Suc (unat runs)] stats))"
      unfolding st(2) by (simp add: report_def split_beta o_def del: upt_Suc)
    also have "map snd (zip [1..<Suc (unat runs)] stats) = stats" by (rule map_snd_zip) (simp add: st(1))
    finally show ?thesis by (simp add: st(3))
  qed
  have "bs_best b \<in> rl_megabytes_per_second ` set printed
      \<and> (\<exists>mean. bs_mean b = Some mean \<and> 0 \<le> mean \<and> mean \<le> bs_best b)" if runs: "0 < runs"
  proof -
    have ne: "results \<noteq> []" using runs st(1,3) by (auto simp: word_less_nat_alt)
    have pos: "\<forall>x \<in> set results. 0 \<le> x" by (auto simp: st(3) rate_nonneg)
    then have "\<forall>x \<in> set results. F64_MIN < x" using F64_MIN_neg by fastforce
    from fold_max_mem [OF ne this] have mem: "bs_best b \<in> set results" by (simp add: b(2))
    have "sum_list results \<le> of_nat (length results) * bs_best b"
      unfolding b(2) by (rule sum_list_le) (auto intro: fold_max_ge)
    then have "sum_list results / of_nat (length results) \<le> bs_best b"
      using ne by (simp add: divide_le_eq mult.commute)
    moreover have "0 \<le> sum_list results / of_nat (length results)"
      using pos by (simp add: sum_list_nonneg)
    ultimately show ?thesis using mem ne by (auto simp: b(3) rates [symmetric])
  qed
  moreover have "length (bs_runs b) = unat runs" by (simp add: b(1) st(1,2) del: upt_Suc)
  ultimately show ?thesis by (auto simp: b(1) fs' remove_dir_all_def)
qed

section \<open>What the source contains\<close>

text \<open>The generator as one stream: its \<open>i\<close>-th word is the \<open>i + 1\<close>-st iterate.\<close>

definition keystream :: "nat \<Rightarrow> u64 \<Rightarrow> bytes" where
  "keystream n x = concat (map (\<lambda>i. to_le_bytes ((xorshift ^^ Suc i) x)) [0..<n])"

lemma length_word_bytes [simp]: "length (to_le_bytes (x :: u64)) = 8"
  by (simp add: length_to_le_bytes)

lemma keystream_Suc: "keystream (Suc n) x = to_le_bytes (xorshift x) @ keystream n (xorshift x)"
  unfolding keystream_def map_upt_Suc by (simp add: funpow_swap1)

lemma keystream_0 [simp]: "keystream 0 x = []"
  by (simp add: keystream_def)

lemma length_keystream [simp]: "length (keystream n x) = 8 * n"
  by (induction n arbitrary: x) (simp_all add: keystream_Suc)

lemma keystream_add: "keystream (m + n) x = keystream m x @ keystream n ((xorshift ^^ m) x)"
  by (induction m arbitrary: x) (simp_all add: keystream_Suc funpow_swap1)

lemma keystream_nth:
  "i < 8 * n \<Longrightarrow> keystream n x ! i = to_le_bytes ((xorshift ^^ Suc (i div 8)) x) ! (i mod 8)"
proof (induction n arbitrary: i x)
  case (Suc n)
  show ?case
  proof (cases "i < 8")
    case False
    then have "i div 8 = Suc ((i - 8) div 8)" "i mod 8 = (i - 8) mod 8"
      by (simp_all add: le_div_geq le_mod_geq)
    with Suc.IH [of "i - 8" "xorshift x"] Suc.prems False show ?thesis
      by (simp add: keystream_Suc nth_append funpow_swap1)
  qed (simp add: keystream_Suc nth_append)
qed simp

lemma fill_block_keystream: "fill_block n x = (keystream n x, (xorshift ^^ n) x)"
  by (induction n arbitrary: x) (simp_all add: keystream_Suc Let_def funpow_swap1)

lemma write_blocks_keystream:
  "unat total_len - unat written \<le> 8 * k \<Longrightarrow>
     write_blocks total_len written x = take (unat total_len - unat written) (keystream k x)"
proof (induction total_len written x arbitrary: k rule: write_blocks.induct)
  case (1 total_len written x)
  define m where "m = BLOCK_LEN div 8"
  define n where "n = min (8 * m) (unat (total_len - written))"
  let ?left = "unat total_len - unat written"
  show ?case
  proof (cases "written < total_len")
    case False
    then show ?thesis by (simp add: write_blocks.simps word_less_nat_alt)
  next
    case True
    then have left: "unat (total_len - written) = ?left" by (simp add: unat_sub_exact word_less_nat_alt)
    note prog = round_progress [OF True n_def [unfolded m_def]]
    have unfold: "write_blocks total_len written x =
        take n (keystream m x) @ write_blocks total_len (written + of_nat n) ((xorshift ^^ m) x)"
      using True by (subst write_blocks.simps) (simp add: fill_block_keystream m_def n_def Let_def)
    have ih: "write_blocks total_len (written + of_nat n) ((xorshift ^^ m) x) =
        take (?left - n) (keystream j ((xorshift ^^ m) x))" if j: "?left - n \<le> 8 * j" for j
      using 1(1) [OF True, of "keystream m x" "(xorshift ^^ m) x" n j] j prog(2)
      by (simp add: fill_block_keystream m_def n_def diff_diff_add)
    show ?thesis
    proof (cases "?left \<le> 8 * m")
      case True
      then have n: "n = ?left" by (simp add: n_def left)
      have "take ?left (keystream m x) = take ?left (keystream k x)"
      proof (cases "m \<le> k")
        case True
        then show ?thesis using keystream_add [of m "k - m" x] \<open>?left \<le> 8 * m\<close> by simp
      next
        case False
        then show ?thesis using keystream_add [of k "m - k" x] "1.prems" by simp
      qed
      with unfold ih [of 0] n show ?thesis by simp
    next
      case False
      then have n: "n = 8 * m" by (simp add: n_def left)
      with False "1.prems" have k: "k = m + (k - m)" by simp
      show ?thesis
        unfolding unfold
        by (subst k, subst keystream_add, subst ih [of "k - m"]) (use n False "1.prems" in auto)
    qed
  qed
qed

text \<open>The generator never reaches its fixed point zero.\<close>

lemma xor_push_bit_zero:
  fixes x :: u64
  assumes "0 < k" and "x XOR push_bit k x = 0"
  shows "x = 0"
proof -
  have "\<not> bit x i" for i
  proof (induction i rule: less_induct)
    case (less i)
    have "bit (x XOR push_bit k x) i = False" using assms(2) by simp
    then show ?case
      using less [of "i - k"] assms(1) by (cases "k \<le> i") (auto simp: bit_simps dest: bit_imp_le_length)
  qed
  then show ?thesis by (simp add: bit_eq_iff)
qed

lemma xor_drop_bit_zero:
  fixes x :: u64
  assumes "0 < k" and "x XOR drop_bit k x = 0"
  shows "x = 0"
proof -
  have "x = drop_bit k x"
  proof (rule bit_word_eqI)
    fix n
    have "bit (x XOR drop_bit k x) n = False" using assms(2) by simp
    then show "bit x n = bit (drop_bit k x) n" by (simp add: bit_xor_iff)
  qed
  then have "unat x = unat x div 2 ^ k" by (metis drop_bit_eq_div unat_drop_bit_eq)
  moreover have "1 < (2 :: nat) ^ k" using less_exp [of k] assms(1) by linarith
  ultimately have "unat x = 0" using div_less_dividend [of "2 ^ k" "unat x"] by fastforce
  then show ?thesis by (simp add: unat_eq_zero)
qed

lemma xorshift_nonzero: "x \<noteq> 0 \<Longrightarrow> xorshift x \<noteq> 0"
  unfolding xorshift_def Let_def
  using xor_push_bit_zero [of 17] xor_drop_bit_zero [of 7] xor_push_bit_zero [of 13 x]
  by (metis zero_less_numeral)

lemma xorshift_iterate_nonzero: "x \<noteq> 0 \<Longrightarrow> (xorshift ^^ n) x \<noteq> 0"
  by (induction n) (simp_all add: xorshift_nonzero)

lemma write_blocks_from_start: "write_blocks n 0 x = take (unat n) (keystream (Suc (unat n div 8)) x)"
  using write_blocks_keystream [of n 0 "Suc (unat n div 8)" x] by simp

section \<open>Properties\<close>

text \<open>
  The source of the benchmark is the keystream of its generator, whatever the block size: when
  \<open>write_source\<close> succeeds the file has exactly the requested length, byte \<open>i\<close> is byte \<open>i mod 8\<close> of
  the iterate number \<open>i div 8 + 1\<close>, and no iterate is zero.  No other file changes.
\<close>

theorem source_file_exact:
  assumes "write_source os fs p n = (Ok (), fs')"
  shows "length (content fs' p) = unat n
    \<and> (\<forall>i < unat n. content fs' p ! i = to_le_bytes ((xorshift ^^ Suc (i div 8)) XORSHIFT_SEED) ! (i mod 8))
    \<and> (\<forall>k. (xorshift ^^ k) XORSHIFT_SEED \<noteq> 0) \<and> (\<forall>q. q \<noteq> p \<longrightarrow> fs' q = fs q)"
proof -
  have c: "content fs' p = write_blocks n 0 XORSHIFT_SEED" and o: "\<forall>q. q \<noteq> p \<longrightarrow> fs' q = fs q"
    using assms by (auto simp: write_source_def content_def Let_def split: if_splits)
  have "unat n \<le> 8 * Suc (unat n div 8)" by simp
  then have "length (content fs' p) = unat n
      \<and> (\<forall>i < unat n. content fs' p ! i = to_le_bytes ((xorshift ^^ Suc (i div 8)) XORSHIFT_SEED) ! (i mod 8))"
    unfolding c write_blocks_from_start by (auto simp: keystream_nth min_def)
  moreover have "(xorshift ^^ k) XORSHIFT_SEED \<noteq> 0" for k
    by (rule xorshift_iterate_nonzero) (simp add: XORSHIFT_SEED_def)
  ultimately show ?thesis using o by blast
qed

theorem source_file_exact_witness:
  "write_source quiet_os Map.empty [''s''] 3 = (Ok (), [[''s''] \<mapsto> write_blocks 3 0 XORSHIFT_SEED])
     \<and> length (write_blocks 3 0 XORSHIFT_SEED) = 3"
proof -
  have w: "write_source quiet_os Map.empty [''s''] 3 = (Ok (), [[''s''] \<mapsto> write_blocks 3 0 XORSHIFT_SEED])"
    by (simp add: write_source_def quiet_os_def Let_def)
  from source_file_exact [OF w] w show ?thesis by (simp add: content_def)
qed

text \<open>
  The printed fingerprint pairs the two sides.  What \<open>recv\<close> or \<open>host-send\<close> prints after
  \<open>fingerprint\<close>, given to \<open>send\<close> or \<open>client-recv\<close> on the other device, makes that command dial with the
  hash of the certificate the host serves.
\<close>

theorem printed_fingerprint_pairs:
  assumes "\<And>bs. length (he_blake3 he bs) = 32"
    and "listen he port = Ok (identity, l, printed)"
  shows "\<exists>address text. printed = [address, ''fingerprint  '' @ text]
    \<and> cli_main lossy he' (Send addr text files t) =
        Some (Ok (Transfer (Send_To addr (he_blake3 he (hi_cert identity)) (cli_to_outgoing lossy files) (tuning_config t)) []))
    \<and> cli_main lossy he' (ClientRecv addr text out t) =
        Some (Ok (Transfer (Receive_From addr (he_blake3 he (hi_cert identity)) (path_join [] out) (tuning_config t)) []))"
proof -
  from assms(2) have gen: "host_identity_generate (he_tls he) (he_blake3 he) = Ok identity"
    by (auto simp: listen_def split: result.splits option.splits)
  have printed: "\<exists>address. printed = [address, ''fingerprint  '' @ fingerprint_hex identity]"
    using assms(2) gen by (auto simp: listen_def split: result.splits option.splits)
  note fp = host_identity_fingerprint [OF gen]
  have "length (fingerprint_hex identity) = 64"
    by (simp add: fingerprint_hex_def fp assms(1))
  moreover have "parse_hex_at (fingerprint_hex identity) [0..<32] = Some (Ok (he_blake3 he (hi_cert identity)))"
    using parse_hex_text [of "[0..<32]" "hi_fingerprint identity"] map_nth [of "hi_fingerprint identity"]
    by (simp add: fingerprint_hex_def fp assms(1))
  ultimately have pin: "cli_parse_fingerprint (fingerprint_hex identity) = Some (Ok (he_blake3 he (hi_cert identity)))"
    by (simp add: cli_parse_fingerprint_def)
  from printed obtain address where "printed = [address, ''fingerprint  '' @ fingerprint_hex identity]" by blast
  then show ?thesis
    by (intro exI [of _ address] exI [of _ "fingerprint_hex identity"]) (simp add: pin)
qed

theorem printed_fingerprint_pairs_witness:
  "\<exists>identity l address text. listen sample_host 0 = Ok (identity, l, [address, ''fingerprint  '' @ text])
     \<and> cli_main id sample_host (Send ''h:1'' text [] tuning_default) =
         Some (Ok (Transfer (Send_To ''h:1'' (sample_hash [7, 7]) [] (tuning_config tuning_default)) []))"
proof -
  obtain identity l printed where l: "listen sample_host 0 = Ok (identity, l, printed)" "hi_cert identity = [7, 7]"
    by (auto simp: listen_def sample_host_def recv_bind_def host_identity_generate_def plain_tls_def Let_def)
  have "length (he_blake3 sample_host bs) = 32" for bs by (simp add: sample_host_def sample_hash_def)
  from printed_fingerprint_pairs [OF this l(1), of id sample_host "''h:1''" "[]" tuning_default "[]"] l
  show ?thesis by (auto simp: sample_host_def cli_to_outgoing_def)
qed

end
