(* ===== verification/Spec2Isabelle.thy ===== *)
theory Spec2Isabelle
  imports Session_Threads Restart Harness
begin

text \<open>
  Verification of AetherLink, a file transfer engine for a direct Wi-Fi link between two phones.

  \<^bold>\<open>The program.\<close>  A sender maps and hashes its files, offers them over a control stream, and sends the
  chunks the receiver lacks over several parallel data streams.  The receiver checks the offer, reserves
  disk space, verifies every chunk against the committed hash before it writes it, keeps a bitmap of
  what it has, and records it in a sidecar file at checkpoints so that an interrupted transfer resumes.
  Streams are TLS connections to a host whose certificate fingerprint travelled in a QR code.  A session
  object runs all this for the apps; a command-line program runs it for measurements.  The crates are
  under \<^verbatim>\<open>src/core/crates\<close>: \<^verbatim>\<open>aetherlink-proto\<close>, \<^verbatim>\<open>aetherlink-core\<close>, \<^verbatim>\<open>aetherlink-ffi\<close> and
  \<^verbatim>\<open>aetherlink-cli\<close>.

  \<^bold>\<open>The theories.\<close>  Each component has a theory of its own; its records are the structs, its datatypes the
  enums, its functions the methods of the source, under the names they have there.

  \<^item> \<open>Prelude\<close>: integer types as words, the \<open>Result\<close> type, the library functions on integers and slices
    the crates call, and the locale \<open>invariant_system\<close> of runs that keep an invariant.  \<open>Errors\<close>: the error
    enums of \<^verbatim>\<open>proto/lib.rs\<close> and \<^verbatim>\<open>core/lib.rs\<close>.
  \<^item> \<open>Frame\<close> (\<^verbatim>\<open>frame.rs\<close>): the 32-byte header; \<open>decode\<close> accepts exactly the encodings of well-formed headers.
  \<^item> \<open>Chunk\<close> (\<^verbatim>\<open>chunk.rs\<close>): chunk geometry, hashing, the hash set; the chunks tile the file, the root is
    independent of arrival order and binds the chunk hashes.
  \<^item> \<open>Bitmap\<close> (\<^verbatim>\<open>bitmap.rs\<close>): presence bitmaps behind the locale \<open>presence_set\<close>; every bitmap the crate can
    make is well formed, and the missing ranges are the maximal runs of absent chunks.
  \<^item> \<open>Manifest\<close> (\<^verbatim>\<open>manifest.rs\<close>): path sanitising and manifest validation; an accepted path stays below
    the output directory.
  \<^item> \<open>Control_Channel\<close> (\<^verbatim>\<open>control.rs\<close>): framing of control messages over byte streams.
  \<^item> \<open>Storage\<close> (\<^verbatim>\<open>io.rs\<close>, \<^verbatim>\<open>platform.rs\<close>): source and sink files over a file-system map, with every system
    call allowed to fail; nothing unverified is written.
  \<^item> \<open>Resume\<close> (\<^verbatim>\<open>resume.rs\<close>): sidecar records, written by rename, checked on load; rebuilding by hashing.
  \<^item> \<open>Engine\<close> (\<^verbatim>\<open>core/lib.rs\<close>): configuration and statistics.  \<open>Progress\<close> (\<^verbatim>\<open>progress.rs\<close>): the rate limiter,
    as one call and as atomic accesses of concurrent callers.
  \<^item> \<open>Receiver\<close> and \<open>Reception\<close> (\<^verbatim>\<open>recv.rs\<close>): the stream workers as steps on a shared state, interleaved by
    a schedule, with a second, durable copy of the disk that write-back and syncs advance; then the
    handshake, the offer checks and the completion around them.  What the bitmap claims is verified, what a
    sidecar claims is on the device, workers end, success means the offered files are there.
  \<^item> \<open>Sender\<close> (\<^verbatim>\<open>send.rs\<close>): the work queue from the receiver's answer, the stream tasks as interleaved
    steps with connections that may break, read cursors and page release; each missing chunk is sent
    exactly once, pages are released behind every reader, a fair schedule ends every task.
  \<^item> \<open>Exchange\<close>: a sender and a receiver wired together; the transfer ends with equal files on both sides.
  \<^item> \<open>Restart\<close>: power failures between sessions; the guarantee of success survives any number of them.
  \<^item> \<open>Secure_Link\<close> (\<^verbatim>\<open>tls.rs\<close>, \<^verbatim>\<open>link.rs\<close>, sockets of \<^verbatim>\<open>platform.rs\<close>): identity, pinning, dialler and acceptor
    with the order of their socket calls.
  \<^item> \<open>Session\<close> (\<^verbatim>\<open>ffi/lib.rs\<close>): the session object; exported methods and the phases of the spawned tasks as
    an inductive step relation, which refines the specification of a slot for one transfer.
  \<^item> \<open>Session_Threads\<close>: the exported methods access by access, for any number of calling threads.  A call
    nobody disturbs is the single step of \<open>Session\<close>; outcomes are told once under every interleaving; without
    cancellation one transfer runs at a time; a cancellation that overlaps a start can miss its transfer.
  \<^item> \<open>Endpoints\<close>: the four roles of \<^verbatim>\<open>recv.rs\<close> and \<^verbatim>\<open>send.rs\<close> over the locale \<open>stream_source\<close>, the trait of
    \<^verbatim>\<open>link.rs\<close>, interpreted for the dialler and the acceptor; a client deals with the pinned host only.
  \<^item> \<open>Harness\<close> (\<^verbatim>\<open>cli/main.rs\<close>): the transfer commands with their reports, and the benchmark: its generated
    source, its runs with both roles in one process, its summary.

  \<^bold>\<open>How the model is built.\<close>  Integers keep their width and wrap; \<open>usize\<close> values that count bytes in
  memory are naturals.  Errors are values of the error enums; a message keeps its template and its
  arguments.  Files are byte lists in a map from paths.  Concurrency is a schedule: a list of actions,
  each one step of one worker, so that a statement about all schedules is one about all interleavings.
  A step is what the code does between two points where another task can see the shared state.

  \<^bold>\<open>Parameters.\<close>  BLAKE3 (with outputs of 32 bytes; statements about content say \<open>collision\<close> where a
  collision would make the difference), the protobuf codec (decoding inverts encoding on the messages of a
  session), rustls (a client handshake completes only if the verifier accepted the certificate),
  certificate generation, the failures of system calls, the iteration order of the map of files, and the
  number of cores.

  \<^bold>\<open>Bounds.\<close>  No loop has fuel: loops over inputs are structural or have a measure.  Two statements count
  turns: a worker of the receiver needs at most sixteen per byte left on its stream and one more, since
  each frame has a header of 32 bytes and a chunk takes eight steps of bookkeeping; a task of the sender
  needs at most the number \<open>send_work\<close> of the remaining steps.

  \<^bold>\<open>Not modelled.\<close>  The effect of \<^verbatim>\<open>madvise\<close> on memory (only the released ranges are), elapsed time except in
  the rate limiter and the reported rates (exact rationals for \<^verbatim>\<open>f64\<close>, the measured time a parameter),
  write-back of less than a chunk, a system call that fails once and then succeeds within one session,
  workers that go on after their session has returned early with an error, accesses of calls weaker than
  sequentially consistent (the code asks for \<^verbatim>\<open>SeqCst\<close>), the text of operating-system errors, the format of
  printed lines, argument parsing (a derive of clap), and the libraries named above.  The apps
  around the session object are not part of the repository.  Tests and accessors that return a field have no definition
  of their own.
\<close>

end
